(* ===== verification/Sim_Prelude.thy ===== *)
theory Sim_Prelude
  imports Main "HOL-Library.Word"
begin

text \<open>
  Shared vocabulary of the development.

  \<^item> The machine types of \<^verbatim>\<open>base/types.hh\<close>: an \<open>Addr\<close> is a 64-bit word and wraps;
    a \<open>Tick\<close> is simulated time, kept as \<open>nat\<close> because the event queue refuses to move it
    backwards and no component relies on its wrap-around.
  \<^item> The three ways the simulator stops (\<^verbatim>\<open>panic\<close>, \<^verbatim>\<open>fatal\<close>, \<^verbatim>\<open>assert\<close>) as values of
    \<open>sim_error\<close>; a fallible operation returns \<open>'a res\<close>, with \<open>Inl\<close> for the stop.
  \<^item> Byte stores (\<open>mem\<close>), with the reads and writes a \<^verbatim>\<open>memcpy\<close> performs and their algebra.
  \<^item> Little-endian words as byte lists.
\<close>

unbundle bit_operations_syntax

section \<open>Machine types and failures\<close>

type_synonym Addr = "64 word"
type_synonym Tick = nat
type_synonym byte = "8 word"

datatype sim_error = Panic | Fatal | AssertFail

type_synonym 'a res = "sim_error + 'a"

text \<open>The collections that carry the component proofs.\<close>

named_theorems res_simps \<open>stepping through fallible code\<close>
named_theorems mem_simps \<open>reads and writes of byte stores\<close>

fun rbind :: "'a res \<Rightarrow> ('a \<Rightarrow> 'b res) \<Rightarrow> 'b res" where
  "rbind (Inl e) f = Inl e"
| "rbind (Inr x) f = f x"

definition ensure :: "bool \<Rightarrow> sim_error \<Rightarrow> 'a res \<Rightarrow> 'a res" where
  "ensure c e m = (if c then m else Inl e)"

lemma ensure_True [simp]: "ensure True e m = m"
  by (simp add: ensure_def)

lemma ensure_False [simp]: "ensure False e m = Inl e"
  by (simp add: ensure_def)

lemma rbind_eq_Inr [res_simps]: "rbind m f = Inr y \<longleftrightarrow> (\<exists>x. m = Inr x \<and> f x = Inr y)"
  by (cases m) auto

lemma rbind_eq_Inl [res_simps]:
  "rbind m f = Inl e \<longleftrightarrow> m = Inl e \<or> (\<exists>x. m = Inr x \<and> f x = Inl e)"
  by (cases m) auto

lemma ensure_eq_Inr [res_simps]: "ensure c e m = Inr y \<longleftrightarrow> c \<and> m = Inr y"
  by (simp add: ensure_def)

lemma ensure_eq_Inl [res_simps]: "ensure c e m = Inl e' \<longleftrightarrow> (\<not> c \<and> e = e') \<or> (c \<and> m = Inl e')"
  by (auto simp: ensure_def)

lemma rbindE: "rbind m f = Inr y \<Longrightarrow> (\<And>x. m = Inr x \<Longrightarrow> f x = Inr y \<Longrightarrow> P) \<Longrightarrow> P"
  by (cases m) auto

lemma ensureE: "ensure c e m = Inr y \<Longrightarrow> (c \<Longrightarrow> m = Inr y \<Longrightarrow> P) \<Longrightarrow> P"
  by (auto simp: ensure_def split: if_splits)

lemma rbind_cong [fundef_cong]:
  "m = m' \<Longrightarrow> (\<And>x. m' = Inr x \<Longrightarrow> f x = f' x) \<Longrightarrow> rbind m f = rbind m' f'"
  by (cases m') auto

section \<open>Byte stores\<close>

type_synonym mem = "nat \<Rightarrow> byte"

definition read_bytes :: "mem \<Rightarrow> nat \<Rightarrow> nat \<Rightarrow> byte list" where
  "read_bytes m a n = map (\<lambda>i. m (a + i)) [0..<n]"

definition write_bytes :: "mem \<Rightarrow> nat \<Rightarrow> byte list \<Rightarrow> mem" where
  "write_bytes m a bs = (\<lambda>i. if a \<le> i \<and> i < a + length bs then bs ! (i - a) else m i)"

lemma length_read_bytes [simp]: "length (read_bytes m a n) = n"
  by (simp add: read_bytes_def)

lemma nth_read_bytes [simp]: "i < n \<Longrightarrow> read_bytes m a n ! i = m (a + i)"
  by (simp add: read_bytes_def)

lemma read_bytes_0 [simp]: "read_bytes m a 0 = []"
  by (simp add: read_bytes_def)

lemma write_bytes_Nil [simp]: "write_bytes m a [] = m"
  by (rule ext) (auto simp: write_bytes_def)

lemma write_bytes_outside [mem_simps]: "i < a \<or> a + length bs \<le> i \<Longrightarrow> write_bytes m a bs i = m i"
  by (auto simp: write_bytes_def)

lemma write_bytes_inside [mem_simps]: "i < length bs \<Longrightarrow> write_bytes m a bs (a + i) = bs ! i"
  by (simp add: write_bytes_def)

lemma read_write_same [mem_simps]: "n = length bs \<Longrightarrow> read_bytes (write_bytes m a bs) a n = bs"
  by (rule nth_equalityI) (auto simp: mem_simps)

lemma read_write_disjoint [mem_simps]:
  "a + length bs \<le> b \<or> b + n \<le> a \<Longrightarrow> read_bytes (write_bytes m a bs) b n = read_bytes m b n"
  by (rule nth_equalityI) (auto simp: mem_simps)

lemma read_bytes_append: "read_bytes m a (n + k) = read_bytes m a n @ read_bytes m (a + n) k"
  by (rule nth_equalityI) (auto simp: nth_append add.assoc)

lemma write_bytes_append:
  "write_bytes (write_bytes m a xs) (a + length xs) ys = write_bytes m a (xs @ ys)"
  by (rule ext) (auto simp: write_bytes_def nth_append)

lemma write_bytes_commute:
  "a + length xs \<le> b \<or> b + length ys \<le> a \<Longrightarrow>
    write_bytes (write_bytes m a xs) b ys = write_bytes (write_bytes m b ys) a xs"
  by (rule ext) (auto simp: write_bytes_def)

lemma write_read_id [mem_simps]: "write_bytes m a (read_bytes m a n) = m"
  by (rule ext) (auto simp: write_bytes_def)

section \<open>Little-endian words\<close>

definition to_le :: "nat \<Rightarrow> 'a::len word \<Rightarrow> byte list" where
  "to_le n w = map (\<lambda>i. ucast (drop_bit (8 * i) w)) [0..<n]"

definition from_le :: "byte list \<Rightarrow> 'a::len word" where
  "from_le bs = foldr (\<lambda>b acc. ucast b OR push_bit 8 acc) bs 0"

lemma length_to_le [simp]: "length (to_le n w) = n"
  by (simp add: to_le_def)

lemma to_le_0 [simp]: "to_le 0 w = []"
  by (simp add: to_le_def)

lemma to_le_Suc: "to_le (Suc n) w = ucast w # to_le n (drop_bit 8 w)"
proof -
  have "[0..<Suc n] = 0 # map Suc [0..<n]"
    by (simp add: map_Suc_upt upt_conv_Cons)
  then show ?thesis
    by (simp add: to_le_def drop_bit_drop_bit add.commute)
qed

lemma from_le_Nil [simp]: "from_le [] = 0"
  by (simp add: from_le_def)

lemma from_le_Cons [simp]: "from_le (b # bs) = ucast b OR push_bit 8 (from_le bs)"
  by (simp add: from_le_def)

lemma from_to_le_take: "from_le (to_le n w) = take_bit (8 * n) w"
proof (induction n arbitrary: w)
  case 0
  then show ?case by simp
next
  case (Suc n)
  have "ucast (ucast w :: byte) OR push_bit 8 (take_bit (8 * n) (drop_bit 8 w)) = take_bit (8 + 8 * n) w"
    by (rule bit_word_eqI) (auto simp: bit_simps)
  then show ?case by (simp add: to_le_Suc Suc.IH)
qed

lemma from_to_le: "LENGTH('a) \<le> 8 * n \<Longrightarrow> from_le (to_le n w) = (w :: 'a::len word)"
proof -
  assume "LENGTH('a) \<le> 8 * n"
  then have "take_bit (8 * n) w = w"
    by (intro bit_word_eqI) (auto simp: bit_simps)
  then show ?thesis by (simp add: from_to_le_take)
qed

end
