(* ===== verification/Bit_Utils.thy ===== *)
theory Bit_Utils
  imports Sim_Prelude
begin

text \<open>
  The bit and integer helpers of \<^verbatim>\<open>base/bitfield.hh\<close> and \<^verbatim>\<open>base/intmath.hh\<close> at their 64-bit
  instance: masks, bit ranges, bit insertion, bit counts and scans, logarithms, alignment and
  the portable 64x64-bit multiplication. The compiler built-ins the code calls
  (\<^verbatim>\<open>__builtin_ctzll\<close>, \<^verbatim>\<open>__builtin_clzll\<close>, \<^verbatim>\<open>__builtin_popcountl\<close>) are given by their documented
  meaning; the portable fall-backs are translated and shown equal to them.
\<close>

section \<open>Masks and bit ranges\<close>

definition mask_bits :: "nat \<Rightarrow> 64 word" where
  "mask_bits nbits = (if 64 \<le> nbits then - 1 else push_bit nbits 1 - 1)"

text \<open>\<open>bits_of\<close> is the body of \<^verbatim>\<open>bits\<close> after its assertion, for callers whose arguments are
  literals; the same split is made for \<open>insertBits\<close>.\<close>

definition bits_of :: "64 word \<Rightarrow> nat \<Rightarrow> nat \<Rightarrow> 64 word" where
  "bits_of val first lst = drop_bit lst val AND mask_bits (first - lst + 1)"

definition bits :: "64 word \<Rightarrow> nat \<Rightarrow> nat \<Rightarrow> 64 word res" where
  "bits val first lst = ensure (lst \<le> first) AssertFail (Inr (bits_of val first lst))"

definition bit1 :: "64 word \<Rightarrow> nat \<Rightarrow> 64 word" where
  "bit1 val n = bits_of val n n"

text \<open>The bit numbers are \<^verbatim>\<open>unsigned\<close>: \<open>first + 1\<close> wraps at \<open>2 ^ 32\<close>.\<close>

definition mbits :: "64 word \<Rightarrow> nat \<Rightarrow> nat \<Rightarrow> 64 word" where
  "mbits val first lst = val AND (mask_bits ((first + 1) mod 2 ^ 32) AND NOT (mask_bits lst))"

definition mask_range :: "nat \<Rightarrow> nat \<Rightarrow> 64 word" where
  "mask_range first lst = mbits (- 1) first lst"

definition sext :: "64 word \<Rightarrow> nat \<Rightarrow> 64 word" where
  "sext val N = (if bit1 val (N - 1) \<noteq> 0 then val OR NOT (mask_bits N) else val)"

definition szext :: "nat \<Rightarrow> 64 word \<Rightarrow> 64 word" where
  "szext N val =
     (if bit1 val (N - 1) \<noteq> 0 then val OR NOT (mask_bits N) else val AND mask_bits N)"

definition insert_bits_of :: "64 word \<Rightarrow> nat \<Rightarrow> nat \<Rightarrow> 64 word \<Rightarrow> 64 word" where
  "insert_bits_of val first lst bit_val =
     (let bmask = mask_range first lst
      in (val AND NOT bmask) OR (push_bit lst bit_val AND bmask))"

definition insertBits :: "64 word \<Rightarrow> nat \<Rightarrow> nat \<Rightarrow> 64 word \<Rightarrow> 64 word res" where
  "insertBits val first lst bit_val =
     ensure (lst \<le> first) AssertFail (Inr (insert_bits_of val first lst bit_val))"

definition insert_bit :: "64 word \<Rightarrow> nat \<Rightarrow> 64 word \<Rightarrow> 64 word" where
  "insert_bit val n bit_val = insert_bits_of val n n bit_val"

section \<open>Counting and scanning\<close>

definition popCount :: "64 word \<Rightarrow> nat" where
  "popCount val = length (filter (bit val) [0..<64])"

definition ctz64 :: "64 word \<Rightarrow> nat" where
  "ctz64 val = (if val \<noteq> 0 then length (takeWhile (\<lambda>i. \<not> bit val i) [0..<64]) else 64)"

definition clz64 :: "64 word \<Rightarrow> nat" where
  "clz64 val = (if val \<noteq> 0 then length (takeWhile (\<lambda>i. \<not> bit val (63 - i)) [0..<64]) else 64)"

text \<open>One halving step of the two scans: \<open>(n, val)\<close> is the count so far and the shifted value.\<close>

definition scan_step :: "bool \<Rightarrow> nat \<Rightarrow> nat \<times> 64 word \<Rightarrow> nat \<times> 64 word" where
  "scan_step c k s = (if c then (fst s + k, drop_bit k (snd s)) else s)"

definition findMsbSet :: "64 word \<Rightarrow> nat" where
  "findMsbSet val =
     (if val = 0 then 0 else
      let s = (0, val);
          s = scan_step (bits_of (snd s) 63 32 \<noteq> 0) 32 s;
          s = scan_step (bits_of (snd s) 31 16 \<noteq> 0) 16 s;
          s = scan_step (bits_of (snd s) 15 8 \<noteq> 0) 8 s;
          s = scan_step (bits_of (snd s) 7 4 \<noteq> 0) 4 s;
          s = scan_step (bits_of (snd s) 3 2 \<noteq> 0) 2 s
      in (if bits_of (snd s) 1 1 \<noteq> 0 then fst s + 1 else fst s))"

definition findLsbSetFallback :: "64 word \<Rightarrow> nat" where
  "findLsbSetFallback val =
     (if val = 0 then 64 else
      let s = (0, val);
          s = scan_step (bits_of (snd s) 31 0 = 0) 32 s;
          s = scan_step (bits_of (snd s) 15 0 = 0) 16 s;
          s = scan_step (bits_of (snd s) 7 0 = 0) 8 s;
          s = scan_step (bits_of (snd s) 3 0 = 0) 4 s;
          s = scan_step (bits_of (snd s) 1 0 = 0) 2 s
      in (if bits_of (snd s) 0 0 = 0 then fst s + 1 else fst s))"

definition findLsbSet :: "bool \<Rightarrow> 64 word \<Rightarrow> nat" where
  "findLsbSet has_builtin val =
     (if val = 0 then 64 else if has_builtin then ctz64 val else findLsbSetFallback val)"

definition alignToPowerOfTwo :: "64 word \<Rightarrow> 64 word" where
  "alignToPowerOfTwo val =
     (let v = val - 1;
          v = v OR drop_bit 1 v;
          v = v OR drop_bit 2 v;
          v = v OR drop_bit 4 v;
          v = v OR drop_bit 8 v;
          v = v OR drop_bit 16 v;
          v = v OR drop_bit 32 v
      in v + 1)"

section \<open>Integer mathematics\<close>

definition floorLog2 :: "64 word \<Rightarrow> nat res" where
  "floorLog2 x =
     ensure (x > 0) AssertFail
     (let s = (0, x);
          s = scan_step (snd s AND 0xffffffff00000000 \<noteq> 0) 32 s;
          s = scan_step (snd s AND 0x00000000ffff0000 \<noteq> 0) 16 s;
          s = scan_step (snd s AND 0x000000000000ff00 \<noteq> 0) 8 s;
          s = scan_step (snd s AND 0x00000000000000f0 \<noteq> 0) 4 s;
          s = scan_step (snd s AND 0x000000000000000c \<noteq> 0) 2 s
      in Inr (if snd s AND 0x2 \<noteq> 0 then fst s + 1 else fst s))"

definition ceilLog2 :: "64 word \<Rightarrow> nat res" where
  "ceilLog2 n =
     ensure (n > 0) AssertFail
     (if n = 1 then Inr 0 else rbind (floorLog2 (n - 1)) (\<lambda>y. Inr (y + 1)))"

definition isPowerOf2 :: "64 word \<Rightarrow> bool" where
  "isPowerOf2 n \<longleftrightarrow> n \<noteq> 0 \<and> n AND (n - 1) = 0"

definition divCeil :: "nat \<Rightarrow> nat \<Rightarrow> nat" where
  "divCeil a b = (a + b - 1) div b"

text \<open>The portable product: the pair is \<open>(high, low)\<close>.\<close>

definition mulUnsignedManual :: "64 word \<Rightarrow> 64 word \<Rightarrow> 64 word \<times> 64 word" where
  "mulUnsignedManual val_a val_b =
     (let low = val_a * val_b;
          A = drop_bit 32 val_a; a = take_bit 32 val_a;
          B = drop_bit 32 val_b; b = take_bit 32 val_b;
          ab = a * b; Ab = A * b; aB = a * B; AB = A * B;
          c1 = take_bit 32 (drop_bit 32 ab);
          c2 = drop_bit 1 c1 + drop_bit 1 Ab + drop_bit 1 aB;
          c2 = c2 + drop_bit 1 ((c1 AND 1) + (Ab AND 1) + (aB AND 1));
          c2 = drop_bit 31 c2
      in (AB + c2, low))"

definition mulSignedManual :: "64 word \<Rightarrow> 64 word \<Rightarrow> 64 word \<times> 64 word" where
  "mulSignedManual val_a val_b =
     (let (u_high, u_low) = mulUnsignedManual val_a val_b;
          u_high = (if sint val_a < 0 then u_high - val_b else u_high);
          u_high = (if sint val_b < 0 then u_high - val_a else u_high)
      in (u_high, u_low))"

definition roundUp :: "64 word \<Rightarrow> 64 word \<Rightarrow> 64 word res" where
  "roundUp val align =
     ensure (isPowerOf2 align) AssertFail
     (let m = align - 1 in Inr ((val + m) AND NOT m))"

definition roundDown :: "64 word \<Rightarrow> 64 word \<Rightarrow> 64 word res" where
  "roundDown val align =
     ensure (isPowerOf2 align) AssertFail
     (let m = align - 1 in Inr (val AND NOT m))"

section \<open>Bits of words\<close>

lemma mask_bits_eq: "mask_bits n = mask n"
proof (cases "64 \<le> n")
  case True
  then show ?thesis by (intro bit_word_eqI) (simp add: mask_bits_def bit_simps)
next
  case False
  then show ?thesis by (simp add: mask_bits_def mask_eq_exp_minus_1 push_bit_of_1)
qed

lemma bit64_less: "bit (w :: 64 word) i \<Longrightarrow> i < 64"
  by (drule bit_imp_le_length) simp

lemma bit_bits_of: "lst \<le> first \<Longrightarrow>
    bit (bits_of val first lst) i \<longleftrightarrow> i \<le> first - lst \<and> bit val (i + lst)"
  by (auto simp: bits_of_def mask_bits_eq bit_simps add.commute dest: bit_imp_le_length)

lemma bit_mask_range: "lst \<le> first \<Longrightarrow> first < 64 \<Longrightarrow>
    bit (mask_range first lst) i \<longleftrightarrow> lst \<le> i \<and> i \<le> first"
  by (auto simp: mask_range_def mbits_def mask_bits_eq bit_simps)

lemma mask_range_wrap: "mask_range (2 ^ 32 - 1) lst = 0"
  by (simp add: mask_range_def mbits_def mask_bits_eq)

lemma bit_insert_bits_of: "lst \<le> first \<Longrightarrow> first < 64 \<Longrightarrow>
    bit (insert_bits_of val first lst bv) i \<longleftrightarrow>
      i < 64 \<and> (if lst \<le> i \<and> i \<le> first then bit bv (i - lst) else bit val i)"
  by (auto simp: insert_bits_of_def Let_def bit_simps bit_mask_range dest: bit64_less)

lemma bit_insert_bit: "n < 64 \<Longrightarrow>
    bit (insert_bit val n bv) i \<longleftrightarrow> i < 64 \<and> (if i = n then bit bv 0 else bit val i)"
  by (auto simp: insert_bit_def bit_insert_bits_of)

lemma unat_drop_bit: "unat (drop_bit n (w :: 'a::len word)) = unat w div 2 ^ n"
  by (subst unat_drop_bit_eq) (rule drop_bit_eq_div)

lemma unat_take_bit: "unat (take_bit n (w :: 'a::len word)) = unat w mod 2 ^ n"
  by (subst unsigned_take_bit_eq) (rule take_bit_eq_mod)

lemma bit_iff_unat: "bit (w :: 'a::len word) n \<longleftrightarrow> odd (unat w div 2 ^ n)"
proof -
  have "bit w n \<longleftrightarrow> bit (unat w) n" by (simp add: bit_unsigned_iff bit_imp_le_length)
  then show ?thesis by (simp only: bit_iff_odd)
qed

lemma bit_imp_exp_le: "bit (w :: 'a::len word) n \<Longrightarrow> 2 ^ n \<le> unat w"
  by (metis bit_iff_unat div_less even_zero not_less)

lemma unat_lt_bitD: "unat (w :: 'a::len word) < 2 ^ n \<Longrightarrow> bit w i \<Longrightarrow> i < n"
proof (rule ccontr)
  assume "unat w < 2 ^ n" "bit w i" "\<not> i < n"
  then have "(2::nat) ^ n \<le> 2 ^ i" by simp
  with \<open>unat w < 2 ^ n\<close> bit_imp_exp_le [OF \<open>bit w i\<close>] show False by linarith
qed

lemma drop_bit_eq_0_iff: "drop_bit n (w :: 'a::len word) = 0 \<longleftrightarrow> unat w < 2 ^ n"
proof -
  have "drop_bit n w = 0 \<longleftrightarrow> unat w div 2 ^ n = 0" by (simp only: unat_drop_bit flip: unat_0_iff)
  then show ?thesis by (simp add: div_eq_0_iff)
qed

section \<open>Logarithms\<close>

text \<open>One halving step keeps the quotient \<open>unat x div 2 ^ y\<close> and halves the bound on its width.\<close>

definition log_inv :: "64 word \<Rightarrow> nat \<Rightarrow> nat \<times> 64 word \<Rightarrow> bool" where
  "log_inv x k s \<longleftrightarrow> unat (snd s) = unat x div 2 ^ fst s \<and> snd s \<noteq> 0 \<and> unat (snd s) < 2 ^ k"

lemma log_inv_step:
  assumes "log_inv x (2 * k) s" and "c \<longleftrightarrow> 2 ^ k \<le> unat (snd s)"
  shows "log_inv x k (scan_step c k s)"
proof (cases c)
  case True
  have "unat (snd s) div 2 ^ k < 2 ^ k"
    using assms(1) by (simp add: log_inv_def mult_2 power_add less_mult_imp_div_less)
  moreover have "unat (snd s) div 2 ^ k = unat x div 2 ^ (fst s + k)"
    using assms(1) by (simp add: log_inv_def power_add div_mult2_eq)
  moreover have "drop_bit k (snd s) \<noteq> 0"
    using True assms(2) by (simp add: drop_bit_eq_0_iff)
  ultimately show ?thesis
    using True by (simp add: log_inv_def scan_step_def unat_drop_bit)
next
  case False
  with assms show ?thesis by (auto simp: log_inv_def scan_step_def)
qed

lemma log_inv_start: "x \<noteq> 0 \<Longrightarrow> log_inv x 64 (0, x)"
  using unsigned_less [of x, where 'a = nat] by (simp add: log_inv_def)

lemma div_eq_1D: "(a::nat) div b = 1 \<Longrightarrow> b \<le> a \<and> a < 2 * b"
  by (metis div_by_0 div_less dividend_less_div_times mult.commute mult_1 neq0_conv not_less
      zero_neq_one mult_2)

lemma log_inv_end:
  assumes "log_inv x 2 s" and "c \<longleftrightarrow> 2 \<le> unat (snd s)"
    and "y = (if c then fst s + 1 else fst s)"
  shows "2 ^ y \<le> unat x \<and> unat x < 2 ^ (y + 1)"
proof -
  let ?s = "scan_step c 1 s"
  have "log_inv x 1 ?s"
    using assms by (intro log_inv_step) (simp_all add: numeral_2_eq_2)
  moreover have "fst ?s = y"
    using assms(3) by (simp add: scan_step_def)
  moreover have "unat (snd ?s) \<noteq> 0" if "snd ?s \<noteq> 0"
    using that by (simp add: unat_0_iff)
  ultimately have "unat x div 2 ^ y = 1"
    by (simp add: log_inv_def)
  then show ?thesis using div_eq_1D by fastforce
qed

lemma high_mask_test:
  assumes "unat (w :: 64 word) < 2 ^ (2 * k)" and "m = push_bit k (mask k)"
  shows "w AND m \<noteq> 0 \<longleftrightarrow> 2 ^ k \<le> unat w"
proof -
  have "w AND m = push_bit k (drop_bit k w)"
    using unat_lt_bitD [OF assms(1)]
    by (intro bit_word_eqI) (auto simp: bit_simps assms(2) less_diff_conv2 mult_2)
  moreover have "drop_bit k (push_bit k (drop_bit k w)) = drop_bit k w"
    by (intro bit_word_eqI) (auto simp: bit_simps dest: bit_imp_le_length)
  then have "push_bit k (drop_bit k w) = 0 \<longleftrightarrow> drop_bit k w = 0"
    by (metis drop_bit_of_0 push_bit_of_0)
  ultimately show ?thesis by (simp add: drop_bit_eq_0_iff not_less)
qed

lemma bits_of_high: "unat (w :: 64 word) < 2 ^ (2 * k) \<Longrightarrow> 0 < k \<Longrightarrow>
    bits_of w (2 * k - 1) k \<noteq> 0 \<longleftrightarrow> 2 ^ k \<le> unat w"
proof -
  assume w: "unat w < 2 ^ (2 * k)" and "0 < k"
  have "bits_of w (2 * k - 1) k = drop_bit k w"
    using unat_lt_bitD [OF w] \<open>0 < k\<close>
    by (intro bit_word_eqI) (fastforce simp: bit_bits_of bit_simps add.commute)
  then show ?thesis by (simp add: drop_bit_eq_0_iff not_less)
qed

lemma log_inv_bound: "log_inv x k s \<Longrightarrow> unat (snd s) < 2 ^ k"
  by (simp add: log_inv_def)

lemma log_inv_mask_step:
  assumes "log_inv x k2 s" and "k2 = 2 * k" and "m = push_bit k (mask k)"
  shows "log_inv x k (scan_step (snd s AND m \<noteq> 0) k s)"
  using assms by (intro log_inv_step) (auto simp: high_mask_test log_inv_bound)

lemma log_inv_bits_step:
  assumes "log_inv x k2 s" and "k2 = 2 * k" and "0 < k" and "hi = 2 * k - 1"
  shows "log_inv x k (scan_step (bits_of (snd s) hi k \<noteq> 0) k s)"
proof -
  have "bits_of (snd s) hi k \<noteq> 0 \<longleftrightarrow> 2 ^ k \<le> unat (snd s)"
    using bits_of_high [of "snd s" k] log_inv_bound [OF assms(1)] assms by simp
  with assms show ?thesis by (intro log_inv_step) auto
qed

text \<open>\<open>floorLog2\<close> stops on 0 and otherwise brackets its argument by powers of two.\<close>

lemma floorLog2_spec:
  assumes "x \<noteq> 0"
  shows "\<exists>y. floorLog2 x = Inr y \<and> 2 ^ y \<le> unat x \<and> unat x < 2 ^ (y + 1)"
proof -
  define s1 where "s1 = scan_step (x AND 0xffffffff00000000 \<noteq> 0) 32 (0, x)"
  define s2 where "s2 = scan_step (snd s1 AND 0x00000000ffff0000 \<noteq> 0) 16 s1"
  define s3 where "s3 = scan_step (snd s2 AND 0x000000000000ff00 \<noteq> 0) 8 s2"
  define s4 where "s4 = scan_step (snd s3 AND 0x00000000000000f0 \<noteq> 0) 4 s3"
  define s5 where "s5 = scan_step (snd s4 AND 0x000000000000000c \<noteq> 0) 2 s4"
  have "log_inv x 32 s1"
    unfolding s1_def using log_inv_mask_step [OF log_inv_start [OF assms], of 32] 
    by (simp add: mask_eq_exp_minus_1)
  then have "log_inv x 16 s2"
    unfolding s2_def by (rule log_inv_mask_step) (simp_all add: mask_eq_exp_minus_1)
  then have "log_inv x 8 s3"
    unfolding s3_def by (rule log_inv_mask_step) (simp_all add: mask_eq_exp_minus_1)
  then have "log_inv x 4 s4"
    unfolding s4_def by (rule log_inv_mask_step) (simp_all add: mask_eq_exp_minus_1)
  then have s5: "log_inv x 2 s5"
    unfolding s5_def by (rule log_inv_mask_step) (simp_all add: mask_eq_exp_minus_1)
  have "snd s5 AND 0x2 \<noteq> 0 \<longleftrightarrow> 2 ^ 1 \<le> unat (snd s5)"
    using log_inv_bound [OF s5] by (intro high_mask_test) (simp_all add: mask_eq_exp_minus_1)
  then have "2 ^ y \<le> unat x \<and> unat x < 2 ^ (y + 1)"
    if "y = (if snd s5 AND 0x2 \<noteq> 0 then fst s5 + 1 else fst s5)" for y
    using log_inv_end [OF s5 _ that] by simp
  moreover have "floorLog2 x = Inr (if snd s5 AND 0x2 \<noteq> 0 then fst s5 + 1 else fst s5)"
    using assms by (simp add: floorLog2_def Let_def s1_def s2_def s3_def s4_def s5_def word_neq_0_conv)
  ultimately show ?thesis by blast
qed

lemma floorLog2_0: "floorLog2 0 = Inl AssertFail"
  by (simp add: floorLog2_def)

lemma log2_unique:
  "2 ^ y \<le> (n::nat) \<Longrightarrow> n < 2 ^ (y + 1) \<Longrightarrow> 2 ^ z \<le> n \<Longrightarrow> n < 2 ^ (z + 1) \<Longrightarrow> y = z"
proof -
  assume a: "2 ^ y \<le> n" "n < 2 ^ (y + 1)" "2 ^ z \<le> n" "n < 2 ^ (z + 1)"
  then have "(2::nat) ^ y < 2 ^ (z + 1)" and "(2::nat) ^ z < 2 ^ (y + 1)" by linarith+
  then have "y < z + 1" and "z < y + 1" by (simp_all only: power_strict_increasing_iff)
  then show "y = z" by simp
qed

lemma findMsbSet_spec:
  assumes "x \<noteq> 0"
  shows "2 ^ findMsbSet x \<le> unat x \<and> unat x < 2 ^ (findMsbSet x + 1)"
proof -
  define s1 where "s1 = scan_step (bits_of (snd (0::nat, x)) 63 32 \<noteq> 0) 32 (0, x)"
  define s2 where "s2 = scan_step (bits_of (snd s1) 31 16 \<noteq> 0) 16 s1"
  define s3 where "s3 = scan_step (bits_of (snd s2) 15 8 \<noteq> 0) 8 s2"
  define s4 where "s4 = scan_step (bits_of (snd s3) 7 4 \<noteq> 0) 4 s3"
  define s5 where "s5 = scan_step (bits_of (snd s4) 3 2 \<noteq> 0) 2 s4"
  have "log_inv x 32 s1"
    unfolding s1_def by (rule log_inv_bits_step [OF log_inv_start [OF assms]]) simp_all
  then have "log_inv x 16 s2"
    unfolding s2_def by (rule log_inv_bits_step) simp_all
  then have "log_inv x 8 s3"
    unfolding s3_def by (rule log_inv_bits_step) simp_all
  then have "log_inv x 4 s4"
    unfolding s4_def by (rule log_inv_bits_step) simp_all
  then have s5: "log_inv x 2 s5"
    unfolding s5_def by (rule log_inv_bits_step) simp_all
  have "bits_of (snd s5) 1 1 \<noteq> 0 \<longleftrightarrow> 2 \<le> unat (snd s5)"
    using log_inv_bound [OF s5] bits_of_high [of "snd s5" 1] by simp
  then have "2 ^ y \<le> unat x \<and> unat x < 2 ^ (y + 1)"
    if "y = (if bits_of (snd s5) 1 1 \<noteq> 0 then fst s5 + 1 else fst s5)" for y
    using log_inv_end [OF s5 _ that] by simp
  moreover have "findMsbSet x = (if bits_of (snd s5) 1 1 \<noteq> 0 then fst s5 + 1 else fst s5)"
    using assms by (simp add: findMsbSet_def Let_def s1_def s2_def s3_def s4_def s5_def)
  ultimately show ?thesis by blast
qed

lemma floorLog2_findMsbSet: "x \<noteq> 0 \<Longrightarrow> floorLog2 x = Inr (findMsbSet x)"
  using floorLog2_spec findMsbSet_spec log2_unique by blast

lemma findMsbSet_less: "findMsbSet x < 64"
proof (cases "x = 0")
  case True
  then show ?thesis by (simp add: findMsbSet_def)
next
  case False
  have "(2::nat) ^ findMsbSet x < 2 ^ 64"
    using findMsbSet_spec [OF False] unsigned_less [of x, where 'a = nat] by (simp add: order_le_less_trans)
  then show ?thesis by (simp only: power_strict_increasing_iff one_less_numeral_iff semiring_norm)
qed

lemma bit_findMsbSet: "x \<noteq> 0 \<Longrightarrow> bit x (findMsbSet x)"
proof -
  assume "x \<noteq> 0"
  then have "unat x div 2 ^ findMsbSet x = 1"
    using findMsbSet_spec [of x] by (intro div_nat_eqI) simp_all
  then show ?thesis by (simp add: bit_iff_unat)
qed

section \<open>Powers of two and alignment\<close>

lemma unat_exp: "k < 64 \<Longrightarrow> unat (2 ^ k :: 64 word) = 2 ^ k"
proof -
  assume "k < 64"
  then have "(2::nat) ^ k < 2 ^ 64" by (intro power_strict_increasing) simp_all
  moreover have "unat (2 ^ k :: 64 word) = 2 ^ k mod 2 ^ 64"
    using unat_of_nat [of "2 ^ k", where 'a = 64] by simp
  ultimately show ?thesis by simp
qed

lemma isPowerOf2_exp: "k < 64 \<Longrightarrow> isPowerOf2 (2 ^ k)"
proof -
  assume "k < 64"
  have "(2::64 word) ^ k AND (2 ^ k - 1) = 0"
    by (rule bit_word_eqI) (auto simp: bit_simps simp flip: mask_eq_exp_minus_1)
  with \<open>k < 64\<close> show ?thesis by (simp add: isPowerOf2_def)
qed

lemma isPowerOf2_iff: "isPowerOf2 n \<longleftrightarrow> (\<exists>k<64. n = 2 ^ k)"
proof
  assume p: "isPowerOf2 n"
  let ?k = "findMsbSet n"
  have n: "n \<noteq> 0" and a: "n AND (n - 1) = 0" using p by (auto simp: isPowerOf2_def)
  have b: "2 ^ ?k \<le> unat n" "unat n < 2 ^ (?k + 1)" using findMsbSet_spec [OF n] by auto
  have "unat n = 2 ^ ?k"
  proof (rule ccontr)
    assume "unat n \<noteq> 2 ^ ?k"
    moreover have "unat (n - 1) = unat n - 1" using n by (simp add: unat_minus_one)
    ultimately have "unat (n - 1) div 2 ^ ?k = 1" using b by (intro div_nat_eqI) auto
    then have "bit (n - 1) ?k" by (simp add: bit_iff_unat)
    then have "bit (n AND (n - 1)) ?k" using bit_findMsbSet [OF n] by (simp add: bit_simps)
    with a show False by simp
  qed
  then have "n = 2 ^ ?k"
    using findMsbSet_less [of n] by (simp add: word_unat_eq_iff unat_exp)
  then show "\<exists>k<64. n = 2 ^ k" using findMsbSet_less by blast
qed (auto intro: isPowerOf2_exp)

lemma unat_and_not_mask: "unat (w AND NOT (mask k :: 64 word)) = unat w div 2 ^ k * 2 ^ k"
proof (cases "k < 64")
  case True
  have "w AND NOT (mask k) = push_bit k (drop_bit k w)"
    by (rule bit_word_eqI) (auto simp: bit_simps)
  also have "\<dots> = 2 ^ k * drop_bit k w"
    by (simp add: push_bit_eq_mult mult.commute)
  finally have "unat (w AND NOT (mask k)) = 2 ^ k * (unat w div 2 ^ k) mod 2 ^ 64"
    using True by (simp add: unat_word_ariths(2) unat_exp unat_drop_bit)
  moreover have "2 ^ k * (unat w div 2 ^ k) < 2 ^ 64"
    using unsigned_less [of w, where 'a = nat]
    by (intro order_le_less_trans [OF times_div_less_eq_dividend]) simp
  ultimately show ?thesis by (simp add: mult.commute)
next
  case False
  then have "w AND NOT (mask k) = 0"
    by (intro bit_word_eqI) (auto simp: bit_simps)
  moreover have "unat w < 2 ^ k"
    using unsigned_less [of w, where 'a = nat] False power_increasing [of 64 k "2::nat"] by simp
  ultimately show ?thesis by simp
qed

lemma roundDown_spec:
  assumes "k < 64"
  shows "\<exists>r. roundDown val (2 ^ k) = Inr r \<and> unat r = unat val div 2 ^ k * 2 ^ k"
  using assms isPowerOf2_exp [OF assms] unat_and_not_mask [of val k]
  by (simp add: roundDown_def Let_def mask_eq_exp_minus_1)

lemma roundUp_spec:
  assumes "k < 64" and "unat val + 2 ^ k \<le> 2 ^ 64"
  shows "\<exists>r. roundUp val (2 ^ k) = Inr r \<and> unat r = (unat val + 2 ^ k - 1) div 2 ^ k * 2 ^ k"
proof -
  have "unat (val + (2 ^ k - 1)) = unat val + (2 ^ k - 1)"
    using assms by (subst unat_plus_if') (simp add: unat_sub_if' unat_exp)
  then show ?thesis
    using assms isPowerOf2_exp [OF assms(1)] unat_and_not_mask [of "val + (2 ^ k - 1)" k]
    by (simp add: roundUp_def Let_def mask_eq_exp_minus_1)
qed

lemma ceilLog2_spec:
  assumes "n \<noteq> 0"
  shows "\<exists>y. ceilLog2 n = Inr y \<and> unat n \<le> 2 ^ y \<and> (y = 0 \<or> 2 ^ (y - 1) < unat n)"
proof (cases "n = 1")
  case True
  then show ?thesis by (simp add: ceilLog2_def word_neq_0_conv)
next
  case False
  with assms have m: "n - 1 \<noteq> 0" by simp
  then obtain y where y: "floorLog2 (n - 1) = Inr y" "2 ^ y \<le> unat (n - 1)" "unat (n - 1) < 2 ^ (y + 1)"
    using floorLog2_spec by blast
  have "unat (n - 1) = unat n - 1" using assms by (simp add: unat_minus_one)
  moreover have "unat n \<noteq> 0" using assms by (simp add: unat_0_iff)
  ultimately have "unat n \<le> 2 ^ (y + 1)" and "2 ^ y < unat n" using y by linarith+
  moreover have "ceilLog2 n = Inr (y + 1)"
    using False y(1) assms by (simp add: ceilLog2_def word_neq_0_conv)
  ultimately show ?thesis by auto
qed

text \<open>
  C16: on a nonzero argument the logarithms return and bracket it by powers of two. The highest
  set bit found by the scan is the rounded-down logarithm, and the rounded-up logarithm is the
  least exponent whose power reaches the argument.
\<close>

theorem logarithms_bracket:
  assumes "n \<noteq> 0"
  shows "floorLog2 n = Inr (findMsbSet n)
    \<and> 2 ^ findMsbSet n \<le> unat n \<and> unat n < 2 ^ (findMsbSet n + 1)
    \<and> (\<exists>y. ceilLog2 n = Inr y \<and> unat n \<le> 2 ^ y \<and> (\<forall>z<y. 2 ^ z < unat n))"
proof -
  have fl: "floorLog2 n = Inr (findMsbSet n)" using assms by (rule floorLog2_findMsbSet)
  then have "2 ^ findMsbSet n \<le> unat n \<and> unat n < 2 ^ (findMsbSet n + 1)"
    using floorLog2_spec [OF assms] by auto
  moreover obtain y where y: "ceilLog2 n = Inr y" "unat n \<le> 2 ^ y" "y = 0 \<or> 2 ^ (y - 1) < unat n"
    using ceilLog2_spec [OF assms] by blast
  moreover have "2 ^ z < unat n" if "z < y" for z
  proof -
    have "(2::nat) ^ z \<le> 2 ^ (y - 1)" using that by (intro power_increasing) auto
    also have "\<dots> < unat n" using y(3) that by simp
    finally show ?thesis .
  qed
  ultimately show ?thesis using fl by blast
qed

theorem logarithms_bracket_witness:
  "floorLog2 12 = Inr (findMsbSet 12) \<and> 2 ^ findMsbSet 12 \<le> unat (12 :: 64 word)"
  using logarithms_bracket [of 12] by simp

section \<open>The lowest set bit\<close>

lemma ctz64_spec: "val \<noteq> 0 \<Longrightarrow> bit val (ctz64 val) \<and> (\<forall>i<ctz64 val. \<not> bit val i)"
proof -
  assume v: "val \<noteq> 0"
  let ?xs = "takeWhile (\<lambda>i. \<not> bit val i) [0..<64]"
  obtain b where b: "bit val b" using v by (auto simp: bit_eq_iff)
  then have "b < 64" using bit_imp_le_length [OF b] by simp
  have len: "length ?xs < 64"
  proof (rule ccontr)
    assume "\<not> length ?xs < 64"
    then have "length ?xs = length [0..<64]"
      using length_takeWhile_le [of "\<lambda>i. \<not> bit val i" "[0..<64]"] by simp
    then have "?xs = [0..<64]" by (metis takeWhile_eq_take take_all order_refl)
    then show False using b \<open>b < 64\<close> by auto
  qed
  have "\<not> \<not> bit val ([0..<64] ! length ?xs)"
    using len by (intro nth_length_takeWhile) simp
  then have "bit val (length ?xs)" using len by simp
  moreover have "\<not> bit val i" if "i < length ?xs" for i
  proof -
    have "?xs ! i \<in> set ?xs" using that by simp
    moreover have "?xs ! i = i" using that len by (simp add: takeWhile_nth)
    ultimately show ?thesis by (auto dest: set_takeWhileD)
  qed
  ultimately show ?thesis using v by (simp add: ctz64_def)
qed

lemma ctz64_unique: "bit val n \<Longrightarrow> (\<And>i. i < n \<Longrightarrow> \<not> bit val i) \<Longrightarrow> ctz64 val = n"
  using ctz64_spec [of val] by (metis bit_0_eq bot_apply bot_bool_def linorder_neqE_nat)

lemma ctz64_less: "val \<noteq> 0 \<Longrightarrow> ctz64 val < 64"
  using ctz64_spec [of val] bit_imp_le_length [of val "ctz64 val"] by simp

text \<open>What each halving step of the fall-back scan maintains: the bits below the count are zero,
  the rest is the shifted value, and a set bit remains in its low \<open>k\<close> bits.\<close>

definition lsb_inv :: "64 word \<Rightarrow> nat \<Rightarrow> nat \<times> 64 word \<Rightarrow> bool" where
  "lsb_inv x k s \<longleftrightarrow> snd s = drop_bit (fst s) x \<and> (\<forall>i<fst s. \<not> bit x i) \<and> (\<exists>i<k. bit (snd s) i)"

lemma lsb_inv_step:
  assumes "lsb_inv x k2 s" and "k2 = 2 * k" and "0 < k" and "hi = k - 1"
  shows "lsb_inv x k (scan_step (bits_of (snd s) hi 0 = 0) k s)"
proof -
  have low: "bits_of (snd s) hi 0 = 0 \<longleftrightarrow> (\<forall>i<k. \<not> bit (snd s) i)"
  proof -
    have "bit (bits_of (snd s) hi 0) i \<longleftrightarrow> i < k \<and> bit (snd s) i" for i
      using assms(3,4) by (auto simp: bit_bits_of)
    then show ?thesis by (auto simp: bit_eq_iff dest: bit64_less)
  qed
  show ?thesis
  proof (cases "bits_of (snd s) hi 0 = 0")
    case True
    with low assms obtain j where j: "j < 2 * k" "bit (snd s) j" "k \<le> j"
      unfolding lsb_inv_def by (meson not_less)
    have "\<not> bit x i" if "i < fst s + k" for i
    proof (cases "i < fst s")
      case False
      then have "\<not> bit (snd s) (i - fst s)" using low True that by simp
      with False assms(1) show ?thesis by (simp add: lsb_inv_def bit_simps)
    qed (use assms(1) in \<open>simp add: lsb_inv_def\<close>)
    moreover have "bit (drop_bit k (snd s)) (j - k)" and "j - k < k"
      using j by (simp_all add: bit_simps)
    ultimately show ?thesis
      using True assms(1) unfolding lsb_inv_def scan_step_def
      by (auto simp: drop_bit_drop_bit add.commute)
  next
    case False
    with low assms show ?thesis by (auto simp: lsb_inv_def scan_step_def)
  qed
qed

lemma findLsbSetFallback_eq: "findLsbSetFallback x = ctz64 x"
proof (cases "x = 0")
  case True
  then show ?thesis by (simp add: findLsbSetFallback_def ctz64_def)
next
  case False
  define s1 where "s1 = scan_step (bits_of (snd (0::nat, x)) 31 0 = 0) 32 (0, x)"
  define s2 where "s2 = scan_step (bits_of (snd s1) 15 0 = 0) 16 s1"
  define s3 where "s3 = scan_step (bits_of (snd s2) 7 0 = 0) 8 s2"
  define s4 where "s4 = scan_step (bits_of (snd s3) 3 0 = 0) 4 s3"
  define s5 where "s5 = scan_step (bits_of (snd s4) 1 0 = 0) 2 s4"
  define s6 where "s6 = scan_step (bits_of (snd s5) 0 0 = 0) 1 s5"
  have "lsb_inv x 64 (0, x)"
    using False by (auto simp: lsb_inv_def bit_eq_iff dest: bit_imp_le_length)
  then have "lsb_inv x 32 s1"
    unfolding s1_def by (rule lsb_inv_step) simp_all
  then have "lsb_inv x 16 s2"
    unfolding s2_def by (rule lsb_inv_step) simp_all
  then have "lsb_inv x 8 s3"
    unfolding s3_def by (rule lsb_inv_step) simp_all
  then have "lsb_inv x 4 s4"
    unfolding s4_def by (rule lsb_inv_step) simp_all
  then have "lsb_inv x 2 s5"
    unfolding s5_def by (rule lsb_inv_step) simp_all
  then have "lsb_inv x 1 s6"
    unfolding s6_def by (rule lsb_inv_step) simp_all
  then have "ctz64 x = fst s6"
    by (intro ctz64_unique) (auto simp: lsb_inv_def bit_simps)
  moreover have "findLsbSetFallback x = (if bits_of (snd s5) 0 0 = 0 then fst s5 + 1 else fst s5)"
    using False by (simp add: findLsbSetFallback_def Let_def s1_def s2_def s3_def s4_def s5_def)
  moreover have "fst s6 = (if bits_of (snd s5) 0 0 = 0 then fst s5 + 1 else fst s5)"
    by (simp add: s6_def scan_step_def)
  ultimately show ?thesis by simp
qed

section \<open>The portable 64x64-bit product\<close>

lemma carry_halves: "((x::nat) div 2 + y div 2 + z div 2 + (x mod 2 + y mod 2 + z mod 2) div 2) = (x + y + z) div 2"
proof -
  have "x + y + z = x mod 2 + y mod 2 + z mod 2 + 2 * (x div 2 + y div 2 + z div 2)"
    using div_mult_mod_eq [of x 2] div_mult_mod_eq [of y 2] div_mult_mod_eq [of z 2]
    by (simp only: distrib_left)
  also have "\<dots> div 2 = x div 2 + y div 2 + z div 2 + (x mod 2 + y mod 2 + z mod 2) div 2"
    by (subst div_mult_self2) simp_all
  finally show ?thesis by (rule sym)
qed

lemma mul_le: "(a::nat) < 2 ^ 32 \<Longrightarrow> b < 2 ^ 32 \<Longrightarrow> a * b \<le> (2 ^ 32 - 1) * (2 ^ 32 - 1)"
  by (intro mult_le_mono) linarith+

lemma schoolbook_nat:
  fixes A a B b :: nat
  shows "(A * 2 ^ 32 + a) * (B * 2 ^ 32 + b) div 2 ^ 64
    = A * B + (a * b div 2 ^ 32 + A * b + a * B) div 2 ^ 32"
proof -
  have "(A * 2 ^ 32 + a) * (B * 2 ^ 32 + b)
      = (A * B * 2 ^ 32 + (A * b + a * B)) * 2 ^ 32 + a * b"
    by (simp add: algebra_simps)
  moreover have "\<dots> div 2 ^ 32 = A * B * 2 ^ 32 + (A * b + a * B) + a * b div 2 ^ 32"
    by (subst div_mult_self3) simp_all
  moreover have "(2::nat) ^ 64 = 2 ^ 32 * 2 ^ 32" by simp
  ultimately have "(A * 2 ^ 32 + a) * (B * 2 ^ 32 + b) div 2 ^ 64
      = (A * B * 2 ^ 32 + (A * b + a * B) + a * b div 2 ^ 32) div 2 ^ 32"
    by (simp only: div_mult2_eq)
  also have "\<dots> = (A * B * 2 ^ 32 + (a * b div 2 ^ 32 + A * b + a * B)) div 2 ^ 32"
    by (simp add: ac_simps)
  also have "\<dots> = A * B + (a * b div 2 ^ 32 + A * b + a * B) div 2 ^ 32"
    by (subst div_mult_self3) simp_all
  finally show ?thesis .
qed

lemma unat_mult_small: "unat (x :: 64 word) < 2 ^ 32 \<Longrightarrow> unat y < 2 ^ 32 \<Longrightarrow> unat (x * y) = unat x * unat y"
proof -
  assume "unat x < 2 ^ 32" "unat y < 2 ^ 32"
  then have "unat x * unat y < 2 ^ 64" using mul_le by fastforce
  then show ?thesis by (simp add: unat_word_ariths(2))
qed

lemma unat_and_1: "unat (x AND (1 :: 64 word)) = unat x mod 2"
  by (simp add: and_one_eq unat_mod)

lemma unat_add_small: "unat (x :: 64 word) + unat y < 2 ^ 64 \<Longrightarrow> unat (x + y) = unat x + unat y"
  by (simp add: unat_plus_if')

lemma sum_bound: "(p::nat) + q + r + t < n \<Longrightarrow> p + q < n" "p + q + r + t < n \<Longrightarrow> p + q + r < n"
  by linarith+

text \<open>
  C15: the portable product of \<^verbatim>\<open>mulUnsignedManual\<close> is exact: the high and the low word together
  are the 128-bit product of the arguments, carries between the four partial products included.
\<close>

theorem mulUnsignedManual_spec:
  "unat (fst (mulUnsignedManual x y)) * 2 ^ 64 + unat (snd (mulUnsignedManual x y)) = unat x * unat y"
proof -
  define A a B b where defs: "A = drop_bit 32 x" "a = take_bit 32 x" "B = drop_bit 32 y" "b = take_bit 32 y"
  define c1 where "c1 = take_bit 32 (drop_bit 32 (a * b))"
  define c2 where "c2 = drop_bit 1 c1 + drop_bit 1 (A * b) + drop_bit 1 (a * B)
     + drop_bit 1 ((c1 AND 1) + (A * b AND 1) + (a * B AND 1))"
  have lt: "unat A < 2 ^ 32" "unat a < 2 ^ 32" "unat B < 2 ^ 32" "unat b < 2 ^ 32"
    using unsigned_less [of x, where 'a = nat] unsigned_less [of y, where 'a = nat]
    by (simp_all add: defs unat_drop_bit unat_take_bit less_mult_imp_div_less)
  have ab: "unat (a * b) = unat a * unat b" and Ab: "unat (A * b) = unat A * unat b"
    and aB: "unat (a * B) = unat a * unat B" and AB: "unat (A * B) = unat A * unat B"
    using lt by (simp_all only: unat_mult_small)
  have le: "unat a * unat b \<le> (2 ^ 32 - 1) * (2 ^ 32 - 1)" "unat A * unat b \<le> (2 ^ 32 - 1) * (2 ^ 32 - 1)"
    "unat a * unat B \<le> (2 ^ 32 - 1) * (2 ^ 32 - 1)" "unat A * unat B \<le> (2 ^ 32 - 1) * (2 ^ 32 - 1)"
    using lt by (simp_all only: mul_le)
  let ?s = "unat a * unat b div 2 ^ 32 + unat A * unat b + unat a * unat B"
  have c1: "unat c1 = unat a * unat b div 2 ^ 32"
    using le(1) by (simp add: c1_def unat_drop_bit unat_take_bit ab)
  have c1': "unat c1 < 2 ^ 32" by (simp add: c1_def unat_take_bit)
  have sum: "unat c1 + unat (A * b) + unat (a * B) < 2 ^ 64 * 2"
    using c1' le by (simp add: Ab aB)
  have bound: "unat c1 div 2 + unat (A * b) div 2 + unat (a * B) div 2
      + (unat c1 mod 2 + unat (A * b) mod 2 + unat (a * B) mod 2) div 2 < 2 ^ 64"
    unfolding carry_halves by (rule less_mult_imp_div_less [OF sum])
  note part = sum_bound [OF bound]
  have s1: "unat (drop_bit 1 c1 + drop_bit 1 (A * b)) = unat c1 div 2 + unat (A * b) div 2"
    using part(1) by (subst unat_add_small) (simp_all only: unat_drop_bit power_one_right)
  have s2: "unat (drop_bit 1 c1 + drop_bit 1 (A * b) + drop_bit 1 (a * B))
      = unat c1 div 2 + unat (A * b) div 2 + unat (a * B) div 2"
    using part(2) by (subst unat_add_small) (simp_all only: s1 unat_drop_bit power_one_right)
  have s3: "unat ((c1 AND 1) + (A * b AND 1)) = unat c1 mod 2 + unat (A * b) mod 2"
    by (subst unat_add_small) (simp_all add: unat_and_1)
  have s4: "unat ((c1 AND 1) + (A * b AND 1) + (a * B AND 1))
      = unat c1 mod 2 + unat (A * b) mod 2 + unat (a * B) mod 2"
    by (subst unat_add_small) (simp_all add: unat_and_1 s3)
  have "unat c2 = unat c1 div 2 + unat (A * b) div 2 + unat (a * B) div 2
      + (unat c1 mod 2 + unat (A * b) mod 2 + unat (a * B) mod 2) div 2"
    unfolding c2_def using bound
    by (subst unat_add_small) (simp_all only: s2 s4 unat_drop_bit power_one_right)
  then have c2: "unat c2 = ?s div 2" by (simp only: carry_halves c1 Ab aB)
  have x: "unat x = unat A * 2 ^ 32 + unat a" and y: "unat y = unat B * 2 ^ 32 + unat b"
    by (simp_all add: defs unat_drop_bit unat_take_bit)
  have prod: "unat A * unat B + ?s div 2 ^ 32 = unat x * unat y div 2 ^ 64"
    by (simp only: x y schoolbook_nat)
  have "unat x * unat y < 2 ^ 64 * 2 ^ 64"
    using unsigned_less [of x, where 'a = nat] unsigned_less [of y, where 'a = nat]
    by (intro mult_strict_mono) simp_all
  then have lt64: "unat x * unat y div 2 ^ 64 < 2 ^ 64" by (rule less_mult_imp_div_less)
  have c2': "unat (drop_bit 31 c2) = ?s div 2 ^ 32"
    by (simp add: unat_drop_bit c2 div_mult2_eq [symmetric])
  have "unat (A * B + drop_bit 31 c2) = unat x * unat y div 2 ^ 64"
    using lt64 prod by (subst unat_add_small) (simp_all only: AB c2')
  moreover have "unat (x * y) = unat x * unat y mod 2 ^ 64"
    by (simp add: unat_word_ariths(2))
  moreover have "mulUnsignedManual x y = (A * B + drop_bit 31 c2, x * y)"
    by (simp add: mulUnsignedManual_def Let_def defs c1_def c2_def)
  ultimately show ?thesis by simp
qed

end
