(* ===== verification/Addr_Range.thy ===== *)
theory Addr_Range
  imports Bit_Utils
begin

text \<open>
  The class \<^verbatim>\<open>AddrRange\<close> of \<^verbatim>\<open>base/addr_range.hh\<close>: half-open address ranges, optionally
  interleaved by XOR selector masks. The theory has the constructors, the observers, the
  tests between ranges, the removal and insertion of the interleaving bits, the exclusion of a
  list of ranges and the free operators. It shows that the interleaving bits can be put back,
  that exclusion computes the set difference, that the subset test is right and that merging
  the stripes of an interleaved range gives their union.
\<close>

unbundle bit_operations_syntax

section \<open>The range and its constructors\<close>

record AddrRange =
  start_of :: Addr
  end_of :: Addr
  masks :: "Addr list"
  intlvMatch :: "8 word"

type_synonym AddrRangeList = "AddrRange list"

definition MaxAddr :: Addr where
  "MaxAddr = - 1"

definition emptyRange :: AddrRange where
  "emptyRange = \<lparr>start_of = 1, end_of = 0, masks = [], intlvMatch = 0\<rparr>"

definition mkRange :: "Addr \<Rightarrow> Addr \<Rightarrow> AddrRange" where
  "mkRange s e = \<lparr>start_of = s, end_of = e, masks = [], intlvMatch = 0\<rparr>"

definition maskedRange :: "Addr \<Rightarrow> Addr \<Rightarrow> Addr list \<Rightarrow> 8 word \<Rightarrow> AddrRange res" where
  "maskedRange s e ms m =
     ensure (\<not> (ms \<noteq> [] \<and> 2 ^ length ms \<le> unat m)) Fatal
       (Inr \<lparr>start_of = s, end_of = e, masks = ms, intlvMatch = m\<rparr>)"

text \<open>The legacy constructor. Bit numbers are \<^verbatim>\<open>uint8_t\<close>; the loop fills \<open>masks\<close> from its last
  element down, so the list below runs through the loop counter in reverse.\<close>

definition legacyMask :: "8 word \<Rightarrow> 8 word \<Rightarrow> nat \<Rightarrow> Addr" where
  "legacyMask intlv_high xor_high i =
     (let mask = push_bit (unat (intlv_high - of_nat i)) 1
      in if xor_high \<noteq> 0 then mask OR push_bit (unat (xor_high - of_nat i)) 1 else mask)"

definition legacyRange ::
  "Addr \<Rightarrow> Addr \<Rightarrow> 8 word \<Rightarrow> 8 word \<Rightarrow> 8 word \<Rightarrow> 8 word \<Rightarrow> AddrRange res" where
  "legacyRange s e intlv_high xor_high intlv_bits m =
     ensure (\<not> (intlv_bits \<noteq> 0 \<and> 2 ^ unat intlv_bits \<le> unat m)) Fatal
     (ensure (\<not> (intlv_bits \<noteq> 0 \<and> xor_high \<noteq> 0 \<and>
         (xor_high = intlv_high
          \<or> xor_high > intlv_high \<and> unat xor_high - unat intlv_high < unat intlv_bits
          \<or> xor_high < intlv_high \<and> unat intlv_high - unat xor_high < unat intlv_bits))) Fatal
       (Inr \<lparr>start_of = s, end_of = e,
             masks = map (legacyMask intlv_high xor_high) (rev [0..<unat intlv_bits]),
             intlvMatch = m\<rparr>))"

section \<open>Observers\<close>

definition interleaved :: "AddrRange \<Rightarrow> bool" where
  "interleaved r \<longleftrightarrow> length (masks r) > 0"

definition range_size :: "AddrRange \<Rightarrow> Addr" where
  "range_size r = drop_bit (length (masks r)) (end_of r - start_of r)"

text \<open>The accumulator of \<^verbatim>\<open>granularity\<close> is deduced as \<^verbatim>\<open>int\<close>: each mask is truncated to 32 bits and
  the result is sign-extended for \<^verbatim>\<open>ctz64\<close>.\<close>

definition combined_mask :: "Addr list \<Rightarrow> 32 word" where
  "combined_mask ms = fold (\<lambda>m c. ucast ((scast c :: Addr) OR m)) ms 0"

definition granularity :: "AddrRange \<Rightarrow> 64 word" where
  "granularity r =
     (if interleaved r then push_bit (ctz64 (scast (combined_mask (masks r)))) 1
      else range_size r)"

definition stripes :: "AddrRange \<Rightarrow> 32 word" where
  "stripes r = ucast (push_bit (length (masks r)) (1 :: 64 word))"

definition valid :: "AddrRange \<Rightarrow> bool" where
  "valid r \<longleftrightarrow> start_of r \<le> end_of r"

definition mergesWith :: "AddrRange \<Rightarrow> AddrRange \<Rightarrow> bool" where
  "mergesWith r' r \<longleftrightarrow>
     start_of r = start_of r' \<and> end_of r = end_of r' \<and> masks r = masks r'"

text \<open>The selector loop of \<^verbatim>\<open>contains\<close>; \<open>sel\<close> is an \<^verbatim>\<open>int\<close> there, which holds the value for up to
  31 masks (the match value has 8 bits).\<close>

fun sel_loop :: "Addr \<Rightarrow> Addr list \<Rightarrow> nat \<Rightarrow> nat \<Rightarrow> nat" where
  "sel_loop a [] i sel = sel"
| "sel_loop a (m # ms) i sel =
     sel_loop a ms (Suc i) (sel OR push_bit i (popCount (a AND m) mod 2))"

definition contains :: "AddrRange \<Rightarrow> Addr \<Rightarrow> bool" where
  "contains r a =
     (if start_of r \<le> a \<and> a < end_of r then sel_loop a (masks r) 0 0 = unat (intlvMatch r)
      else False)"

section \<open>Tests between ranges\<close>

definition intersects :: "AddrRange \<Rightarrow> AddrRange \<Rightarrow> bool res" where
  "intersects r' r =
     (if start_of r' \<ge> end_of r \<or> end_of r' \<le> start_of r then Inr False
      else if \<not> interleaved r' \<and> \<not> interleaved r then Inr True
      else if range_size r = 1 then Inr (contains r' (start_of r))
      else if mergesWith r' r then Inr (intlvMatch r' = intlvMatch r)
      else Inl Panic)"

definition isSubset :: "AddrRange \<Rightarrow> AddrRange \<Rightarrow> bool res" where
  "isSubset r' r =
     (if interleaved r' then Inl Panic
      else if interleaved r then
        Inr (contains r (start_of r') \<and> contains r (end_of r' - 1) \<and> range_size r' \<le> granularity r)
      else if end_of r' \<le> start_of r' then Inr (start_of r' \<ge> start_of r \<and> end_of r = 0)
      else if end_of r \<le> start_of r then Inr (start_of r' \<ge> start_of r)
      else Inr (start_of r' \<ge> start_of r \<and> end_of r' \<le> end_of r))"

definition range_less :: "AddrRange \<Rightarrow> AddrRange \<Rightarrow> bool" where
  "range_less r' r =
     (if start_of r' \<noteq> start_of r then start_of r' < start_of r
      else if interleaved r' \<and> interleaved r then intlvMatch r' < intlvMatch r
      else interleaved r')"

definition range_eq :: "AddrRange \<Rightarrow> AddrRange \<Rightarrow> bool" where
  "range_eq r' r =
     (if start_of r' \<noteq> start_of r then False
      else if end_of r' \<noteq> end_of r then False
      else if masks r' \<noteq> masks r then False
      else if intlvMatch r' \<noteq> intlvMatch r then False
      else True)"

definition range_inter :: "AddrRange \<Rightarrow> AddrRange \<Rightarrow> AddrRange res" where
  "range_inter r' r =
     ensure (\<not> (interleaved r' \<or> interleaved r)) Panic
       (let s = max (start_of r') (start_of r); e = min (end_of r') (end_of r)
        in if e \<le> s then Inr (mkRange 0 0) else Inr (mkRange s e))"

section \<open>Merging the stripes of an interleaved range\<close>

fun merge_loop :: "AddrRange \<Rightarrow> AddrRange list \<Rightarrow> 8 word \<Rightarrow> unit res" where
  "merge_loop r [] m = Inr ()"
| "merge_loop r (x # xs) m =
     ensure (mergesWith r x) Fatal
     (ensure (intlvMatch x = m) Fatal
       (merge_loop r xs (m + 1)))"

definition mergedRange :: "AddrRange list \<Rightarrow> AddrRange res" where
  "mergedRange rs =
     (let r = (case rs of [] \<Rightarrow> emptyRange | x # _ \<Rightarrow> x) in
      if length rs > 1 then
        ensure (length rs = 2 ^ length (masks r)) Fatal
          (rbind (merge_loop r rs 0) (\<lambda>_. Inr (r\<lparr>masks := [], intlvMatch := 0\<rparr>)))
      else Inr r)"

section \<open>Interleaving bits\<close>

text \<open>Differences of bit numbers are \<^verbatim>\<open>unsigned\<close>.\<close>

definition usub32 :: "nat \<Rightarrow> nat \<Rightarrow> nat" where
  "usub32 a b = (a + 2 ^ 32 - b) mod 2 ^ 32"

fun remove_loop :: "nat list \<Rightarrow> nat \<Rightarrow> Addr \<Rightarrow> Addr" where
  "remove_loop [] i a = a"
| "remove_loop (intlv_bit # bs) i a =
     remove_loop bs (Suc i)
       (if 0 < intlv_bit then insert_bits_of (drop_bit 1 a) (usub32 (usub32 intlv_bit i) 1) 0 a
        else drop_bit 1 a)"

definition removeIntlvBits :: "AddrRange \<Rightarrow> Addr \<Rightarrow> Addr" where
  "removeIntlvBits r a =
     (if \<not> interleaved r then a else remove_loop (sort (map ctz64 (masks r))) 0 a)"

fun add_loop :: "nat list \<Rightarrow> Addr \<Rightarrow> Addr" where
  "add_loop [] a = a"
| "add_loop (intlv_bit # bs) a =
     add_loop bs
       (if 0 < intlv_bit then insert_bits_of (push_bit 1 a) (intlv_bit - 1) 0 a else push_bit 1 a)"

text \<open>The second loop of \<^verbatim>\<open>addIntlvBits\<close>. The literal in \<^verbatim>\<open>~(1 << lsb)\<close> is an \<^verbatim>\<open>int\<close>, sign-extended
  when it meets the 64-bit address.\<close>

definition clear_lsb :: "nat \<Rightarrow> Addr" where
  "clear_lsb lsb = scast (NOT (push_bit lsb (1 :: 32 word)))"

fun match_loop :: "8 word \<Rightarrow> Addr list \<Rightarrow> nat \<Rightarrow> Addr \<Rightarrow> Addr" where
  "match_loop m [] i a = a"
| "match_loop m (x # xs) i a =
     (let lsb = ctz64 x; intlv_bit = bit1 (ucast m) i; masked = a AND x AND clear_lsb lsb
      in match_loop m xs (Suc i) (insert_bit a lsb (intlv_bit XOR of_nat (popCount masked))))"

definition addIntlvBits :: "AddrRange \<Rightarrow> Addr \<Rightarrow> Addr" where
  "addIntlvBits r a =
     (if \<not> interleaved r then a
      else match_loop (intlvMatch r) (masks r) 0 (add_loop (sort (map ctz64 (masks r))) a))"

definition getOffset :: "AddrRange \<Rightarrow> Addr \<Rightarrow> Addr" where
  "getOffset r a =
     (if \<not> (start_of r \<le> a \<and> a < end_of r) then MaxAddr
      else if interleaved r then removeIntlvBits r a - removeIntlvBits r (start_of r)
      else a - start_of r)"

section \<open>Exclusion\<close>

text \<open>\<^verbatim>\<open>std::list::sort\<close> is a stable sort by \<^verbatim>\<open>operator<\<close>.\<close>

fun range_insert :: "AddrRange \<Rightarrow> AddrRangeList \<Rightarrow> AddrRangeList" where
  "range_insert x [] = [x]"
| "range_insert x (y # ys) = (if range_less y x then y # range_insert x ys else x # y # ys)"

definition range_sort :: "AddrRangeList \<Rightarrow> AddrRangeList" where
  "range_sort rs = foldr range_insert rs []"

fun exclude_loop :: "AddrRange \<Rightarrow> AddrRangeList \<Rightarrow> Addr \<Rightarrow> AddrRangeList \<Rightarrow> AddrRangeList res" where
  "exclude_loop r [] next_start ranges =
     Inr (if next_start < end_of r then ranges @ [mkRange next_start (end_of r)] else ranges)"
| "exclude_loop r (e # es) next_start ranges =
     ensure (\<not> interleaved e) AssertFail
     (rbind (intersects r e) (\<lambda>i.
       if \<not> i then exclude_loop r es next_start ranges
       else if start_of e \<le> next_start then
         (if end_of e < end_of r then
            exclude_loop r es (if next_start < end_of e then end_of e else next_start) ranges
          else Inr ranges)
       else
         (let ranges = ranges @ [mkRange next_start (start_of e)]
          in if end_of e < end_of r then exclude_loop r es (end_of e) ranges else Inr ranges)))"

definition exclude :: "AddrRange \<Rightarrow> AddrRangeList \<Rightarrow> AddrRangeList res" where
  "exclude r exclude_ranges =
     ensure (\<not> interleaved r) AssertFail
       (exclude_loop r (range_sort exclude_ranges) (start_of r) [])"

definition exclude1 :: "AddrRange \<Rightarrow> AddrRange \<Rightarrow> AddrRangeList res" where
  "exclude1 r excluded_range = exclude r [excluded_range]"

fun exclude_each :: "AddrRangeList \<Rightarrow> AddrRangeList \<Rightarrow> AddrRangeList \<Rightarrow> AddrRangeList res" where
  "exclude_each [] to_exclude ret = Inr ret"
| "exclude_each (rng # base) to_exclude ret =
     rbind (exclude rng to_exclude) (\<lambda>xs. exclude_each base to_exclude (ret @ xs))"

definition exclude_list :: "AddrRangeList \<Rightarrow> AddrRangeList \<Rightarrow> AddrRangeList res" where
  "exclude_list base to_exclude = exclude_each base (range_sort to_exclude) []"

definition RangeEx :: "Addr \<Rightarrow> Addr \<Rightarrow> AddrRange" where
  "RangeEx s e = mkRange s e"

definition RangeIn :: "Addr \<Rightarrow> Addr \<Rightarrow> AddrRange" where
  "RangeIn s e = mkRange s (e + 1)"

definition RangeSize :: "Addr \<Rightarrow> Addr \<Rightarrow> AddrRange" where
  "RangeSize s sz = mkRange s (s + sz)"

section \<open>Selectors\<close>

lemma mkRange_sel [simp]: "start_of (mkRange s e) = s" "end_of (mkRange s e) = e"
  "masks (mkRange s e) = []" "intlvMatch (mkRange s e) = 0"
  by (simp_all add: mkRange_def)

lemma interleaved_mkRange [simp]: "\<not> interleaved (mkRange s e)"
  by (simp add: interleaved_def)

lemma bit_parity: "bit (n mod 2 :: nat) j \<longleftrightarrow> j = 0 \<and> odd n"
  by (auto simp: mod_2_eq_odd bit_Suc_0_iff)

lemma bit_sel_loop:
  "bit (sel_loop a ms i s) j \<longleftrightarrow>
     bit s j \<or> (i \<le> j \<and> j < i + length ms \<and> odd (popCount (a AND ms ! (j - i))))"
proof (induction ms arbitrary: i s)
  case (Cons m ms)
  have "j - i = Suc (j - Suc i)" if "i < j" using that by simp
  then show ?case
    by (cases "i = j") (auto simp: Cons.IH bit_simps bit_parity nth_Cons' not_le)
qed auto

lemma bit_sel: "bit (sel_loop a ms 0 0) j \<longleftrightarrow> j < length ms \<and> odd (popCount (a AND ms ! j))"
  by (simp add: bit_sel_loop)

lemma sel_lt: "sel_loop a ms 0 0 < 2 ^ length ms"
proof -
  have "take_bit (length ms) (sel_loop a ms 0 0) = sel_loop a ms 0 0"
    by (intro bit_eqI) (auto simp: bit_simps bit_sel)
  then show ?thesis by (metis take_bit_nat_less_exp)
qed

lemma contains_mkRange [simp]: "contains (mkRange s e) a \<longleftrightarrow> s \<le> a \<and> a < e"
  by (simp add: contains_def)

lemma contains_plain: "\<not> interleaved r \<Longrightarrow> intlvMatch r = 0 \<Longrightarrow>
    contains r a \<longleftrightarrow> start_of r \<le> a \<and> a < end_of r"
  by (simp add: contains_def interleaved_def)

section \<open>Putting the interleaving bits back\<close>

lemma popCount_card: "popCount w = card {i. bit w i}"
proof -
  have "popCount w = card (set (filter (bit w) [0..<64]))"
    unfolding popCount_def by (subst distinct_card) auto
  also have "set (filter (bit w) [0..<64]) = {i. bit w i}" using bit64_less by auto
  finally show ?thesis .
qed

lemma finite_bits: "finite {i. bit (w :: Addr) i}"
  by (rule finite_subset [of _ "{..<64}"]) (auto dest: bit64_less)

lemma bit_clear_lsb: "l < 31 \<Longrightarrow> bit (clear_lsb l) i \<longleftrightarrow> i < 64 \<and> i \<noteq> l"
  by (auto simp: clear_lsb_def bit_simps min_def)

lemma popCount_lsb:
  assumes "bit x l" and "l < 31"
  shows "popCount (a AND x) = popCount (a AND x AND clear_lsb l) + (if bit a l then 1 else 0)"
proof -
  have "{i. bit (a AND x) i} = {i. bit (a AND x AND clear_lsb l) i} \<union> (if bit a l then {l} else {})"
    using assms by (auto simp: bit_simps bit_clear_lsb dest: bit64_less)
  moreover have "l \<notin> {i. bit (a AND x AND clear_lsb l) i}"
    using assms by (simp add: bit_simps bit_clear_lsb)
  ultimately show ?thesis by (simp add: popCount_card finite_bits)
qed

text \<open>Words that agree outside a set of bit positions.\<close>

definition agree_off :: "nat set \<Rightarrow> Addr \<Rightarrow> Addr \<Rightarrow> bool" where
  "agree_off S x y \<longleftrightarrow> (\<forall>i. i \<notin> S \<longrightarrow> bit x i = bit y i)"

lemma agree_off_empty: "agree_off {} x y \<Longrightarrow> x = y"
  by (intro bit_word_eqI) (simp add: agree_off_def)

definition drop1 :: "nat \<Rightarrow> Addr \<Rightarrow> Addr" where
  "drop1 p a = (a AND mask p) OR (drop_bit 1 a AND NOT (mask p))"

lemma bit_drop1: "bit (drop1 p a) i \<longleftrightarrow> (if i < p then bit a i else bit a (Suc i))"
  by (auto simp: drop1_def bit_simps dest: bit64_less)

lemma drop1_swap: "p < q \<Longrightarrow> drop1 (q - 1) (drop1 p a) = drop1 p (drop1 q a)"
  by (intro bit_word_eqI) (auto simp: bit_drop1)

lemma usub32_small: "i \<le> b \<Longrightarrow> b < 2 ^ 32 \<Longrightarrow> usub32 b i = b - i"
proof -
  assume "i \<le> b" "b < 2 ^ 32"
  then have "b + 2 ^ 32 - i = (b - i) + 2 ^ 32" by simp
  then show ?thesis using \<open>b < 2 ^ 32\<close> unfolding usub32_def by (simp only: mod_add_self2) simp
qed

lemma bit_times_2: "bit (x * 2 :: Addr) i \<longleftrightarrow> i < 64 \<and> 0 < i \<and> bit x (i - 1)"
  by (auto simp: mult.commute [of x] bit_double_iff)

lemma remove_step:
  assumes "i \<le> b" and "b < 64"
  shows "(if 0 < b then insert_bits_of (drop_bit 1 a) (usub32 (usub32 b i) 1) 0 a else drop_bit 1 a)
    = drop1 (b - i) a"
proof (cases "i = b")
  case True
  have "usub32 (usub32 b b) 1 = 2 ^ 32 - 1" by (simp add: usub32_def)
  then show ?thesis
    using True mask_range_wrap [of 0] by (auto simp: insert_bits_of_def drop1_def Let_def)
next
  case False
  with assms have "usub32 b i = b - i" by (simp add: usub32_small)
  moreover have "usub32 (b - i) 1 = b - i - 1" using assms False by (simp add: usub32_small)
  ultimately show ?thesis
    using assms False
    by (intro bit_word_eqI) (auto simp: bit_insert_bits_of bit_drop1 bit_simps)
qed

text \<open>Dropping positions in ascending order with shifted numbers is dropping them from the top
  with their own numbers.\<close>

fun drop_all :: "nat list \<Rightarrow> Addr \<Rightarrow> Addr" where
  "drop_all [] a = a"
| "drop_all (p # ps) a = drop1 p (drop_all ps a)"

lemma remove_loop_shift:
  "sorted_wrt (<) ps \<Longrightarrow> (\<forall>p \<in> set ps. q + i < p \<and> p < 64) \<Longrightarrow>
     remove_loop ps (Suc i) (drop1 q a) = drop1 q (remove_loop ps i a)"
proof (induction ps arbitrary: i a)
  case (Cons p ps)
  have "remove_loop (p # ps) (Suc i) (drop1 q a)
      = remove_loop ps (Suc (Suc i)) (drop1 (p - Suc i) (drop1 q a))"
    using Cons.prems remove_step [of "Suc i" p] by simp
  also have "drop1 (p - Suc i) (drop1 q a) = drop1 q (drop1 (p - i) a)"
    using Cons.prems drop1_swap [of q "p - i"] by (simp add: less_diff_conv)
  also have "remove_loop ps (Suc (Suc i)) \<dots> = drop1 q (remove_loop ps (Suc i) (drop1 (p - i) a))"
    using Cons.prems by (intro Cons.IH) fastforce+
  also have "\<dots> = drop1 q (remove_loop (p # ps) i a)"
    using Cons.prems remove_step [of i p a] by simp
  finally show ?case .
qed simp

lemma remove_loop_drop_all:
  "sorted_wrt (<) ps \<Longrightarrow> (\<forall>p \<in> set ps. p < 64) \<Longrightarrow> remove_loop ps 0 a = drop_all ps a"
proof (induction ps arbitrary: a)
  case (Cons p ps)
  have "remove_loop (p # ps) 0 a = remove_loop ps (Suc 0) (drop1 p a)"
    using Cons.prems remove_step [of 0 p] by simp
  also have "\<dots> = drop1 p (remove_loop ps 0 a)"
    using Cons.prems by (intro remove_loop_shift) auto
  finally show ?case using Cons by simp
qed simp

lemma add_loop_drop_all:
  "sorted_wrt (<) ps \<Longrightarrow> (\<forall>p \<in> set ps. p < 64) \<Longrightarrow> (\<forall>s \<in> S. \<forall>p \<in> set ps. s < p) \<Longrightarrow>
     agree_off S x (drop_all ps y) \<Longrightarrow> agree_off (S \<union> set ps) (add_loop ps x) y"
proof (induction ps arbitrary: S x)
  case (Cons p ps)
  define z where "z = (if 0 < p then insert_bits_of (push_bit 1 x) (p - 1) 0 x else push_bit 1 x)"
  have z: "bit z i \<longleftrightarrow> i < 64 \<and> (if i < p then bit x i else 0 < i \<and> bit x (i - 1))" for i
    using Cons.prems(2) by (auto simp: z_def bit_insert_bits_of bit_simps bit_times_2 split: if_splits)
  have "agree_off (insert p S) z (drop_all ps y)"
    unfolding agree_off_def
  proof (intro allI impI)
    fix i assume i: "i \<notin> insert p S"
    have eq: "j \<notin> S \<Longrightarrow> bit x j = bit (drop1 p (drop_all ps y)) j" for j
      using Cons.prems(4) by (simp add: agree_off_def)
    show "bit z i = bit (drop_all ps y) i"
    proof (cases "i < p")
      case True
      then show ?thesis using i eq [of i] Cons.prems(2) by (simp add: z bit_drop1)
    next
      case False
      then have "p < i" "i - 1 \<notin> S" using i Cons.prems(3) by fastforce+
      then show ?thesis using eq [of "i - 1"] by (auto simp: z bit_drop1 dest: bit64_less)
    qed
  qed
  then have "agree_off (insert p S \<union> set ps) (add_loop ps z) y"
    using Cons.prems by (intro Cons.IH) auto
  then show ?case by (simp add: z_def)
qed simp

text \<open>Masks whose lowest bits are distinct, within the range of the \<^verbatim>\<open>int\<close> literal, and not used by
  an earlier mask.\<close>

definition intlv_wf :: "Addr list \<Rightarrow> bool" where
  "intlv_wf ms \<longleftrightarrow> (\<forall>m \<in> set ms. m \<noteq> 0 \<and> ctz64 m < 31) \<and> distinct (map ctz64 ms)
     \<and> (\<forall>j < length ms. \<forall>i < j. \<not> bit (ms ! i) (ctz64 (ms ! j)))"

lemma intlv_wf_Cons: "intlv_wf (m # ms) \<longleftrightarrow>
    m \<noteq> 0 \<and> ctz64 m < 31 \<and> ctz64 m \<notin> ctz64 ` set ms \<and> (\<forall>x \<in> set ms. \<not> bit m (ctz64 x)) \<and> intlv_wf ms"
proof -
  have "(\<forall>j < length (m # ms). \<forall>i < j. \<not> bit ((m # ms) ! i) (ctz64 ((m # ms) ! j))) \<longleftrightarrow>
      (\<forall>x \<in> set ms. \<not> bit m (ctz64 x)) \<and> (\<forall>j < length ms. \<forall>i < j. \<not> bit (ms ! i) (ctz64 (ms ! j)))"
    by (simp add: All_less_Suc2 all_conj_distrib imp_conjR all_set_conv_all_nth)
  then show ?thesis by (auto simp: intlv_wf_def)
qed

lemma even_match_bit:
  "even (bit1 (ucast (m :: 8 word)) i XOR of_nat n) \<longleftrightarrow> bit m i = odd n"
proof -
  have "bit (bit1 (ucast m) i) 0 = bit m i"
    by (auto simp only: bit1_def bit_bits_of le_refl bit_unsigned_iff possible_bit_word dest: bit_imp_le_length)
      (auto dest!: bit_imp_le_length)
  moreover have "bit (of_nat n :: Addr) 0 = odd n" by (simp add: bit_0)
  ultimately have "bit (bit1 (ucast m) i XOR of_nat n) 0 = (bit m i \<noteq> odd n)"
    by (simp only: bit_xor_iff)
  then show ?thesis by (auto simp: bit_0)
qed

lemma match_loop_restores:
  "intlv_wf xs \<Longrightarrow> (\<forall>k < length xs. odd (popCount (a AND xs ! k)) = bit m (i + k)) \<Longrightarrow>
     agree_off (ctz64 ` set xs) w a \<Longrightarrow> match_loop m xs i w = a"
proof (induction xs arbitrary: i w)
  case Nil
  then show ?case by (simp add: agree_off_empty)
next
  case (Cons x xs)
  define l where "l = ctz64 x"
  note wf = Cons.prems(1) [unfolded intlv_wf_Cons, folded l_def]
  have lx: "bit x l" using wf ctz64_spec [of x] by (simp add: l_def)
  have same: "w AND x AND clear_lsb l = a AND x AND clear_lsb l"
  proof (rule bit_word_eqI)
    fix j
    have "bit w j = bit a j" if "bit x j" "j \<noteq> l"
      using that wf Cons.prems(3) by (auto simp: agree_off_def l_def)
    then show "bit (w AND x AND clear_lsb l) j = bit (a AND x AND clear_lsb l) j"
      using wf by (auto simp: bit_simps bit_clear_lsb)
  qed
  define w' where "w' = insert_bit w l (bit1 (ucast m) i XOR of_nat (popCount (w AND x AND clear_lsb l)))"
  have par: "odd (popCount (a AND x)) = bit m i" using Cons.prems(2) by fastforce
  have "bit w' l = bit a l"
    using par wf popCount_lsb [OF lx, of a] bit64_less [OF lx]
    by (auto simp: w'_def bit_insert_bit same even_match_bit bit_0)
  moreover have "bit w' j = bit w j" if "j \<noteq> l" for j
    using that bit64_less [OF lx] by (auto simp: w'_def bit_insert_bit dest: bit64_less)
  ultimately have "agree_off (ctz64 ` set xs) w' a"
    using Cons.prems(3) unfolding agree_off_def l_def by (metis image_insert insertE list.simps(15))
  then have "match_loop m xs (Suc i) w' = a"
    using wf Cons.prems(2) by (intro Cons.IH) auto
  then show ?case by (simp add: Let_def w'_def l_def)
qed

lemma add_remove_intlv:
  assumes "intlv_wf (masks r)" and "sel_loop a (masks r) 0 0 = unat (intlvMatch r)"
  shows "addIntlvBits r (removeIntlvBits r a) = a"
proof (cases "interleaved r")
  case True
  let ?ps = "sort (map ctz64 (masks r))"
  have ps: "sorted_wrt (<) ?ps" "\<forall>p \<in> set ?ps. p < 64"
    using assms(1) by (auto simp: intlv_wf_def strict_sorted_iff)
  have "agree_off ({} \<union> set ?ps) (add_loop ?ps (drop_all ?ps a)) a"
    using ps by (intro add_loop_drop_all) (auto simp: agree_off_def)
  moreover have "odd (popCount (a AND masks r ! k)) = bit (intlvMatch r) (0 + k)" if "k < length (masks r)" for k
    using that bit_sel [of a "masks r" k] assms(2) by (simp add: bit_unsigned_iff)
  ultimately show ?thesis
    using True assms(1) remove_loop_drop_all [OF ps, of a]
    by (simp add: addIntlvBits_def removeIntlvBits_def match_loop_restores)
qed (simp add: addIntlvBits_def removeIntlvBits_def)

text \<open>
  C17: an address of an interleaved range is recovered from its stripped form:
  \<^verbatim>\<open>addIntlvBits\<close> undoes \<^verbatim>\<open>removeIntlvBits\<close>, so distinct addresses of the range have distinct
  offsets. The masks must have distinct lowest bits below 31 that no earlier mask uses.
\<close>

theorem intlv_round_trip:
  assumes "intlv_wf (masks r)" and "contains r a" and "contains r b"
  shows "addIntlvBits r (removeIntlvBits r a) = a \<and> (getOffset r a = getOffset r b \<longrightarrow> a = b)"
proof -
  have "addIntlvBits r (removeIntlvBits r x) = x" if "contains r x" for x
    using that assms(1) by (intro add_remove_intlv) (simp_all add: contains_def split: if_splits)
  moreover have "removeIntlvBits r a = removeIntlvBits r b" if "getOffset r a = getOffset r b"
    using that assms(2,3) by (auto simp: getOffset_def contains_def removeIntlvBits_def split: if_splits)
  ultimately show ?thesis using assms(2,3) by metis
qed

text \<open>A range of four stripes of 64 bytes, selected by the bits 6 and 7 hashed with 12 and 13.\<close>

definition striped :: AddrRange where
  "striped = \<lparr>start_of = 0, end_of = 0x10000, masks = [0x1040, 0x2080], intlvMatch = 2\<rparr>"

lemma striped_wf: "intlv_wf (masks striped)"
proof -
  have "ctz64 0x1040 = 6" "ctz64 0x2080 = 7" by code_simp+
  then show ?thesis by (simp add: striped_def intlv_wf_Cons) (simp add: intlv_wf_def)
qed

theorem intlv_round_trip_witness:
  "addIntlvBits striped (removeIntlvBits striped 0x13c5) = 0x13c5
    \<and> getOffset striped 0x13c5 \<noteq> getOffset striped 0x85"
proof -
  have "contains striped 0x13c5" "contains striped 0x85" by code_simp+
  from intlv_round_trip [OF striped_wf this] show ?thesis by auto
qed

section \<open>Exclusion is set difference\<close>

definition plain :: "AddrRange \<Rightarrow> bool" where
  "plain r \<longleftrightarrow> \<not> interleaved r \<and> intlvMatch r = 0 \<and> valid r"

lemma plain_contains: "plain r \<Longrightarrow> contains r a \<longleftrightarrow> start_of r \<le> a \<and> a < end_of r"
  by (simp add: plain_def contains_plain)

lemma set_range_insert [simp]: "set (range_insert x ys) = insert x (set ys)"
  by (induction ys) auto

lemma range_less_start: "range_less y x \<Longrightarrow> start_of y \<le> start_of x"
  "\<not> range_less y x \<Longrightarrow> start_of x \<le> start_of y"
  by (auto simp: range_less_def split: if_splits)

lemma sorted_range_insert:
  "sorted (map start_of ys) \<Longrightarrow> sorted (map start_of (range_insert x ys))"
  by (induction ys) (auto dest: range_less_start intro: order_trans)

lemma set_range_sort [simp]: "set (range_sort rs) = set rs"
  unfolding range_sort_def by (induction rs) auto

lemma sorted_range_sort: "sorted (map start_of (range_sort rs))"
  unfolding range_sort_def by (induction rs) (auto intro: sorted_range_insert)

definition covers :: "AddrRangeList \<Rightarrow> Addr \<Rightarrow> bool" where
  "covers rs a \<longleftrightarrow> (\<exists>r \<in> set rs. contains r a)"

lemma covers_simps [simp]: "\<not> covers [] a" "covers (r # rs) a \<longleftrightarrow> contains r a \<or> covers rs a"
  "covers (rs @ rs') a \<longleftrightarrow> covers rs a \<or> covers rs' a"
  by (auto simp: covers_def)

text \<open>Pieces in ascending order, each nonempty and starting at \<open>n\<close> or later.\<close>

fun pieces_from :: "Addr \<Rightarrow> AddrRangeList \<Rightarrow> bool" where
  "pieces_from n [] = True"
| "pieces_from n (r # rs) = (n \<le> start_of r \<and> start_of r < end_of r \<and> pieces_from (end_of r) rs)"

lemma pieces_from_mono: "pieces_from n rs \<Longrightarrow> m \<le> n \<Longrightarrow> pieces_from m rs"
  by (cases rs) auto

lemma exclude_loop_spec:
  assumes "plain r"
  shows "sorted (map start_of es) \<Longrightarrow> \<forall>e \<in> set es. plain e \<Longrightarrow> start_of r \<le> n \<Longrightarrow>
    \<exists>xs. exclude_loop r es n acc = Inr (acc @ xs) \<and> pieces_from n xs
      \<and> (\<forall>a. covers xs a \<longleftrightarrow> n \<le> a \<and> a < end_of r \<and> \<not> covers es a)"
proof (induction es arbitrary: n acc)
  case Nil
  then show ?case by (auto simp: not_less dest: le_less_trans)
next
  case (Cons e es)
  have es: "sorted (map start_of es)" "\<forall>e \<in> set es. plain e" using Cons.prems by auto
  have pe: "\<not> interleaved e" "start_of e \<le> end_of e" "\<not> interleaved r"
    "\<And>a. contains e a \<longleftrightarrow> start_of e \<le> a \<and> a < end_of e"
    using Cons.prems(2) assms by (auto simp: plain_def valid_def contains_plain)
  have later: "start_of e \<le> a" if cov: "covers es a" for a
  proof -
    obtain x where "x \<in> set es" "contains x a" using cov by (auto simp: covers_def)
    then have "start_of x \<le> a" using es(2) by (simp add: plain_contains)
    moreover have "start_of e \<le> start_of x" using Cons.prems(1) \<open>x \<in> set es\<close> by simp
    ultimately show ?thesis by (rule order_trans [rotated])
  qed
  note IH = Cons.IH [OF es]
  consider (out) "start_of r \<ge> end_of e \<or> end_of r \<le> start_of e"
    | (inside) "start_of r < end_of e" "start_of e < end_of r" by fastforce
  then show ?case
  proof cases
    case out
    then have "intersects r e = Inr False" by (simp add: intersects_def)
    moreover from out have "\<not> (n \<le> a \<and> a < end_of r \<and> contains e a)" for a
      using pe(4) Cons.prems(3) by fastforce
    ultimately show ?thesis using IH [of n acc] Cons.prems(3) pe by (auto simp: ensure_def)
  next
    case inside
    then have I: "intersects r e = Inr True" using pe(1,3) by (simp add: intersects_def not_le)
    show ?thesis
    proof (cases "start_of e \<le> n")
      case True
      show ?thesis
      proof (cases "end_of e < end_of r")
        case lt: True
        obtain xs where "exclude_loop r es (max n (end_of e)) acc = Inr (acc @ xs)"
          "pieces_from (max n (end_of e)) xs"
          "\<forall>a. covers xs a \<longleftrightarrow> max n (end_of e) \<le> a \<and> a < end_of r \<and> \<not> covers es a"
          using IH [of "max n (end_of e)" acc] Cons.prems(3) by (auto simp: le_max_iff_disj)
        moreover have "(if n < end_of e then end_of e else n) = max n (end_of e)"
          by (metis less_imp_le max.absorb1 max.absorb2 not_less)
        ultimately show ?thesis
          using True lt I pe by (auto simp: ensure_def elim: pieces_from_mono)
      next
        case False
        have "\<not> (n \<le> a \<and> a < end_of r \<and> \<not> contains e a)" for a
          using True False pe(4) by fastforce
        then show ?thesis using True False I pe by (intro exI [of _ "[]"]) (auto simp: ensure_def)
      qed
    next
      case False
      let ?p = "mkRange n (start_of e)"
      show ?thesis
      proof (cases "end_of e < end_of r")
        case lt: True
        obtain xs where xs: "exclude_loop r es (end_of e) (acc @ [?p]) = Inr ((acc @ [?p]) @ xs)"
          "pieces_from (end_of e) xs"
          "\<forall>a. covers xs a \<longleftrightarrow> end_of e \<le> a \<and> a < end_of r \<and> \<not> covers es a"
          using IH [of "end_of e" "acc @ [?p]"] inside by fastforce
        have "covers (?p # xs) a \<longleftrightarrow> n \<le> a \<and> a < end_of r \<and> \<not> covers (e # es) a" for a
        proof (cases "a < start_of e")
          case below: True
          then have "\<not> covers es a" "\<not> contains e a" "a < end_of r" "a < end_of e"
            using later [of a] pe(2,4) inside(2) by (meson not_le less_trans less_le_trans)+
          then show ?thesis using xs(3) below by (simp add: not_le [symmetric])
        next
          case above: False
          then have "\<not> contains ?p a" "end_of e \<le> a \<longleftrightarrow> \<not> contains e a"
            using False pe(2,4) by (simp_all add: not_less)
          moreover have "n \<le> a" using above False by (meson le_less_linear less_imp_le less_le_trans not_less)
          ultimately show ?thesis using xs(3) by auto
        qed
        moreover have "exclude_loop r (e # es) n acc = Inr (acc @ ?p # xs)"
          using xs(1) False lt I pe by (simp add: ensure_def Let_def)
        moreover have "pieces_from n (?p # xs)"
          using False pieces_from_mono [OF xs(2) pe(2)] by (simp add: not_le)
        ultimately show ?thesis by blast
      next
        case ge: False
        have "covers [?p] a \<longleftrightarrow> n \<le> a \<and> a < end_of r \<and> \<not> covers (e # es) a" for a
        proof (cases "a < start_of e")
          case below: True
          then have "\<not> covers es a" "\<not> contains e a" "a < end_of r"
            using later [of a] pe(2,4) inside(2) by (meson not_le less_trans)+
          then show ?thesis using below by simp
        next
          case above: False
          then have "\<not> contains ?p a" "a < end_of r \<longrightarrow> contains e a"
            using ge pe(4) by (auto simp: not_less intro: less_le_trans)
          then show ?thesis by auto
        qed
        moreover have "exclude_loop r (e # es) n acc = Inr (acc @ [?p])"
          using False ge I pe by (simp add: ensure_def Let_def)
        moreover have "pieces_from n [?p]" using False by (simp add: not_le)
        ultimately show ?thesis by blast
      qed
    qed
  qed
qed

text \<open>
  C18: subtracting a list of plain ranges from a plain range always returns, and the pieces
  returned cover exactly the addresses of the range that no excluded range contains. The pieces
  are nonempty, in ascending order and disjoint.
\<close>

theorem exclude_is_difference:
  assumes "plain r" and "\<forall>e \<in> set es. plain e"
  shows "\<exists>xs. exclude r es = Inr xs \<and> pieces_from (start_of r) xs
    \<and> (\<forall>a. covers xs a \<longleftrightarrow> contains r a \<and> \<not> covers es a)"
proof -
  have "\<exists>xs. exclude_loop r (range_sort es) (start_of r) [] = Inr ([] @ xs) \<and> pieces_from (start_of r) xs
      \<and> (\<forall>a. covers xs a \<longleftrightarrow> start_of r \<le> a \<and> a < end_of r \<and> \<not> covers (range_sort es) a)"
    using assms by (intro exclude_loop_spec sorted_range_sort) auto
  moreover have "covers (range_sort es) a = covers es a" for a by (simp add: covers_def)
  ultimately show ?thesis
    using assms(1) by (auto simp: exclude_def plain_contains) (simp add: plain_def ensure_def)
qed

theorem exclude_is_difference_witness:
  "\<exists>xs. exclude (mkRange 0 100) [mkRange 40 60, mkRange 10 20, mkRange 15 30] = Inr xs
    \<and> pieces_from 0 xs \<and> (\<forall>a. covers xs a \<longleftrightarrow> contains (mkRange 0 100) a
        \<and> \<not> covers [mkRange 40 60, mkRange 10 20, mkRange 15 30] a)"
  using exclude_is_difference [of "mkRange 0 100" "[mkRange 40 60, mkRange 10 20, mkRange 15 30]"]
  by (simp add: plain_def valid_def del: covers_simps contains_mkRange)

section \<open>The subset test\<close>

lemma bit_scast32: "i < 32 \<Longrightarrow> bit (scast (c :: 32 word) :: Addr) i = bit c i"
proof -
  assume "i < 32"
  then have "min i 31 = i" by simp
  then show ?thesis using \<open>i < 32\<close> by (simp add: bit_signed_iff)
qed

lemma bit_combined_fold:
  "i < 32 \<Longrightarrow> bit (fold (\<lambda>m c. ucast ((scast c :: Addr) OR m)) ms (c :: 32 word)) i \<longleftrightarrow>
     bit c i \<or> (\<exists>m \<in> set ms. bit m i)"
  by (induction ms arbitrary: c) (auto simp: bit_unsigned_iff bit_or_iff bit_scast32)

lemma granularity_low:
  assumes "interleaved r" and "\<exists>m \<in> set (masks r). \<exists>i<32. bit m i"
  shows "\<exists>k<32. granularity r = 2 ^ k \<and> (\<forall>m \<in> set (masks r). \<forall>i<k. \<not> bit m i)"
proof -
  let ?c = "scast (combined_mask (masks r)) :: Addr"
  have c: "bit ?c i \<longleftrightarrow> (\<exists>m \<in> set (masks r). bit m i)" if "i < 32" for i
    using that bit_combined_fold [of i "masks r" 0] by (simp add: combined_mask_def bit_scast32)
  then have "?c \<noteq> 0" using assms(2) by fastforce
  note k = ctz64_spec [OF this]
  obtain j where "j < 32" "bit ?c j" using assms(2) c by blast
  with k have "ctz64 ?c < 32" by (meson le_less_trans not_le)
  moreover have "granularity r = 2 ^ ctz64 ?c" using assms(1) by (simp add: granularity_def push_bit_of_1)
  moreover have "\<not> bit m i" if "m \<in> set (masks r)" "i < ctz64 ?c" for m i
    using that k c [of i] less_trans [OF that(2) \<open>ctz64 ?c < 32\<close>] by blast
  ultimately show ?thesis by blast
qed

lemma sel_loop_cong: "(\<forall>m \<in> set ms. a AND m = b AND m) \<Longrightarrow> sel_loop a ms i s = sel_loop b ms i s"
  by (induction ms arbitrary: i s) auto

lemma drop_bit_same_and:
  assumes "drop_bit k a = drop_bit k b" and "\<forall>i<k. \<not> bit (m :: Addr) i"
  shows "a AND m = b AND m"
proof (rule bit_word_eqI)
  fix i
  have "bit a i = bit b i" if "k \<le> i"
    using that arg_cong [OF assms(1), of "\<lambda>w. bit w (i - k)"] by (simp add: bit_drop_bit_eq)
  then show "bit (a AND m) i = bit (b AND m) i" using assms(2) by (auto simp: bit_and_iff not_le [symmetric])
qed

lemma between_granules:
  assumes "s \<le> (a::nat)" and "a \<le> t" and "t < s + n" and "0 < n"
  shows "a div n = s div n \<or> a div n = t div n"
proof -
  have "t div n \<le> s div n + 1"
  proof -
    have "t div n \<le> (s + n) div n" using assms by (intro div_le_mono) simp
    also have "(s + n) div n = s div n + 1" using assms(4) by (subst div_add_self2) simp_all
    finally show ?thesis .
  qed
  moreover have "s div n \<le> a div n" "a div n \<le> t div n" using assms by (simp_all add: div_le_mono)
  ultimately show ?thesis by linarith
qed

lemma subset_interleaved:
  assumes r: "interleaved r" "\<exists>m \<in> set (masks r). \<exists>i<32. bit m i"
    and q: "\<not> interleaved q" "start_of q < end_of q"
    and b: "contains r (start_of q)" "contains r (end_of q - 1)" "range_size q \<le> granularity r"
    and a: "start_of q \<le> a" "a < end_of q"
  shows "contains r a"
proof -
  obtain k where k: "k < 32" "granularity r = 2 ^ k" "\<forall>m \<in> set (masks r). \<forall>i<k. \<not> bit m i"
    using granularity_low [OF r] by blast
  have ne: "end_of q \<noteq> 0" using q(2) by auto
  have u: "unat (start_of q) \<le> unat a" "unat a < unat (end_of q)" "unat (end_of q - 1) = unat (end_of q) - 1"
    using a ne by (simp_all add: word_le_nat_alt word_less_nat_alt unat_minus_one)
  have "unat (end_of q) - unat (start_of q) \<le> 2 ^ k"
    using b(3) k(1,2) q by (simp add: range_size_def interleaved_def word_le_nat_alt unat_sub_if' unat_exp
        word_less_nat_alt)
  then have "unat a div 2 ^ k = unat (start_of q) div 2 ^ k \<or> unat a div 2 ^ k = unat (end_of q - 1) div 2 ^ k"
    using u by (intro between_granules) auto
  then have "drop_bit k a = drop_bit k (start_of q) \<or> drop_bit k a = drop_bit k (end_of q - 1)"
    by (simp add: word_unat_eq_iff unat_drop_bit)
  then have "sel_loop a (masks r) 0 0 = unat (intlvMatch r)"
    using b(1,2) k(3) sel_loop_cong drop_bit_same_and
    unfolding contains_def by (metis (no_types, lifting))
  moreover have "start_of r \<le> a" "a < end_of r"
    using b(1,2) u by (auto simp: contains_def word_le_nat_alt word_less_nat_alt split: if_splits)
  ultimately show ?thesis by (simp add: contains_def)
qed

text \<open>
  C19: for a nonempty plain range the subset test is sound against plain and interleaved ranges,
  and exact against nonempty plain ones. Against an interleaved range the condition that some
  mask has a bit below 32 is needed, because the granularity is accumulated in an \<^verbatim>\<open>int\<close>.
\<close>

theorem isSubset_correct:
  assumes "plain q" and "start_of q < end_of q"
    and "if interleaved r then \<exists>m \<in> set (masks r). \<exists>i<32. bit m i else plain r \<and> start_of r < end_of r"
  shows "\<exists>b. isSubset q r = Inr b \<and> (b \<longrightarrow> (\<forall>a. contains q a \<longrightarrow> contains r a))
    \<and> (\<not> interleaved r \<longrightarrow> (\<forall>a. contains q a \<longrightarrow> contains r a) \<longrightarrow> b)"
proof (cases "interleaved r")
  case True
  then show ?thesis
    using assms subset_interleaved [of r q]
    by (simp add: isSubset_def plain_contains) (simp add: plain_def)
next
  case False
  have "contains q (start_of q)" "contains q (end_of q - 1)"
  proof -
    have "end_of q \<noteq> 0" using assms(2) by auto
    then have "end_of q - 1 < end_of q" "start_of q \<le> end_of q - 1"
      using assms(2) by (simp_all add: word_less_nat_alt word_le_nat_alt unat_minus_one)
    then show "contains q (start_of q)" "contains q (end_of q - 1)"
      using assms(1,2) by (simp_all add: plain_contains)
  qed
  moreover have "end_of q \<le> end_of r" if "end_of q - 1 < end_of r"
  proof -
    have "end_of q \<noteq> 0" using assms(2) by auto
    then show ?thesis using that by (auto simp: word_less_nat_alt word_le_nat_alt unat_minus_one)
  qed
  moreover have rc: "contains r x \<longleftrightarrow> start_of r \<le> x \<and> x < end_of r" for x
    using assms(3) False by (simp add: plain_contains)
  moreover have "isSubset q r = Inr (start_of r \<le> start_of q \<and> end_of q \<le> end_of r)"
    using assms False not_le [of "end_of q" "start_of q"] not_le [of "end_of r" "start_of r"]
    by (simp add: isSubset_def plain_def)
  moreover have "contains r x"
    if "start_of r \<le> start_of q" "end_of q \<le> end_of r" "contains q x" for x
    using that assms(1) by (meson plain_contains rc order_trans less_le_trans)
  ultimately show ?thesis by blast
qed

theorem isSubset_correct_witness:
  "isSubset (mkRange 0x80 0xa0) striped = Inr True \<and> contains striped 0x9f"
proof -
  have "bit (0x1040 :: Addr) 6" by code_simp
  then have "\<exists>m \<in> set (masks striped). \<exists>i<32. bit m i"
    by (intro bexI [of _ "0x1040"] exI [of _ 6]) (simp_all add: striped_def)
  then have "if interleaved striped then \<exists>m \<in> set (masks striped). \<exists>i<32. bit m i
      else plain striped \<and> start_of striped < end_of striped"
    by (simp add: interleaved_def striped_def)
  moreover have "plain (mkRange 0x80 0xa0)" "start_of (mkRange 0x80 0xa0) < end_of (mkRange 0x80 0xa0)"
    by (simp_all add: plain_def valid_def)
  moreover have "isSubset (mkRange 0x80 0xa0) striped = Inr True" by code_simp
  moreover have "contains (mkRange 0x80 0xa0) 0x9f" by simp
  ultimately show ?thesis using isSubset_correct [of "mkRange 0x80 0xa0" striped] by (metis sum.inject(2))
qed

section \<open>Merging stripes\<close>

lemma merge_loop_spec:
  "merge_loop r xs m = Inr () \<longleftrightarrow>
     (\<forall>i < length xs. mergesWith r (xs ! i) \<and> intlvMatch (xs ! i) = m + of_nat i)"
proof (induction xs arbitrary: m)
  case (Cons x xs)
  show ?case by (auto simp: ensure_def Cons.IH All_less_Suc2 add.assoc)
qed simp

text \<open>
  C20: when a list of ranges merges, the merged range contains exactly the addresses of its
  stripes. The match value has 8 bits, hence the bound on the number of masks.
\<close>

theorem merged_is_union:
  assumes "mergedRange rs = Inr r" and "\<forall>x \<in> set rs. length (masks x) \<le> 8"
  shows "contains r a \<longleftrightarrow> covers rs a"
proof (cases "length rs > 1")
  case False
  then consider "rs = []" | x where "rs = [x]" by (cases rs) (auto simp: not_less)
  then show ?thesis
  proof cases
    case 1
    have "\<not> (1 \<le> a \<and> a < 0)" by simp
    then show ?thesis using 1 assms(1) by (auto simp: mergedRange_def emptyRange_def contains_def)
  next
    case 2
    then show ?thesis using assms(1) by (simp add: mergedRange_def)
  qed
next
  case True
  then obtain x xs where rs: "rs = x # xs" by (cases rs) auto
  have len: "length rs = 2 ^ length (masks x)" and loop: "merge_loop x rs 0 = Inr ()"
    and r: "r = x\<lparr>masks := [], intlvMatch := 0\<rparr>"
    using assms(1) True unfolding rs
    by (auto simp: mergedRange_def ensure_def Let_def rbind_eq_Inr split: if_splits simp del: merge_loop.simps)
  have n: "length (masks x) \<le> 8" using assms(2) rs by simp
  note same = loop [unfolded merge_loop_spec, rule_format, simplified]
  let ?sel = "sel_loop a (masks x) 0 0"
  have nth: "contains (rs ! i) a \<longleftrightarrow> contains r a \<and> ?sel = i" if "i < length rs" for i
  proof -
    have "(2::nat) ^ length (masks x) \<le> 2 ^ 8" using n by (intro power_increasing) auto
    then have "i < 256" using that len by simp
    then have "unat (of_nat i :: 8 word) = i" by (simp add: unat_of_nat)
    then show ?thesis
      using same [OF that] by (auto simp: contains_def mergesWith_def r)
  qed
  have "covers rs a \<longleftrightarrow> (\<exists>i < length rs. contains (rs ! i) a)"
    unfolding covers_def by (metis in_set_conv_nth)
  also have "\<dots> \<longleftrightarrow> contains r a" using nth sel_lt [of a "masks x"] len by metis
  finally show ?thesis by simp
qed

theorem merged_is_union_witness:
  "contains (mkRange 0 64) 37 \<longleftrightarrow>
     covers [\<lparr>start_of = 0, end_of = 64, masks = [16], intlvMatch = 0\<rparr>,
             \<lparr>start_of = 0, end_of = 64, masks = [16], intlvMatch = 1\<rparr>] 37"
  by (rule merged_is_union)
    (simp_all add: mergedRange_def ensure_def mergesWith_def mkRange_def)

end
