(* ===== verification/Addr_Range_Map.thy ===== *)
theory Addr_Range_Map
  imports Addr_Range
begin

text \<open>
  The class template \<^verbatim>\<open>AddrRangeMap\<close> of \<^verbatim>\<open>base/addr_range_map.hh\<close>: an ordered map from address
  ranges to values with a most-recently-used cache of iterators. The tree is the list of its
  entries in the order of \<^verbatim>\<open>operator<\<close>; an iterator is the key it points to. The locale
  \<open>addr_decoder\<close> is what a lookup promises its clients; the map is an instance of it.
\<close>

section \<open>The map\<close>

record 'v AddrRangeMap =
  tree :: "(AddrRange \<times> 'v) list"
  cache :: "AddrRange list"

definition addNewEntryToCache :: "nat \<Rightarrow> AddrRange \<Rightarrow> AddrRange list \<Rightarrow> AddrRange list" where
  "addNewEntryToCache max_cache_size it c =
     (if max_cache_size \<noteq> 0 then
        (if length c \<ge> max_cache_size then
           (if max_cache_size > 1 then it # butlast c else butlast c @ [it])
         else it # c)
      else c)"

fun cache_find :: "(AddrRange \<Rightarrow> bool res) \<Rightarrow> AddrRange list \<Rightarrow> AddrRange option res" where
  "cache_find cond [] = Inr None"
| "cache_find cond (c # cs) =
     rbind (cond c) (\<lambda>b. if b then Inr (Some c) else cache_find cond cs)"

text \<open>The backward search. Its argument is the list of the keys before the upper bound, last
  one first.\<close>

fun walk_back :: "(AddrRange \<Rightarrow> bool res) \<Rightarrow> AddrRange list \<Rightarrow> AddrRange option res" where
  "walk_back cond [] = Inr None"
| "walk_back cond (i # rest) =
     rbind (cond i) (\<lambda>b.
       if b then Inr (Some i)
       else case rest of
           [] \<Rightarrow> Inr None
         | n # _ \<Rightarrow> if mergesWith n i then walk_back cond rest else Inr None)"

definition before_bound :: "AddrRange \<Rightarrow> AddrRange list \<Rightarrow> AddrRange list" where
  "before_bound r ks = takeWhile (\<lambda>e. \<not> range_less r e) ks"

definition upper_bound :: "AddrRange \<Rightarrow> AddrRange list \<Rightarrow> AddrRange list" where
  "upper_bound r ks = dropWhile (\<lambda>e. \<not> range_less r e) ks"

definition map_find ::
  "nat \<Rightarrow> 'v AddrRangeMap \<Rightarrow> AddrRange \<Rightarrow> (AddrRange \<Rightarrow> bool res)
    \<Rightarrow> ('v AddrRangeMap \<times> AddrRange option) res" where
  "map_find max_cache_size m r cond =
     rbind (cache_find cond (cache m)) (\<lambda>hit. case hit of
         Some it \<Rightarrow> Inr (m\<lparr>cache := it # remove1 it (cache m)\<rparr>, Some it)
       | None \<Rightarrow>
         (let ks = map fst (tree m);
              found = (\<lambda>it. (m\<lparr>cache := addNewEntryToCache max_cache_size it (cache m)\<rparr>, Some it));
              back = rbind (walk_back cond (rev (before_bound r ks))) (\<lambda>x. case x of
                  Some it \<Rightarrow> Inr (found it)
                | None \<Rightarrow> Inr (m, None))
          in case upper_bound r ks of
              [] \<Rightarrow> back
            | next # _ \<Rightarrow> rbind (cond next) (\<lambda>b. if b then Inr (found next) else back)))"

definition map_contains ::
  "nat \<Rightarrow> 'v AddrRangeMap \<Rightarrow> AddrRange \<Rightarrow> ('v AddrRangeMap \<times> AddrRange option) res" where
  "map_contains n m r = map_find n m r (\<lambda>r1. isSubset r r1)"

definition map_contains_addr ::
  "nat \<Rightarrow> 'v AddrRangeMap \<Rightarrow> Addr \<Rightarrow> ('v AddrRangeMap \<times> AddrRange option) res" where
  "map_contains_addr n m a = map_contains n m (RangeSize a 1)"

definition map_intersects ::
  "nat \<Rightarrow> 'v AddrRangeMap \<Rightarrow> AddrRange \<Rightarrow> ('v AddrRangeMap \<times> AddrRange option) res" where
  "map_intersects n m r = map_find n m r (\<lambda>r1. intersects r r1)"

text \<open>\<^verbatim>\<open>std::map::insert\<close> keeps an entry with an equivalent key.\<close>

fun tree_insert :: "AddrRange \<Rightarrow> 'v \<Rightarrow> (AddrRange \<times> 'v) list \<Rightarrow> (AddrRange \<times> 'v) list \<times> AddrRange" where
  "tree_insert r d [] = ([(r, d)], r)"
| "tree_insert r d (e # es) =
     (if range_less r (fst e) then ((r, d) # e # es, r)
      else if range_less (fst e) r then
        (let (es', it) = tree_insert r d es in (e # es', it))
      else (e # es, fst e))"

definition map_insert ::
  "nat \<Rightarrow> 'v AddrRangeMap \<Rightarrow> AddrRange \<Rightarrow> 'v \<Rightarrow> ('v AddrRangeMap \<times> AddrRange option) res" where
  "map_insert n m r d =
     rbind (map_intersects n m r) (\<lambda>(m, hit).
       if hit \<noteq> None then Inr (m, None)
       else let (t, it) = tree_insert r d (tree m) in Inr (m\<lparr>tree := t\<rparr>, Some it))"

definition map_erase :: "'v AddrRangeMap \<Rightarrow> AddrRange \<Rightarrow> 'v AddrRangeMap" where
  "map_erase m p =
     m\<lparr>cache := removeAll p (cache m), tree := filter (\<lambda>e. fst e \<noteq> p) (tree m)\<rparr>"

text \<open>Erasing the entries from \<open>p\<close> up to but not including \<open>q\<close> (\<open>None\<close> is \<^verbatim>\<open>end()\<close>). The loop over
  the entries removes \<open>p\<close> from the cache each time, never the entry it has reached.\<close>

definition map_erase_range :: "'v AddrRangeMap \<Rightarrow> AddrRange \<Rightarrow> AddrRange option \<Rightarrow> 'v AddrRangeMap" where
  "map_erase_range m p q =
     (let es = dropWhile (\<lambda>e. fst e \<noteq> p) (tree m);
          gone = takeWhile (\<lambda>e. Some (fst e) \<noteq> q) es;
          c = fold (\<lambda>_ c. removeAll p c) gone (cache m)
      in m\<lparr>cache := c, tree := takeWhile (\<lambda>e. fst e \<noteq> p) (tree m) @ drop (length gone) es\<rparr>)"

definition map_clear :: "'v AddrRangeMap \<Rightarrow> 'v AddrRangeMap" where
  "map_clear m = m\<lparr>cache := [], tree := []\<rparr>"

definition map_size :: "'v AddrRangeMap \<Rightarrow> nat" where
  "map_size m = length (tree m)"

definition map_empty :: "'v AddrRangeMap \<Rightarrow> bool" where
  "map_empty m \<longleftrightarrow> tree m = []"

definition map_new :: "'v AddrRangeMap" where
  "map_new = \<lparr>tree = [], cache = []\<rparr>"

text \<open>The value an iterator points to (\<^verbatim>\<open>it->second\<close>).\<close>

definition map_value :: "'v AddrRangeMap \<Rightarrow> AddrRange \<Rightarrow> 'v option" where
  "map_value m it = map_of (tree m) it"

section \<open>The contract of a lookup\<close>

text \<open>A decoder finds the key a request falls into. \<open>keys\<close> are the keys it holds, \<open>hit\<close> says that a
  request falls into a key, \<open>ok\<close> is its invariant and \<open>good\<close> the requests it is asked for.\<close>

locale addr_decoder =
  fixes lookup :: "'m \<Rightarrow> 'q \<Rightarrow> ('m \<times> 'k option) res"
    and keys :: "'m \<Rightarrow> 'k set"
    and hit :: "'q \<Rightarrow> 'k \<Rightarrow> bool"
    and good :: "'q \<Rightarrow> bool"
    and ok :: "'m \<Rightarrow> bool"
  assumes lookup_total: "ok m \<Longrightarrow> good q \<Longrightarrow> \<exists>m' k. lookup m q = Inr (m', k)"
    and lookup_keeps: "ok m \<Longrightarrow> good q \<Longrightarrow> lookup m q = Inr (m', r) \<Longrightarrow> ok m' \<and> keys m' = keys m"
    and lookup_some: "ok m \<Longrightarrow> good q \<Longrightarrow> lookup m q = Inr (m', Some k) \<Longrightarrow> k \<in> keys m \<and> hit q k"
    and lookup_none: "ok m \<Longrightarrow> good q \<Longrightarrow> lookup m q = Inr (m', None) \<Longrightarrow> k \<in> keys m \<Longrightarrow> \<not> hit q k"
    and hit_unique: "ok m \<Longrightarrow> good q \<Longrightarrow> k \<in> keys m \<Longrightarrow> k' \<in> keys m \<Longrightarrow> hit q k \<Longrightarrow> hit q k' \<Longrightarrow> k = k'"
begin

lemma lookup_iff:
  assumes "ok m" and "good q" and "lookup m q = Inr (m', r)"
  shows "r = Some k \<longleftrightarrow> k \<in> keys m \<and> hit q k"
  using assms lookup_some lookup_none hit_unique by (cases r) blast+

text \<open>What earlier lookups did to the internal state does not change an answer.\<close>

lemma lookup_stable:
  assumes "ok m" and "ok n" and "keys m = keys n" and "good q"
    and "lookup m q = Inr (m', r)" and "lookup n q = Inr (n', s)"
  shows "r = s"
proof (cases r)
  case None
  then show ?thesis using assms lookup_iff [of n q n' s] lookup_none [of m q m'] by (cases s) auto
next
  case (Some k)
  then have "k \<in> keys n \<and> hit q k" using assms lookup_iff [of m q m' r k] by simp
  then show ?thesis using Some assms lookup_iff [of n q n' s k] by simp
qed

end

section \<open>The invariant of the map\<close>

definition range_ok :: "AddrRange \<Rightarrow> bool" where
  "range_ok k \<longleftrightarrow> start_of k < end_of k \<and>
     (if interleaved k then \<exists>m \<in> set (masks k). \<exists>i<32. bit m i else intlvMatch k = 0)"

definition separate :: "AddrRange \<Rightarrow> AddrRange \<Rightarrow> bool" where
  "separate j k \<longleftrightarrow> mergesWith j k \<and> intlvMatch j \<noteq> intlvMatch k
     \<or> end_of j \<le> start_of k \<or> end_of k \<le> start_of j"

definition map_keys :: "'v AddrRangeMap \<Rightarrow> AddrRange set" where
  "map_keys m = fst ` set (tree m)"

definition map_ok :: "nat \<Rightarrow> 'v AddrRangeMap \<Rightarrow> bool" where
  "map_ok n m \<longleftrightarrow> sorted_wrt range_less (map fst (tree m))
     \<and> (\<forall>k \<in> map_keys m. range_ok k)
     \<and> (\<forall>j \<in> map_keys m. \<forall>k \<in> map_keys m. j \<noteq> k \<longrightarrow> separate j k)
     \<and> set (cache m) \<subseteq> map_keys m \<and> (n = 0 \<or> length (cache m) \<le> n)"

lemma contains_span: "contains k a \<Longrightarrow> start_of k \<le> a \<and> a < end_of k"
  by (simp add: contains_def split: if_splits)

lemma contains_separate:
  assumes "separate j k" and "contains j a" and "contains k a"
  shows False
proof -
  have "\<not> (end_of j \<le> start_of k)" "\<not> (end_of k \<le> start_of j)"
    using contains_span [OF assms(2)] contains_span [OF assms(3)]
    by (meson le_less_trans less_le_trans not_le)+
  then have "mergesWith j k" "intlvMatch j \<noteq> intlvMatch k" using assms(1) by (auto simp: separate_def)
  then show False using assms(2,3) by (auto simp: contains_def mergesWith_def word_unat_eq_iff split: if_splits)
qed

lemma map_ok_unique:
  "map_ok n m \<Longrightarrow> j \<in> map_keys m \<Longrightarrow> k \<in> map_keys m \<Longrightarrow> contains j a \<Longrightarrow> contains k a \<Longrightarrow> j = k"
  using contains_separate by (fastforce simp: map_ok_def)

lemma set_keys: "set (map fst (tree m)) = map_keys m"
  by (simp add: map_keys_def)

lemma takeWhile_sorted_le:
  "sorted (map f xs) \<Longrightarrow> takeWhile (\<lambda>x. f x \<le> (b :: 'b :: linorder)) xs = filter (\<lambda>x. f x \<le> b) xs"
proof (induction xs)
  case (Cons x xs)
  then show ?case by (auto intro!: filter_False [symmetric]) (meson order_trans)
qed simp

lemma sorted_start: "sorted_wrt range_less ks \<Longrightarrow> sorted (map start_of ks)"
  by (induction ks) (auto dest: range_less_start)

lemma not_range_less: "\<not> interleaved r \<Longrightarrow> \<not> range_less r e \<longleftrightarrow> start_of e \<le> start_of r"
  by (auto simp: range_less_def)

lemma before_bound_filter:
  "sorted_wrt range_less ks \<Longrightarrow> \<not> interleaved r \<Longrightarrow>
     before_bound r ks = filter (\<lambda>e. start_of e \<le> start_of r) ks"
  by (simp add: before_bound_def not_range_less sorted_start takeWhile_sorted_le)

lemma cache_find_pure: "\<forall>k \<in> set cs. cond k = Inr (c k) \<Longrightarrow> cache_find cond cs = Inr (List.find c cs)"
  by (induction cs) auto

lemma walk_back_sound:
  "\<forall>k \<in> set xs. cond k = Inr (c k) \<Longrightarrow>
     \<exists>x. walk_back cond xs = Inr x \<and> (\<forall>k. x = Some k \<longrightarrow> k \<in> set xs \<and> c k)"
proof (induction xs)
  case (Cons i xs)
  then show ?case by (cases xs) (auto split: if_splits)
qed simp

lemma walk_back_reaches:
  "\<forall>j \<in> set (ys @ k # zs). cond j = Inr (c j) \<Longrightarrow> c k \<Longrightarrow> \<forall>y \<in> set ys. \<not> c y \<and> mergesWith y k \<Longrightarrow>
     walk_back cond (ys @ k # zs) = Inr (Some k)"
proof (induction ys)
  case (Cons y ys)
  then have IH: "walk_back cond (ys @ k # zs) = Inr (Some k)" by simp
  obtain x xs where xs: "ys @ k # zs = x # xs" by (cases ys) auto
  have "mergesWith x k" using Cons.prems(3) xs by (cases ys) (auto simp: mergesWith_def)
  moreover have "mergesWith y k" "\<not> c y" "cond y = Inr (c y)" using Cons.prems by auto
  ultimately show ?case using IH xs by (simp add: mergesWith_def)
qed simp

lemma walk_back_finds:
  assumes ok: "map_ok n m" and r: "\<not> interleaved r"
    and cond: "\<forall>k \<in> map_keys m. cond k = Inr (c k) \<and> (c k \<longrightarrow> contains k (start_of r))"
    and k: "k \<in> map_keys m" "c k"
  shows "walk_back cond (rev (before_bound r (map fst (tree m)))) = Inr (Some k)"
proof -
  let ?ks = "map fst (tree m)"
  have sorted: "sorted_wrt range_less ?ks" using ok by (simp add: map_ok_def)
  have ck: "contains k (start_of r)" using cond k by blast
  have "k \<in> set (before_bound r ?ks)"
    using k(1) contains_span [OF ck] set_keys [of m] by (simp add: before_bound_filter [OF sorted r])
  then obtain zs ys where split: "before_bound r ?ks = zs @ k # ys" by (meson split_list)
  then have rev: "rev (before_bound r ?ks) = rev ys @ k # rev zs" by simp
  have mem: "set (zs @ k # ys) \<subseteq> map_keys m"
    using split set_keys [of m] by (metis before_bound_def set_takeWhileD subsetI)
  have "sorted_wrt range_less (zs @ k # ys)"
    using sorted split by (metis before_bound_def sorted_wrt_append takeWhile_dropWhile_id)
  then have later: "range_less k y" if "y \<in> set ys" for y using that by (simp add: sorted_wrt_append)
  have "\<not> c y \<and> mergesWith y k" if y: "y \<in> set ys" for y
  proof -
    have ym: "y \<in> map_keys m" using mem y by auto
    have ne: "y \<noteq> k" using later [OF y] by (auto simp: range_less_def split: if_splits)
    have "start_of y \<le> start_of r"
      using y split by (metis (no_types, lifting) append_Cons append_assoc before_bound_filter filter_is_subset
          in_set_conv_decomp mem_Collect_eq r set_filter sorted)
    then have "\<not> end_of k \<le> start_of y" using contains_span [OF ck] by (meson le_less_trans not_le order_trans)
    moreover have "\<not> end_of y \<le> start_of k"
      using range_less_start(1) [OF later [OF y]] ok ym
      by (auto simp: map_ok_def range_ok_def dest: less_le_trans)
    ultimately have "mergesWith y k" using ok ym k(1) ne by (auto simp: map_ok_def separate_def)
    moreover have "\<not> c y" using cond ym k(1) ck ne map_ok_unique [OF ok] by blast
    ultimately show ?thesis by blast
  qed
  then show ?thesis
    unfolding rev using cond mem k(2) by (intro walk_back_reaches [where c = c]) auto
qed

lemma map_ok_cache:
  "map_ok n m \<Longrightarrow> k \<in> map_keys m \<Longrightarrow> map_ok n (m\<lparr>cache := addNewEntryToCache n k (cache m)\<rparr>)"
  by (auto simp: map_ok_def map_keys_def addNewEntryToCache_def dest: in_set_butlastD)

lemma map_ok_promote:
  "map_ok n m \<Longrightarrow> k \<in> set (cache m) \<Longrightarrow> map_ok n (m\<lparr>cache := k # remove1 k (cache m)\<rparr>)"
  by (auto simp: map_ok_def map_keys_def length_remove1 dest: notin_set_remove1 set_remove1_subset [THEN subsetD])

lemma map_find_spec:
  assumes ok: "map_ok n m" and r: "\<not> interleaved r"
    and cond: "\<forall>k \<in> map_keys m. cond k = Inr (c k) \<and> (c k \<longrightarrow> contains k (start_of r))"
  shows "\<exists>m' x. map_find n m r cond = Inr (m', x) \<and> tree m' = tree m \<and> map_ok n m'
    \<and> (\<forall>k. x = Some k \<longleftrightarrow> k \<in> map_keys m \<and> c k)"
proof -
  have uniq: "c j \<Longrightarrow> c k \<Longrightarrow> j \<in> map_keys m \<Longrightarrow> k \<in> map_keys m \<Longrightarrow> j = k" for j k
    using map_ok_unique [OF ok] cond by blast
  have sub: "set (cache m) \<subseteq> map_keys m" using ok by (simp add: map_ok_def)
  have cf: "cache_find cond (cache m) = Inr (List.find c (cache m))"
    using cond sub by (intro cache_find_pure) auto
  show ?thesis
  proof (cases "List.find c (cache m)")
    case (Some it)
    then have it: "it \<in> set (cache m)" "c it" by (auto simp: find_Some_iff)
    then have "x = Some k \<longleftrightarrow> k \<in> map_keys m \<and> c k" if "x = Some it" for k x
      using that uniq sub by auto
    then show ?thesis
      using Some cf map_ok_promote [OF ok it(1)] by (simp add: map_find_def)
  next
    case None
    let ?ks = "map fst (tree m)"
    have nxt: "\<not> c e" "cond e = Inr False" if "upper_bound r ?ks = e # es" for e es
    proof -
      have "range_less r e" using that hd_dropWhile [of "\<lambda>e. \<not> range_less r e" ?ks]
        by (auto simp: upper_bound_def)
      then have "start_of r < start_of e" using not_range_less [OF r, of e] by auto
      then have "\<not> contains e (start_of r)" using contains_span by (meson not_le)
      moreover have "e \<in> map_keys m"
        using that set_keys [of m] by (metis list.set_intros(1) set_dropWhileD upper_bound_def)
      ultimately show "\<not> c e" "cond e = Inr False" using cond by auto
    qed
    have bb: "set (rev (before_bound r ?ks)) \<subseteq> map_keys m"
      using set_keys [of m] by (auto simp: before_bound_def dest: set_takeWhileD)
    obtain x where x: "walk_back cond (rev (before_bound r ?ks)) = Inr x"
      and sound: "\<forall>k. x = Some k \<longrightarrow> k \<in> map_keys m \<and> c k"
      using walk_back_sound [of "rev (before_bound r ?ks)" cond c] cond bb by blast
    have "x = Some k" if "k \<in> map_keys m" "c k" for k
      using walk_back_finds [OF ok r cond that] x by simp
    with sound have iff: "\<forall>k. x = Some k \<longleftrightarrow> k \<in> map_keys m \<and> c k" by blast
    have "map_find n m r cond = (case x of
        Some it \<Rightarrow> Inr (m\<lparr>cache := addNewEntryToCache n it (cache m)\<rparr>, Some it) | None \<Rightarrow> Inr (m, None))"
      using None cf x nxt by (cases "upper_bound r ?ks") (simp_all add: map_find_def Let_def)
    moreover have "map_ok n (m\<lparr>cache := addNewEntryToCache n it (cache m)\<rparr>)" if "x = Some it" for it
      using that iff map_ok_cache [OF ok] by blast
    ultimately show ?thesis using iff ok by (cases x) simp_all
  qed
qed

section \<open>Lookups\<close>

definition subset_hit :: "AddrRange \<Rightarrow> AddrRange \<Rightarrow> bool" where
  "subset_hit r k \<longleftrightarrow> isSubset r k = Inr True"

lemma isSubset_total: "\<not> interleaved r \<Longrightarrow> isSubset r k = Inr (subset_hit r k)"
  by (simp add: isSubset_def subset_hit_def)

lemma subset_hit_start:
  assumes "range_ok k" and "subset_hit r k"
  shows "contains k (start_of r)"
proof -
  have k: "start_of k < end_of k" "\<not> end_of k \<le> start_of k" "end_of k \<noteq> 0"
    using assms(1) by (auto simp: range_ok_def not_le)
  show ?thesis
  proof (cases "interleaved k")
    case True
    then show ?thesis using assms(2) by (simp add: subset_hit_def isSubset_def split: if_splits)
  next
    case False
    then have "start_of k \<le> start_of r \<and> \<not> end_of r \<le> start_of r \<and> end_of r \<le> end_of k"
      using assms(2) k by (simp add: subset_hit_def isSubset_def split: if_splits)
    then have "start_of k \<le> start_of r \<and> start_of r < end_of k" by (meson less_le_trans not_le)
    then show ?thesis using False assms(1) by (simp add: contains_plain range_ok_def)
  qed
qed

lemma map_contains_spec:
  assumes "map_ok n m" and "\<not> interleaved r"
  shows "\<exists>m' x. map_contains n m r = Inr (m', x) \<and> tree m' = tree m \<and> map_ok n m'
    \<and> (\<forall>k. x = Some k \<longleftrightarrow> k \<in> map_keys m \<and> subset_hit r k)"
  unfolding map_contains_def
  using assms isSubset_total subset_hit_start
  by (intro map_find_spec) (auto simp: map_ok_def)

interpretation range_map: addr_decoder "map_contains n" map_keys subset_hit
  "\<lambda>r. \<not> interleaved r" "map_ok n" for n
proof
  fix m :: "'v AddrRangeMap" and r m' x k k'
  assume ok: "map_ok n m" and r: "\<not> interleaved r"
  note spec = map_contains_spec [OF ok r]
  show "\<exists>m' k. map_contains n m r = Inr (m', k)" using spec by blast
  show "map_contains n m r = Inr (m', x) \<Longrightarrow> map_ok n m' \<and> map_keys m' = map_keys m"
    using spec by (auto simp: map_keys_def)
  show "map_contains n m r = Inr (m', Some k) \<Longrightarrow> k \<in> map_keys m \<and> subset_hit r k"
    using spec by auto
  show "map_contains n m r = Inr (m', None) \<Longrightarrow> k \<in> map_keys m \<Longrightarrow> \<not> subset_hit r k"
    using spec by auto
  show "k \<in> map_keys m \<Longrightarrow> k' \<in> map_keys m \<Longrightarrow> subset_hit r k \<Longrightarrow> subset_hit r k' \<Longrightarrow> k = k'"
    using map_ok_unique [OF ok] subset_hit_start ok [unfolded map_ok_def] by metis
qed

lemma RangeSize_1_hit: "range_ok k \<Longrightarrow> subset_hit (RangeSize a 1) k \<longleftrightarrow> contains k a"
proof
  assume k: "range_ok k"
  show "subset_hit (RangeSize a 1) k \<Longrightarrow> contains k a"
    using subset_hit_start [OF k, of "RangeSize a 1"] by (simp add: RangeSize_def)
  assume c: "contains k a"
  show "subset_hit (RangeSize a 1) k"
  proof (cases "interleaved k")
    case True
    then obtain i where "i < 32" "granularity k = 2 ^ i" using k granularity_low [of k] by (auto simp: range_ok_def)
    then have "1 \<le> granularity k" by (simp add: word_le_nat_alt unat_exp)
    then show ?thesis using True c by (simp add: subset_hit_def isSubset_def RangeSize_def range_size_def)
  next
    case False
    have a: "start_of k \<le> a" "a < end_of k" using contains_span [OF c] by auto
    then have "unat (a + 1) = unat a + 1"
      using unsigned_less [of "end_of k", where 'a = nat] by (simp add: word_less_nat_alt unat_plus_if')
    then have "\<not> a + 1 \<le> a" "a + 1 \<le> end_of k" using a by (simp_all add: word_le_nat_alt word_less_nat_alt)
    moreover have "\<not> end_of k \<le> start_of k" using k by (simp add: range_ok_def not_le)
    ultimately show ?thesis using False a by (simp add: subset_hit_def isSubset_def RangeSize_def)
  qed
qed

text \<open>
  C21: an address lookup in a well-formed map always returns. It yields the one range that
  contains the address, or nothing when no range does, whatever the cache holds. The entries and
  the well-formedness are unchanged.
\<close>

theorem map_lookup_correct:
  assumes "map_ok n m"
  shows "\<exists>m' x. map_contains_addr n m a = Inr (m', x) \<and> tree m' = tree m \<and> map_ok n m'
    \<and> (\<forall>k. x = Some k \<longleftrightarrow> k \<in> map_keys m \<and> contains k a)"
proof -
  have "\<not> interleaved (RangeSize a 1)" by (simp add: RangeSize_def)
  moreover have "k \<in> map_keys m \<Longrightarrow> subset_hit (RangeSize a 1) k \<longleftrightarrow> contains k a" for k
    using assms by (simp add: RangeSize_1_hit map_ok_def)
  ultimately show ?thesis
    using map_contains_spec [OF assms] unfolding map_contains_addr_def by (metis (no_types, lifting))
qed

definition two_stripes :: "nat AddrRangeMap" where
  "two_stripes = \<lparr>tree = [(\<lparr>start_of = 0, end_of = 0x1000, masks = [0x40], intlvMatch = 0\<rparr>, 10),
      (\<lparr>start_of = 0, end_of = 0x1000, masks = [0x40], intlvMatch = 1\<rparr>, 11), (mkRange 0x2000 0x3000, 12)],
    cache = [mkRange 0x2000 0x3000]\<rparr>"

lemma two_stripes_ok: "map_ok 2 two_stripes"
proof -
  have "bit (0x40 :: Addr) 6" by code_simp
  then have "\<exists>i<32. bit (0x40 :: Addr) i" by (intro exI [of _ 6]) simp
  then show ?thesis
    by (auto simp: map_ok_def two_stripes_def map_keys_def range_ok_def separate_def mergesWith_def
        range_less_def interleaved_def)
qed

theorem map_lookup_correct_witness:
  "\<exists>m' x. map_contains_addr 2 two_stripes 0x1c4 = Inr (m', x) \<and> tree m' = tree two_stripes \<and> map_ok 2 m'
    \<and> (\<forall>k. x = Some k \<longleftrightarrow> k \<in> map_keys two_stripes \<and> contains k 0x1c4)"
  by (rule map_lookup_correct [OF two_stripes_ok])

section \<open>Insertion and removal\<close>

lemma range_less_trans: "range_less a b \<Longrightarrow> range_less b c \<Longrightarrow> range_less a c"
  by (auto simp: range_less_def split: if_splits)

lemma tree_insert_spec:
  "sorted_wrt range_less (map fst t) \<Longrightarrow> \<forall>k \<in> fst ` set t. range_less r k \<or> range_less k r \<Longrightarrow>
     \<exists>t'. tree_insert r d t = (t', r) \<and> set t' = insert (r, d) (set t) \<and> sorted_wrt range_less (map fst t')
       \<and> (r \<notin> fst ` set t \<longrightarrow> map_of t' = (map_of t)(r \<mapsto> d))"
proof (induction t)
  case (Cons e t)
  show ?case
  proof (cases "range_less r (fst e)")
    case True
    then show ?thesis using Cons.prems(1) by (auto intro: range_less_trans)
  next
    case False
    then have "range_less (fst e) r" using Cons.prems(2) by auto
    moreover have "\<exists>t'. tree_insert r d t = (t', r) \<and> set t' = insert (r, d) (set t) \<and>
        sorted_wrt range_less (map fst t') \<and> (r \<notin> fst ` set t \<longrightarrow> map_of t' = (map_of t)(r \<mapsto> d))"
      using Cons by (intro Cons.IH) auto
    then obtain t' where "tree_insert r d t = (t', r)" "set t' = insert (r, d) (set t)"
      "sorted_wrt range_less (map fst t')" "r \<notin> fst ` set t \<longrightarrow> map_of t' = (map_of t)(r \<mapsto> d)"
      by blast
    ultimately show ?thesis using False Cons.prems(1) by (cases e) auto
  qed
qed simp

text \<open>Two nonempty plain ranges overlap.\<close>

definition overlap :: "AddrRange \<Rightarrow> AddrRange \<Rightarrow> bool" where
  "overlap r k \<longleftrightarrow> \<not> (start_of r \<ge> end_of k \<or> end_of r \<le> start_of k)"

definition all_plain :: "'v AddrRangeMap \<Rightarrow> bool" where
  "all_plain m \<longleftrightarrow> (\<forall>k \<in> map_keys m. plain k)"

lemma intersects_plain: "plain r \<Longrightarrow> plain k \<Longrightarrow> intersects r k = Inr (overlap r k)"
  by (simp add: intersects_def overlap_def plain_def)

lemma plain_range_ok: "plain r \<Longrightarrow> start_of r < end_of r \<Longrightarrow> range_ok r"
  by (simp add: range_ok_def plain_def)

lemma plain_merges_eq: "plain j \<Longrightarrow> plain k \<Longrightarrow> mergesWith j k \<Longrightarrow> j = k"
  by (simp add: plain_def mergesWith_def)

lemma plain_disjoint:
  assumes "map_ok n m" "all_plain m" "j \<in> map_keys m" "k \<in> map_keys m" "j \<noteq> k" "start_of j \<le> start_of k"
  shows "end_of j \<le> start_of k"
proof -
  have "separate j k" "plain j" "plain k" "start_of k < end_of k"
    using assms by (auto simp: map_ok_def all_plain_def range_ok_def)
  moreover have "\<not> end_of k \<le> start_of j" using assms(6) \<open>start_of k < end_of k\<close> by (meson less_le_trans not_le)
  ultimately show ?thesis using plain_merges_eq assms(5) by (auto simp: separate_def)
qed

lemma map_intersects_spec:
  assumes ok: "map_ok n m" and plain: "all_plain m" and r: "plain r" "start_of r < end_of r"
  shows "\<exists>m' x. map_intersects n m r = Inr (m', x) \<and> tree m' = tree m \<and> map_ok n m'
    \<and> (x = None \<longleftrightarrow> (\<forall>k \<in> map_keys m. \<not> overlap r k))"
proof -
  let ?ks = "map fst (tree m)" and ?c = "overlap r"
  have nr: "\<not> interleaved r" using r(1) by (simp add: plain_def)
  have sorted: "sorted_wrt range_less ?ks" using ok by (simp add: map_ok_def)
  have cond: "intersects r k = Inr (?c k)" if "k \<in> map_keys m" for k
    using that r(1) plain by (simp add: intersects_plain all_plain_def)
  have sub: "set (cache m) \<subseteq> map_keys m" using ok by (simp add: map_ok_def)
  have cf: "cache_find (intersects r) (cache m) = Inr (List.find ?c (cache m))"
    using cond sub by (intro cache_find_pure) auto
  have memb: "set (before_bound r ?ks) \<subseteq> map_keys m" "set (upper_bound r ?ks) \<subseteq> map_keys m"
    using set_keys [of m] by (auto simp: before_bound_def upper_bound_def dest: set_takeWhileD set_dropWhileD)
  have all: "map_keys m = set (before_bound r ?ks) \<union> set (upper_bound r ?ks)"
    unfolding before_bound_def upper_bound_def set_append [symmetric] takeWhile_dropWhile_id by (rule set_keys [symmetric])
  have sorted2: "sorted_wrt range_less (before_bound r ?ks @ upper_bound r ?ks)"
    using sorted by (simp add: before_bound_def upper_bound_def)
  show ?thesis
  proof (cases "List.find ?c (cache m)")
    case (Some it)
    then have it: "it \<in> set (cache m)" "?c it" by (auto simp: find_Some_iff)
    then show ?thesis
      using Some cf map_ok_promote [OF ok it(1)] sub by (auto simp: map_intersects_def map_find_def)
  next
    case None
    have later: "\<not> ?c k" if e: "upper_bound r ?ks = e # es" "\<not> ?c e" and k: "k \<in> set (e # es)" for e es k
    proof -
      have "range_less r e" using e(1) hd_dropWhile [of "\<lambda>e. \<not> range_less r e" ?ks] by (auto simp: upper_bound_def)
      then have "start_of r < start_of e" using not_range_less [OF nr, of e] by auto
      moreover have "e \<in> map_keys m" using memb(2) e(1) by auto
      then have "start_of e < end_of e" using ok by (simp add: map_ok_def range_ok_def)
      ultimately have "end_of r \<le> start_of e" using e(2) by (auto simp: overlap_def dest: less_trans)
      moreover have "start_of e \<le> start_of k"
        using k sorted2 e(1) by (auto simp: sorted_wrt_append dest: range_less_start)
      ultimately show ?thesis by (auto simp: overlap_def)
    qed
    have earlier: "\<not> ?c k" if l: "before_bound r ?ks = ls @ [l]" "\<not> ?c l" and k: "k \<in> set (ls @ [l])" for l ls k
    proof (cases "k = l")
      case False
      then have "range_less k l" using k sorted2 l(1) by (auto simp: sorted_wrt_append)
      moreover have "k \<in> map_keys m" "l \<in> map_keys m" using memb(1) l(1) k by auto
      ultimately have "end_of k \<le> start_of l"
        using plain_disjoint [OF ok plain] False range_less_start(1) by blast
      moreover have "l \<in> set (before_bound r ?ks)" using l(1) by simp
      then have "start_of l \<le> start_of r" by (simp add: before_bound_filter [OF sorted nr])
      ultimately show ?thesis by (auto simp: overlap_def)
    qed (use l in simp)
    have wb: "walk_back (intersects r) (rev (before_bound r ?ks))
        = Inr (if before_bound r ?ks \<noteq> [] \<and> ?c (last (before_bound r ?ks)) then Some (last (before_bound r ?ks)) else None)"
    proof (cases "before_bound r ?ks" rule: rev_cases)
      case (snoc ls l)
      have l: "l \<in> map_keys m" using memb(1) snoc by auto
      have "\<not> mergesWith x l" if "rev ls = x # xs" for x xs
      proof -
        have "x \<in> set ls" using that by (metis list.set_intros(1) set_rev)
        then have "x \<in> map_keys m" "range_less x l" using memb(1) snoc sorted2 by (auto simp: sorted_wrt_append)
        then show ?thesis
          using plain_merges_eq [of x l] plain l by (auto simp: all_plain_def range_less_def split: if_splits)
      qed
      then show ?thesis using snoc cond [OF l] by (auto split: list.splits)
    qed simp
    have none_before: "\<forall>k \<in> set (before_bound r ?ks). \<not> ?c k"
      if "before_bound r ?ks \<noteq> [] \<longrightarrow> \<not> ?c (last (before_bound r ?ks))"
      using that earlier by (cases "before_bound r ?ks" rule: rev_cases) auto
    have last_in: "before_bound r ?ks \<noteq> [] \<Longrightarrow> last (before_bound r ?ks) \<in> map_keys m"
      using memb(1) by auto
    obtain w where wb': "walk_back (intersects r) (rev (before_bound r ?ks)) = Inr w"
      and w: "w = None \<longleftrightarrow> (\<forall>k \<in> set (before_bound r ?ks). \<not> ?c k)" "\<And>k. w = Some k \<Longrightarrow> k \<in> map_keys m"
      using wb none_before last_in
      by (cases "before_bound r ?ks \<noteq> [] \<and> ?c (last (before_bound r ?ks))")
        (auto dest: bexI [OF _ last_in_set])
    define result :: "AddrRange option \<Rightarrow> (_ \<times> AddrRange option) res" where "result = (\<lambda>x. case x of
        Some it \<Rightarrow> Inr (m\<lparr>cache := addNewEntryToCache n it (cache m)\<rparr>, Some it) | None \<Rightarrow> Inr (m, None))"
    have "\<exists>x. map_intersects n m r = result x \<and> (x = None \<longleftrightarrow> (\<forall>k \<in> map_keys m. \<not> ?c k))
        \<and> (\<forall>k. x = Some k \<longrightarrow> k \<in> map_keys m)"
    proof (cases "upper_bound r ?ks")
      case Nil
      then have keys: "map_keys m = set (before_bound r ?ks)" using all by simp
      have "map_intersects n m r = result w"
        unfolding map_intersects_def map_find_def Let_def Nil cf wb' None result_def by simp
      then show ?thesis unfolding keys using w keys by (intro exI [of _ w]) simp
    next
      case (Cons e es)
      then have e: "e \<in> map_keys m" using memb(2) by auto
      show ?thesis
      proof (cases "?c e")
        case True
        then have "map_intersects n m r = result (Some e)"
          unfolding map_intersects_def map_find_def Let_def Cons cf wb' None result_def
          using cond [OF e] by simp
        then show ?thesis using True e by (intro exI [of _ "Some e"]) auto
      next
        case False
        then have "\<forall>k \<in> set (upper_bound r ?ks). \<not> ?c k" using later [OF Cons] Cons by simp
        then have "w = None \<longleftrightarrow> (\<forall>k \<in> map_keys m. \<not> ?c k)" using w(1) all by blast
        moreover have "map_intersects n m r = result w"
          unfolding map_intersects_def map_find_def Let_def Cons cf wb' None result_def
          using cond [OF e] False by simp
        ultimately show ?thesis using w(2) by blast
      qed
    qed
    then obtain x where x: "map_intersects n m r = result x" "x = None \<longleftrightarrow> (\<forall>k \<in> map_keys m. \<not> ?c k)"
      "\<forall>k. x = Some k \<longrightarrow> k \<in> map_keys m" by blast
    show ?thesis
    proof (cases x)
      case None
      then show ?thesis using x ok by (simp add: result_def)
    next
      case (Some it)
      then show ?thesis using x map_ok_cache [OF ok, of it] by (simp add: result_def)
    qed
  qed
qed



lemma map_erase_ok: "map_ok n m \<Longrightarrow> map_ok n (map_erase m p) \<and> map_keys (map_erase m p) = map_keys m - {p}"
proof -
  have "sorted_wrt range_less (map fst (filter P t))" if "sorted_wrt range_less (map fst t)"
    for P and t :: "(AddrRange \<times> 'v) list"
    using that by (induction t) auto
  moreover have keys: "map_keys (map_erase m p) = map_keys m - {p}" by (auto simp: map_keys_def map_erase_def)
  moreover assume "map_ok n m"
  ultimately show ?thesis
    by (auto simp: map_ok_def keys) (auto simp: map_erase_def intro: order_trans [OF length_removeAll_less_eq])
qed

text \<open>Erasing a whole range of entries leaves the later ones in the cache, where the next lookup
  still finds them.\<close>

definition two_cached :: "nat AddrRangeMap" where
  "two_cached = \<lparr>tree = [(mkRange 0 10, 1), (mkRange 20 30, 2)], cache = [mkRange 20 30, mkRange 0 10]\<rparr>"

lemma erase_range_leaves_stale:
  "map_ok 2 two_cached \<and> tree (map_erase_range two_cached (mkRange 0 10) None) = []
    \<and> cache (map_erase_range two_cached (mkRange 0 10) None) = [mkRange 20 30]"
proof
  show "map_ok 2 two_cached"
    by (auto simp: two_cached_def map_ok_def map_keys_def range_ok_def separate_def range_less_def)
  have "mkRange 20 30 \<noteq> mkRange 0 10" by (simp add: mkRange_def)
  then show "tree (map_erase_range two_cached (mkRange 0 10) None) = []
    \<and> cache (map_erase_range two_cached (mkRange 0 10) None) = [mkRange 20 30]"
    by (simp add: two_cached_def map_erase_range_def Let_def)
qed

end
