(* ===== verification/Chunk_Gen.thy ===== *)
theory Chunk_Gen
  imports Bit_Utils
begin

text \<open>
  The class \<^verbatim>\<open>ChunkGenerator\<close> of \<^verbatim>\<open>base/chunk_generator.hh\<close>, which cuts an address region into chunks
  that do not cross the boundaries of a power-of-two chunk size. The DMA port walks it to split a
  transfer into packets. The theory shows that the walk ends and that the chunks tile the region.
\<close>

section \<open>The generator\<close>

record ChunkGenerator =
  curAddr :: Addr
  nextAddr :: Addr
  curSize :: Addr
  nextSize :: Addr
  sizeLeft :: Addr
  startAddr :: Addr
  chunkSize :: Addr

definition newChunkGenerator :: "Addr \<Rightarrow> Addr \<Rightarrow> Addr \<Rightarrow> ChunkGenerator res" where
  "newChunkGenerator start totalSize chunk =
     ensure (chunk = 0 \<or> isPowerOf2 chunk) AssertFail
       (rbind (if chunk = 0 then Inr (start + totalSize)
               else rbind (roundUp start chunk) (\<lambda>n.
                 let n = (if start = n then n + chunk else n) in Inr (min n (start + totalSize))))
         (\<lambda>nxt.
           let cs = nxt - start; left = totalSize - cs
           in Inr \<lparr>curAddr = start, nextAddr = nxt, curSize = cs, nextSize = min left chunk,
                   sizeLeft = left, startAddr = start, chunkSize = chunk\<rparr>))"

definition complete :: "ChunkGenerator \<Rightarrow> Addr" where
  "complete g = curAddr g - startAddr g"

definition gen_done :: "ChunkGenerator \<Rightarrow> bool" where
  "gen_done g \<longleftrightarrow> curSize g = 0"

definition gen_last :: "ChunkGenerator \<Rightarrow> bool" where
  "gen_last g \<longleftrightarrow> sizeLeft g = 0"

definition setNext :: "ChunkGenerator \<Rightarrow> Addr \<Rightarrow> ChunkGenerator res" where
  "setNext g nxt =
     ensure (nxt \<ge> nextAddr g) AssertFail
       (let skipping = min (nxt - nextAddr g) (sizeLeft g);
            g = g\<lparr>sizeLeft := sizeLeft g - skipping, curSize := curSize g + skipping, nextAddr := nxt\<rparr>
        in ensure (chunkSize g \<noteq> 0) AssertFail
             (rbind (roundUp nxt (chunkSize g)) (\<lambda>r.
               let ns = r - nxt
               in Inr (g\<lparr>nextSize := (if ns = 0 then min (sizeLeft g) (chunkSize g) else ns)\<rparr>))))"

definition gen_next :: "ChunkGenerator \<Rightarrow> ChunkGenerator \<times> bool" where
  "gen_next g =
     (if gen_last g then (g\<lparr>curSize := 0\<rparr>, False)
      else
        (let left = sizeLeft g - nextSize g
         in (g\<lparr>curAddr := nextAddr g, curSize := nextSize g, sizeLeft := left,
               nextAddr := nextAddr g + nextSize g, nextSize := min left (chunkSize g)\<rparr>, True)))"

text \<open>The walk every client performs, as the list of the chunks it visits; \<open>None\<close> when the fuel runs
  out first.\<close>

fun chunks :: "nat \<Rightarrow> ChunkGenerator \<Rightarrow> (Addr \<times> Addr) list option" where
  "chunks 0 g = None"
| "chunks (Suc n) g =
     (if gen_done g then Some []
      else map_option (Cons (curAddr g, curSize g)) (chunks n (fst (gen_next g))))"

section \<open>The invariant of the walk\<close>

text \<open>\<open>e\<close> is the end of the region and \<open>c\<close> the chunk size, as natural numbers.\<close>

definition gen_inv :: "nat \<Rightarrow> nat \<Rightarrow> ChunkGenerator \<Rightarrow> bool" where
  "gen_inv e c g \<longleftrightarrow> e < 2 ^ 64 \<and> 0 < c \<and> unat (chunkSize g) = c
     \<and> unat (nextAddr g) = unat (curAddr g) + unat (curSize g)
     \<and> unat (nextAddr g) + unat (sizeLeft g) = e
     \<and> unat (nextSize g) = min (unat (sizeLeft g)) c
     \<and> (sizeLeft g \<noteq> 0 \<longrightarrow> c dvd unat (nextAddr g))
     \<and> (curSize g \<noteq> 0 \<longrightarrow> unat (curAddr g) div c = (unat (curAddr g) + unat (curSize g) - 1) div c)
     \<and> (curSize g = 0 \<longrightarrow> sizeLeft g = 0)"

lemma same_block: "(c::nat) dvd a \<Longrightarrow> 0 < l \<Longrightarrow> l \<le> c \<Longrightarrow> a div c = (a + l - 1) div c"
proof -
  assume a: "c dvd a" and l: "0 < l" "l \<le> c"
  then obtain k where "a = k * c" by (auto simp: dvd_def mult.commute)
  moreover have "k * c + l - 1 = k * c + (l - 1)" using l by simp
  moreover have "(k * c + (l - 1)) div c = k" using l by (subst div_mult_self3) auto
  ultimately show ?thesis using l by (metis nonzero_mult_div_cancel_right not_less_zero le_zero_eq)
qed

lemma unat_min: "unat (min x y) = min (unat x) (unat (y :: Addr))"
  by (simp add: min_def word_le_nat_alt)

lemma gen_next_inv:
  assumes "gen_inv e c g" and "\<not> gen_last g"
  shows "gen_inv e c (fst (gen_next g))" and "curAddr (fst (gen_next g)) = nextAddr g"
    and "unat (sizeLeft (fst (gen_next g))) < unat (sizeLeft g)"
proof -
  define left where "left = sizeLeft g - nextSize g"
  have i: "e < 2 ^ 64" "0 < c" "unat (chunkSize g) = c" "unat (nextAddr g) + unat (sizeLeft g) = e"
    "unat (nextSize g) = min (unat (sizeLeft g)) c" "c dvd unat (nextAddr g)"
    using assms by (auto simp: gen_inv_def gen_last_def)
  have pos: "0 < unat (sizeLeft g)" using assms(2) by (simp add: gen_last_def unat_gt_0)
  have le: "nextSize g \<le> sizeLeft g" using i(5) by (simp add: word_le_nat_alt)
  have left: "unat left = unat (sizeLeft g) - unat (nextSize g)"
    using le by (simp add: left_def unat_sub_if' word_le_nat_alt)
  have sum: "unat (nextAddr g + nextSize g) = unat (nextAddr g) + unat (nextSize g)"
    using i(1,4,5) by (intro unat_add_small) linarith
  have g': "fst (gen_next g) = g\<lparr>curAddr := nextAddr g, curSize := nextSize g, sizeLeft := left,
      nextAddr := nextAddr g + nextSize g, nextSize := min left (chunkSize g)\<rparr>"
    using assms(2) by (simp add: gen_next_def left_def Let_def)
  have ns: "0 < unat (nextSize g)" "unat (nextSize g) \<le> c" using pos i(2,5) by auto
  have full: "unat (nextSize g) = c" if "left \<noteq> 0" using that left i(5) by (auto simp: unat_gt_0 [symmetric] min_def split: if_splits)
  have nz: "nextSize g \<noteq> 0" using ns(1) by auto
  have "c dvd unat (nextAddr g) + unat (nextSize g)" if "left \<noteq> 0" using full [OF that] i(6) by simp
  moreover have "unat (nextAddr g) + unat (nextSize g) + unat left = e" using left i(4,5) by simp
  ultimately show "gen_inv e c (fst (gen_next g))"
    using i(1-3) nz same_block [OF i(6) ns] by (simp add: g' gen_inv_def sum unat_min)
  show "curAddr (fst (gen_next g)) = nextAddr g" by (simp add: g')
  show "unat (sizeLeft (fst (gen_next g))) < unat (sizeLeft g)" using left ns(1) i(5) by (simp add: g')
qed

text \<open>Consecutive nonempty chunks from one address to another, none of which crosses a multiple
  of \<open>c\<close>.\<close>

fun tiles :: "nat \<Rightarrow> nat \<Rightarrow> (Addr \<times> Addr) list \<Rightarrow> nat \<Rightarrow> bool" where
  "tiles c a [] e \<longleftrightarrow> a = e"
| "tiles c a ((x, l) # cs) e \<longleftrightarrow> unat x = a \<and> 0 < unat l \<and> a div c = (a + unat l - 1) div c
     \<and> tiles c (a + unat l) cs e"

lemma chunks_tile:
  "gen_inv e c g \<Longrightarrow> unat (sizeLeft g) + 1 < n \<Longrightarrow> \<exists>cs. chunks n g = Some cs \<and> tiles c (unat (curAddr g)) cs e"
proof (induction n arbitrary: g)
  case (Suc n)
  have inv: "unat (nextAddr g) = unat (curAddr g) + unat (curSize g)" "unat (nextAddr g) + unat (sizeLeft g) = e"
    "curSize g \<noteq> 0 \<Longrightarrow> unat (curAddr g) div c = (unat (curAddr g) + unat (curSize g) - 1) div c"
    "curSize g = 0 \<Longrightarrow> sizeLeft g = 0"
    using Suc.prems(1) by (auto simp: gen_inv_def)
  show ?case
  proof (cases "gen_done g")
    case True
    then show ?thesis using inv by (simp add: gen_done_def)
  next
    case False
    then have pos: "0 < unat (curSize g)" "curSize g \<noteq> 0" by (auto simp: gen_done_def unat_gt_0)
    show ?thesis
    proof (cases "gen_last g")
      case True
      then obtain k where "n = Suc k" using Suc.prems(2) by (cases n) auto
      then show ?thesis
        using True False pos inv by (auto simp: gen_next_def gen_done_def gen_last_def)
    next
      case notlast: False
      have "\<exists>cs. chunks n (fst (gen_next g)) = Some cs \<and> tiles c (unat (nextAddr g)) cs e"
        using Suc.IH [OF gen_next_inv(1) [OF Suc.prems(1) notlast]] gen_next_inv(2,3) [OF Suc.prems(1) notlast] Suc.prems(2)
        by simp
      then show ?thesis using False pos inv by auto
    qed
  qed
qed simp

lemma next_boundary:
  fixes c s :: nat
  assumes "0 < c"
  defines "r \<equiv> (s + c - 1) div c * c"
  defines "n \<equiv> (if s = r then r + c else r)"
  shows "s < n" and "n \<le> s + c" and "c dvd n" and "s div c = (n - 1) div c"
proof -
  have s: "s = s div c * c + s mod c" by simp
  have m: "s mod c < c" using assms(1) by simp
  have n: "n = s div c * c + c"
  proof (cases "s mod c = 0")
    case True
    then have "s = s div c * c" using s by simp
    moreover have "(s div c * c + c - 1) div c = s div c"
      using same_block [of c "s div c * c" c] assms(1) by simp
    ultimately show ?thesis by (simp add: n_def r_def)
  next
    case False
    have "(s div c + 1) * c = s div c * c + c" by simp
    then have "s + c - 1 = (s div c + 1) * c + (s mod c - 1)" using s False by linarith
    moreover have "((s div c + 1) * c + (s mod c - 1)) div c = s div c + 1"
    proof -
      have "(s mod c - 1) div c = 0" using m by (intro div_less) linarith
      then show ?thesis using assms(1) by (subst div_mult_self3) auto
    qed
    ultimately have "r = s div c * c + c" by (simp add: r_def)
    moreover have "s \<noteq> r" using m s \<open>r = s div c * c + c\<close> by linarith
    ultimately show ?thesis by (simp add: n_def)
  qed
  show "s < n" "n \<le> s + c" using n s m by linarith+
  show "c dvd n" using n by simp
  have "s div c * c + c - 1 = s div c * c + (c - 1)" using assms(1) by simp
  moreover have "(s div c * c + (c - 1)) div c = s div c" using assms(1) by (subst div_mult_self3) auto
  ultimately show "s div c = (n - 1) div c" using n by simp
qed

lemma newChunkGenerator_inv:
  assumes k: "k < 64" and chunk: "chunk = 2 ^ k"
    and fits: "unat start + unat total_size < 2 ^ 64" "unat start + 2 ^ k < 2 ^ 64"
  shows "\<exists>g. newChunkGenerator start total_size chunk = Inr g \<and> gen_inv (unat start + unat total_size) (2 ^ k) g
    \<and> curAddr g = start \<and> startAddr g = start \<and> chunkSize g = chunk"
proof -
  let ?c = "2 ^ k :: nat"
  obtain r where r: "roundUp start chunk = Inr r" "unat r = (unat start + ?c - 1) div ?c * ?c"
    using roundUp_spec [OF k, of start] fits(2) chunk by auto
  define n where "n = (if start = r then r + chunk else r)"
  define N where "N = (if unat start = unat r then unat r + ?c else unat r)"
  have b: "unat start < N" "N \<le> unat start + ?c" "?c dvd N" "unat start div ?c = (N - 1) div ?c"
    unfolding N_def r(2) by (rule next_boundary, simp)+
  have c: "unat chunk = ?c" using chunk k by (simp add: unat_exp)
  have N: "unat n = N"
  proof (cases "start = r")
    case True
    then show ?thesis using fits(2) c by (simp add: n_def N_def unat_add_small)
  next
    case False
    then show ?thesis by (simp add: n_def N_def word_unat_eq_iff)
  qed
  have e: "unat (start + total_size) = unat start + unat total_size" using fits(1) by (rule unat_add_small)
  define nxt where "nxt = min n (start + total_size)"
  have nxt: "unat nxt = min N (unat start + unat total_size)" by (simp add: nxt_def unat_min N e)
  have "start \<le> nxt" using nxt b(1) by (simp add: word_le_nat_alt)
  then have cs: "unat (nxt - start) = unat nxt - unat start" by (simp add: unat_sub_if' word_le_nat_alt)
  have "nxt - start \<le> total_size" using cs nxt by (simp add: word_le_nat_alt)
  then have left: "unat (total_size - (nxt - start)) = unat total_size - (unat nxt - unat start)"
    using cs by (simp add: unat_sub_if' word_le_nat_alt)
  let ?g = "\<lparr>curAddr = start, nextAddr = nxt, curSize = nxt - start, nextSize = min (total_size - (nxt - start)) chunk,
    sizeLeft = total_size - (nxt - start), startAddr = start, chunkSize = chunk\<rparr>"
  have z: "(nxt - start = 0) = (unat nxt - unat start = 0)" "(total_size - (nxt - start) = 0) = (unat total_size - (unat nxt - unat start) = 0)"
    by (simp_all only: unat_eq_zero [symmetric] cs left)
  have "unat start div ?c = (unat start + (unat nxt - unat start) - 1) div ?c" if "unat nxt - unat start \<noteq> 0"
  proof -
    have "unat start div ?c \<le> (unat nxt - 1) div ?c" using that by (intro div_le_mono) linarith
    moreover have "(unat nxt - 1) div ?c \<le> (N - 1) div ?c" using nxt by (intro div_le_mono) simp
    ultimately show ?thesis using b(4) that by simp
  qed
  moreover have "?c dvd unat nxt" if "unat total_size - (unat nxt - unat start) \<noteq> 0"
    using that nxt b by (auto simp: min_def split: if_splits)
  moreover have "unat total_size - (unat nxt - unat start) = 0" if "unat nxt - unat start = 0"
    using that nxt b by (auto simp: min_def split: if_splits)
  moreover have "unat nxt + (unat total_size - (unat nxt - unat start)) = unat start + unat total_size"
    "unat nxt = unat start + (unat nxt - unat start)"
    using nxt b by (auto simp: min_def)
  moreover have "0 < ?c" by simp
  ultimately have "gen_inv (unat start + unat total_size) ?c ?g"
    using fits(1) unfolding gen_inv_def ChunkGenerator.simps cs left c unat_min z by blast
  moreover have "newChunkGenerator start total_size chunk = Inr ?g"
    using chunk k r(1) isPowerOf2_exp [OF k]
    by (simp add: newChunkGenerator_def Let_def n_def nxt_def ensure_def)
  ultimately show ?thesis by simp
qed

text \<open>
  C27: the walk of a generator ends, and its chunks tile the region: they are nonempty, follow each
  other from the start address, add up to the total_size size, and none crosses a boundary of the chunk
  size.
\<close>

theorem chunks_tile_region:
  assumes "k < 64" and "unat start + unat total_size < 2 ^ 64" and "unat start + 2 ^ k < 2 ^ 64"
  shows "\<exists>g cs. newChunkGenerator start total_size (2 ^ k) = Inr g \<and> chunks (unat total_size + 2) g = Some cs
    \<and> tiles (2 ^ k) (unat start) cs (unat start + unat total_size)"
proof -
  obtain g where g: "newChunkGenerator start total_size (2 ^ k) = Inr g" "gen_inv (unat start + unat total_size) (2 ^ k) g"
    "curAddr g = start"
    using newChunkGenerator_inv [OF assms(1) refl assms(2,3)] by blast
  have "unat (sizeLeft g) \<le> unat total_size" using g(2,3) by (auto simp: gen_inv_def)
  then show ?thesis using chunks_tile [OF g(2), of "unat total_size + 2"] g(1,3) by auto
qed

theorem chunks_tile_region_witness:
  "\<exists>g cs. newChunkGenerator 0x3c 200 (2 ^ 6) = Inr g \<and> chunks 202 g = Some cs
    \<and> tiles 64 60 cs 260"
  using chunks_tile_region [of 6 "0x3c" 200] by simp

text \<open>\<^verbatim>\<open>setNext\<close> to an unaligned address near the end of the region leaves a next chunk that is larger
  than what is left, and the following step wraps the remaining size around.\<close>

lemma setNext_overruns:
  "\<exists>g g'. newChunkGenerator 0 40 16 = Inr g \<and> setNext g 36 = Inr g' \<and> sizeLeft g' = 4 \<and> nextSize g' = 12
    \<and> sizeLeft (fst (gen_next g')) = - 8"
proof -
  have "newChunkGenerator 0 40 16 = Inr \<lparr>curAddr = 0, nextAddr = 16, curSize = 16, nextSize = 16,
      sizeLeft = 24, startAddr = 0, chunkSize = 16\<rparr>" (is "_ = Inr ?g") by code_simp
  moreover have "setNext ?g 36 = Inr (?g\<lparr>nextAddr := 36, curSize := 36, nextSize := 12, sizeLeft := 4\<rparr>)"
    (is "_ = Inr ?g'") by code_simp
  moreover have "sizeLeft (fst (gen_next ?g')) = - 8" by code_simp
  ultimately show ?thesis by (intro exI [of _ ?g] exI [of _ ?g']) simp
qed

end
