(* ===== verification/Mem_Command.thy ===== *)
theory Mem_Command
  imports Main
begin

text \<open>
  The commands of \<^verbatim>\<open>MemCmd\<close> in \<^verbatim>\<open>mem/packet.hh\<close> with the table of their attributes and responses from
  \<^verbatim>\<open>mem/packet.cc\<close>, and the facts about the table that the rest of the memory system relies on.
\<close>

section \<open>Commands and the table\<close>

datatype Command =
    InvalidCmd | ReadReq | ReadResp | ReadRespWithInvalidate | WriteReq | WriteResp
    | WriteCompleteResp | WritebackDirty | WritebackClean | WriteClean | CleanEvict | SoftPFReq
    | SoftPFExReq | HardPFReq | SoftPFResp | HardPFResp | WriteLineReq | UpgradeReq | SCUpgradeReq
    | UpgradeResp | SCUpgradeFailReq | UpgradeFailResp | ReadExReq | ReadExResp | ReadCleanReq
    | ReadSharedReq | LoadLockedReq | StoreCondReq | StoreCondFailReq | StoreCondResp
    | LockedRMWReadReq | LockedRMWReadResp | LockedRMWWriteReq | LockedRMWWriteResp | SwapReq
    | SwapResp | Deprecated_MessageReq | Deprecated_MessageResp | MemFenceReq | MemSyncReq
    | MemSyncResp | MemFenceResp | CleanSharedReq | CleanSharedResp | CleanInvalidReq
    | CleanInvalidResp | InvalidDestError | BadAddressError | ReadError | WriteError
    | FunctionalReadError | FunctionalWriteError | PrintReq | FlushReq | InvalidateReq
    | InvalidateResp | HTMReq | HTMReqResp | HTMAbort | TlbiExtSync

datatype Attribute =
    IsRead | IsWrite | IsUpgrade | IsInvalidate | IsClean | NeedsWritable | IsRequest | IsResponse
    | NeedsResponse | IsEviction | IsSWPrefetch | IsHWPrefetch | IsLlsc | IsLockedRMW | HasData
    | IsError | IsPrint | IsFlush | FromCache

text \<open>The table \<^verbatim>\<open>commandInfo\<close>, in the order of the source; it is indexed by the enumerator.\<close>

record CommandInfo =
  attributes :: "Attribute list"
  response :: Command
  cmd_str :: string

definition info :: "Attribute list \<Rightarrow> Command \<Rightarrow> string \<Rightarrow> CommandInfo" where
  "info attrs resp str = \<lparr>attributes = attrs, response = resp, cmd_str = str\<rparr>"

definition commandInfo :: "CommandInfo list" where
  "commandInfo = [
     info [] InvalidCmd ''InvalidCmd'',
     info [IsRead, IsRequest, NeedsResponse] ReadResp ''ReadReq'',
     info [IsRead, IsResponse, HasData] InvalidCmd ''ReadResp'',
     info [IsRead, IsResponse, HasData, IsInvalidate] InvalidCmd ''ReadRespWithInvalidate'',
     info [IsWrite, NeedsWritable, IsRequest, NeedsResponse, HasData] WriteResp ''WriteReq'',
     info [IsWrite, IsResponse] InvalidCmd ''WriteResp'',
     info [IsWrite, IsResponse] InvalidCmd ''WriteCompleteResp'',
     info [IsWrite, IsRequest, IsEviction, HasData, FromCache] InvalidCmd ''WritebackDirty'',
     info [IsWrite, IsRequest, IsEviction, HasData, FromCache] InvalidCmd ''WritebackClean'',
     info [IsWrite, IsRequest, HasData, FromCache] InvalidCmd ''WriteClean'',
     info [IsRequest, IsEviction, FromCache] InvalidCmd ''CleanEvict'',
     info [IsRead, IsRequest, IsSWPrefetch, NeedsResponse] SoftPFResp ''SoftPFReq'',
     info [IsRead, NeedsWritable, IsInvalidate, IsRequest, IsSWPrefetch, NeedsResponse] SoftPFResp ''SoftPFExReq'',
     info [IsRead, IsRequest, IsHWPrefetch, NeedsResponse, FromCache] HardPFResp ''HardPFReq'',
     info [IsRead, IsResponse, IsSWPrefetch, HasData] InvalidCmd ''SoftPFResp'',
     info [IsRead, IsResponse, IsHWPrefetch, HasData] InvalidCmd ''HardPFResp'',
     info [IsWrite, NeedsWritable, IsRequest, NeedsResponse, HasData] WriteResp ''WriteLineReq'',
     info [IsInvalidate, NeedsWritable, IsUpgrade, IsRequest, NeedsResponse, FromCache] UpgradeResp ''UpgradeReq'',
     info [IsInvalidate, NeedsWritable, IsUpgrade, IsLlsc, IsRequest, NeedsResponse, FromCache] UpgradeResp ''SCUpgradeReq'',
     info [IsUpgrade, IsResponse] InvalidCmd ''UpgradeResp'',
     info [IsRead, NeedsWritable, IsInvalidate, IsLlsc, IsRequest, NeedsResponse, FromCache] UpgradeFailResp ''SCUpgradeFailReq'',
     info [IsRead, IsResponse, HasData] InvalidCmd ''UpgradeFailResp'',
     info [IsRead, NeedsWritable, IsInvalidate, IsRequest, NeedsResponse, FromCache] ReadExResp ''ReadExReq'',
     info [IsRead, IsResponse, HasData] InvalidCmd ''ReadExResp'',
     info [IsRead, IsRequest, NeedsResponse, FromCache] ReadResp ''ReadCleanReq'',
     info [IsRead, IsRequest, NeedsResponse, FromCache] ReadResp ''ReadSharedReq'',
     info [IsRead, IsLlsc, IsRequest, NeedsResponse] ReadResp ''LoadLockedReq'',
     info [IsWrite, NeedsWritable, IsLlsc, IsRequest, NeedsResponse, HasData] StoreCondResp ''StoreCondReq'',
     info [IsWrite, NeedsWritable, IsLlsc, IsRequest, NeedsResponse, HasData] StoreCondResp ''StoreCondFailReq'',
     info [IsWrite, IsLlsc, IsResponse] InvalidCmd ''StoreCondResp'',
     info [IsRead, IsLockedRMW, NeedsWritable, IsRequest, NeedsResponse] LockedRMWReadResp ''LockedRMWReadReq'',
     info [IsRead, IsLockedRMW, NeedsWritable, IsResponse, HasData] InvalidCmd ''LockedRMWReadResp'',
     info [IsWrite, IsLockedRMW, NeedsWritable, IsRequest, NeedsResponse, HasData] LockedRMWWriteResp ''LockedRMWWriteReq'',
     info [IsWrite, IsLockedRMW, NeedsWritable, IsResponse] InvalidCmd ''LockedRMWWriteResp'',
     info [IsRead, IsWrite, NeedsWritable, IsRequest, HasData, NeedsResponse] SwapResp ''SwapReq'',
     info [IsRead, IsWrite, IsResponse, HasData] InvalidCmd ''SwapResp'',
     info [] InvalidCmd ''Deprecated_MessageReq'',
     info [] InvalidCmd ''Deprecated_MessageResp'',
     info [IsRequest, NeedsResponse] MemFenceResp ''MemFenceReq'',
     info [IsRequest, NeedsResponse] MemSyncResp ''MemSyncReq'',
     info [IsResponse] InvalidCmd ''MemSyncResp'',
     info [IsResponse] InvalidCmd ''MemFenceResp'',
     info [IsRequest, IsClean, NeedsResponse, FromCache] CleanSharedResp ''CleanSharedReq'',
     info [IsResponse, IsClean] InvalidCmd ''CleanSharedResp'',
     info [IsRequest, IsInvalidate, IsClean, NeedsResponse, FromCache] CleanInvalidResp ''CleanInvalidReq'',
     info [IsResponse, IsInvalidate, IsClean] InvalidCmd ''CleanInvalidResp'',
     info [IsResponse, IsError] InvalidCmd ''InvalidDestError'',
     info [IsResponse, IsError] InvalidCmd ''BadAddressError'',
     info [IsRead, IsResponse, IsError] InvalidCmd ''ReadError'',
     info [IsWrite, IsResponse, IsError] InvalidCmd ''WriteError'',
     info [IsRead, IsResponse, IsError] InvalidCmd ''FunctionalReadError'',
     info [IsWrite, IsResponse, IsError] InvalidCmd ''FunctionalWriteError'',
     info [IsRequest, IsPrint] InvalidCmd ''PrintReq'',
     info [IsRequest, IsFlush, NeedsWritable] InvalidCmd ''FlushReq'',
     info [IsInvalidate, IsRequest, NeedsWritable, NeedsResponse, FromCache] InvalidateResp ''InvalidateReq'',
     info [IsInvalidate, IsResponse] InvalidCmd ''InvalidateResp'',
     info [IsRead, IsRequest, NeedsResponse] HTMReqResp ''HTMReq'',
     info [IsRead, IsResponse] InvalidCmd ''HTMReqResp'',
     info [IsRead, IsRequest] InvalidCmd ''HTMAbort'',
     info [IsRequest] InvalidCmd ''TlbiExtSync'']"

text \<open>The enumerators in the order of the declaration; \<open>toInt\<close> is the position.\<close>

definition commands :: "Command list" where
  "commands = [
     InvalidCmd, ReadReq, ReadResp, ReadRespWithInvalidate, WriteReq, WriteResp, WriteCompleteResp
     , WritebackDirty, WritebackClean, WriteClean, CleanEvict, SoftPFReq, SoftPFExReq, HardPFReq
     , SoftPFResp, HardPFResp, WriteLineReq, UpgradeReq, SCUpgradeReq, UpgradeResp, SCUpgradeFailReq
     , UpgradeFailResp, ReadExReq, ReadExResp, ReadCleanReq, ReadSharedReq, LoadLockedReq
     , StoreCondReq, StoreCondFailReq, StoreCondResp, LockedRMWReadReq, LockedRMWReadResp
     , LockedRMWWriteReq, LockedRMWWriteResp, SwapReq, SwapResp, Deprecated_MessageReq
     , Deprecated_MessageResp, MemFenceReq, MemSyncReq, MemSyncResp, MemFenceResp, CleanSharedReq
     , CleanSharedResp, CleanInvalidReq, CleanInvalidResp, InvalidDestError, BadAddressError
     , ReadError, WriteError, FunctionalReadError, FunctionalWriteError, PrintReq, FlushReq
     , InvalidateReq, InvalidateResp, HTMReq, HTMReqResp, HTMAbort, TlbiExtSync]"

definition toInt :: "Command \<Rightarrow> nat" where
  "toInt cmd = length (takeWhile (\<lambda>c. c \<noteq> cmd) commands)"

definition info_of :: "Command \<Rightarrow> CommandInfo" where
  "info_of cmd = commandInfo ! toInt cmd"

definition testCmdAttrib :: "Command \<Rightarrow> Attribute \<Rightarrow> bool" where
  "testCmdAttrib cmd attrib \<longleftrightarrow> attrib \<in> set (attributes (info_of cmd))"

definition isRead :: "Command \<Rightarrow> bool" where "isRead c = testCmdAttrib c IsRead"
definition isWrite :: "Command \<Rightarrow> bool" where "isWrite c = testCmdAttrib c IsWrite"
definition isUpgrade :: "Command \<Rightarrow> bool" where "isUpgrade c = testCmdAttrib c IsUpgrade"
definition isRequest :: "Command \<Rightarrow> bool" where "isRequest c = testCmdAttrib c IsRequest"
definition isResponse :: "Command \<Rightarrow> bool" where "isResponse c = testCmdAttrib c IsResponse"
definition needsWritable :: "Command \<Rightarrow> bool" where "needsWritable c = testCmdAttrib c NeedsWritable"
definition needsResponse :: "Command \<Rightarrow> bool" where "needsResponse c = testCmdAttrib c NeedsResponse"
definition isInvalidate :: "Command \<Rightarrow> bool" where "isInvalidate c = testCmdAttrib c IsInvalidate"
definition isEviction :: "Command \<Rightarrow> bool" where "isEviction c = testCmdAttrib c IsEviction"
definition isClean :: "Command \<Rightarrow> bool" where "isClean c = testCmdAttrib c IsClean"
definition fromCache :: "Command \<Rightarrow> bool" where "fromCache c = testCmdAttrib c FromCache"
definition isWriteback :: "Command \<Rightarrow> bool" where
  "isWriteback c = (testCmdAttrib c IsEviction \<and> testCmdAttrib c HasData)"
definition hasData :: "Command \<Rightarrow> bool" where "hasData c = testCmdAttrib c HasData"
definition isLLSC :: "Command \<Rightarrow> bool" where "isLLSC c = testCmdAttrib c IsLlsc"
definition isLockedRMW :: "Command \<Rightarrow> bool" where "isLockedRMW c = testCmdAttrib c IsLockedRMW"
definition isSWPrefetch :: "Command \<Rightarrow> bool" where "isSWPrefetch c = testCmdAttrib c IsSWPrefetch"
definition isHWPrefetch :: "Command \<Rightarrow> bool" where "isHWPrefetch c = testCmdAttrib c IsHWPrefetch"
definition isPrefetch :: "Command \<Rightarrow> bool" where
  "isPrefetch c = (testCmdAttrib c IsSWPrefetch \<or> testCmdAttrib c IsHWPrefetch)"
definition isError :: "Command \<Rightarrow> bool" where "isError c = testCmdAttrib c IsError"
definition isPrint :: "Command \<Rightarrow> bool" where "isPrint c = testCmdAttrib c IsPrint"
definition isFlush :: "Command \<Rightarrow> bool" where "isFlush c = testCmdAttrib c IsFlush"

definition isDemand :: "Command \<Rightarrow> bool" where
  "isDemand c = (c = ReadReq \<or> c = WriteReq \<or> c = WriteLineReq \<or> c = ReadExReq
     \<or> c = ReadCleanReq \<or> c = ReadSharedReq)"

definition responseCommand :: "Command \<Rightarrow> Command" where
  "responseCommand c = response (info_of c)"

lemmas cmd_defs = isRead_def isWrite_def isUpgrade_def isRequest_def isResponse_def needsWritable_def
  needsResponse_def isInvalidate_def isEviction_def isClean_def fromCache_def isWriteback_def hasData_def
  isLLSC_def isLockedRMW_def isSWPrefetch_def isHWPrefetch_def isPrefetch_def isError_def isPrint_def
  isFlush_def

section \<open>Enumeration\<close>

instantiation Command :: enum
begin

definition "enum_class.enum = commands"
definition "enum_class.enum_all P \<longleftrightarrow> list_all P commands"
definition "enum_class.enum_ex P \<longleftrightarrow> list_ex P commands"

instance
proof
  have all: "c \<in> set commands" for c by (cases c) (simp_all add: commands_def)
  then show u: "(UNIV :: Command set) = set enum_class.enum" by (auto simp: enum_Command_def)
  show "distinct (enum_class.enum :: Command list)" by (simp add: enum_Command_def commands_def)
  fix P :: "Command \<Rightarrow> bool"
  show "enum_class.enum_all P \<longleftrightarrow> Ball UNIV P"
    using all by (auto simp: enum_all_Command_def list_all_iff)
  show "enum_class.enum_ex P \<longleftrightarrow> Bex UNIV P"
    using all by (auto simp: enum_ex_Command_def list_ex_iff)
qed

end

text \<open>The name of an enumerator.\<close>

fun cmd_name :: "Command \<Rightarrow> string" where
  "cmd_name InvalidCmd = ''InvalidCmd''"
| "cmd_name ReadReq = ''ReadReq''"
| "cmd_name ReadResp = ''ReadResp''"
| "cmd_name ReadRespWithInvalidate = ''ReadRespWithInvalidate''"
| "cmd_name WriteReq = ''WriteReq''"
| "cmd_name WriteResp = ''WriteResp''"
| "cmd_name WriteCompleteResp = ''WriteCompleteResp''"
| "cmd_name WritebackDirty = ''WritebackDirty''"
| "cmd_name WritebackClean = ''WritebackClean''"
| "cmd_name WriteClean = ''WriteClean''"
| "cmd_name CleanEvict = ''CleanEvict''"
| "cmd_name SoftPFReq = ''SoftPFReq''"
| "cmd_name SoftPFExReq = ''SoftPFExReq''"
| "cmd_name HardPFReq = ''HardPFReq''"
| "cmd_name SoftPFResp = ''SoftPFResp''"
| "cmd_name HardPFResp = ''HardPFResp''"
| "cmd_name WriteLineReq = ''WriteLineReq''"
| "cmd_name UpgradeReq = ''UpgradeReq''"
| "cmd_name SCUpgradeReq = ''SCUpgradeReq''"
| "cmd_name UpgradeResp = ''UpgradeResp''"
| "cmd_name SCUpgradeFailReq = ''SCUpgradeFailReq''"
| "cmd_name UpgradeFailResp = ''UpgradeFailResp''"
| "cmd_name ReadExReq = ''ReadExReq''"
| "cmd_name ReadExResp = ''ReadExResp''"
| "cmd_name ReadCleanReq = ''ReadCleanReq''"
| "cmd_name ReadSharedReq = ''ReadSharedReq''"
| "cmd_name LoadLockedReq = ''LoadLockedReq''"
| "cmd_name StoreCondReq = ''StoreCondReq''"
| "cmd_name StoreCondFailReq = ''StoreCondFailReq''"
| "cmd_name StoreCondResp = ''StoreCondResp''"
| "cmd_name LockedRMWReadReq = ''LockedRMWReadReq''"
| "cmd_name LockedRMWReadResp = ''LockedRMWReadResp''"
| "cmd_name LockedRMWWriteReq = ''LockedRMWWriteReq''"
| "cmd_name LockedRMWWriteResp = ''LockedRMWWriteResp''"
| "cmd_name SwapReq = ''SwapReq''"
| "cmd_name SwapResp = ''SwapResp''"
| "cmd_name Deprecated_MessageReq = ''Deprecated_MessageReq''"
| "cmd_name Deprecated_MessageResp = ''Deprecated_MessageResp''"
| "cmd_name MemFenceReq = ''MemFenceReq''"
| "cmd_name MemSyncReq = ''MemSyncReq''"
| "cmd_name MemSyncResp = ''MemSyncResp''"
| "cmd_name MemFenceResp = ''MemFenceResp''"
| "cmd_name CleanSharedReq = ''CleanSharedReq''"
| "cmd_name CleanSharedResp = ''CleanSharedResp''"
| "cmd_name CleanInvalidReq = ''CleanInvalidReq''"
| "cmd_name CleanInvalidResp = ''CleanInvalidResp''"
| "cmd_name InvalidDestError = ''InvalidDestError''"
| "cmd_name BadAddressError = ''BadAddressError''"
| "cmd_name ReadError = ''ReadError''"
| "cmd_name WriteError = ''WriteError''"
| "cmd_name FunctionalReadError = ''FunctionalReadError''"
| "cmd_name FunctionalWriteError = ''FunctionalWriteError''"
| "cmd_name PrintReq = ''PrintReq''"
| "cmd_name FlushReq = ''FlushReq''"
| "cmd_name InvalidateReq = ''InvalidateReq''"
| "cmd_name InvalidateResp = ''InvalidateResp''"
| "cmd_name HTMReq = ''HTMReq''"
| "cmd_name HTMReqResp = ''HTMReqResp''"
| "cmd_name HTMAbort = ''HTMAbort''"
| "cmd_name TlbiExtSync = ''TlbiExtSync''"

section \<open>What the table guarantees\<close>



end
