(* ===== verification/Mem_Request.thy ===== *)
theory Mem_Request
  imports Sim_Prelude
begin

text \<open>
  The class \<^verbatim>\<open>Request\<close> of \<^verbatim>\<open>mem/request.hh\<close> over the flag words of \<^verbatim>\<open>base/flags.hh\<close>: the fields, the
  constructors, the setters with their assertions, the split of a request at a virtual address
  and the flag tests the packet layer uses. The two callables a request may carry are modelled
  by what the memory system does with them: an atomic operation is a function on the bytes of
  the access, a local accessor is only present or absent.
\<close>

unbundle bit_operations_syntax

section \<open>Flag words\<close>

definition isSet :: "'a::len word \<Rightarrow> 'a word \<Rightarrow> bool" where
  "isSet flags msk \<longleftrightarrow> flags AND msk \<noteq> 0"

definition allSet :: "'a::len word \<Rightarrow> 'a word \<Rightarrow> bool" where
  "allSet flags msk \<longleftrightarrow> flags AND msk = msk"

definition noneSet :: "'a::len word \<Rightarrow> 'a word \<Rightarrow> bool" where
  "noneSet flags msk \<longleftrightarrow> flags AND msk = 0"

definition flags_clear :: "'a::len word \<Rightarrow> 'a word \<Rightarrow> 'a word" where
  "flags_clear flags msk = flags AND NOT msk"

definition flags_set :: "'a::len word \<Rightarrow> 'a word \<Rightarrow> 'a word" where
  "flags_set flags msk = flags OR msk"

definition flags_set_cond :: "'a::len word \<Rightarrow> 'a word \<Rightarrow> bool \<Rightarrow> 'a word" where
  "flags_set_cond flags msk condition =
     (if condition then flags_set flags msk else flags_clear flags msk)"

definition flags_replace :: "'a::len word \<Rightarrow> 'a word \<Rightarrow> 'a word \<Rightarrow> 'a word" where
  "flags_replace old flags msk = (old AND NOT msk) OR (flags AND msk)"

lemma isSet_bit: "isSet f m \<longleftrightarrow> (\<exists>i. bit f i \<and> bit m i)"
  by (auto simp: isSet_def bit_eq_iff bit_and_iff dest: bit_imp_le_length)

lemma isSet_set: "m \<noteq> 0 \<Longrightarrow> isSet (flags_set f m) m"
proof -
  assume "m \<noteq> 0"
  then obtain i where "bit m i" by (auto simp: bit_eq_iff)
  then show ?thesis by (auto simp: isSet_bit flags_set_def bit_or_iff)
qed

lemma isSet_set_other: "isSet (flags_set f m) k \<longleftrightarrow> isSet f k \<or> isSet m k"
  by (auto simp: isSet_bit flags_set_def bit_or_iff)

lemma isSet_clear: "isSet (flags_clear f m) k \<longleftrightarrow> isSet f (flags_clear k m)"
  by (auto simp: isSet_bit flags_clear_def bit_and_iff bit_not_iff dest: bit_imp_possible_bit)

lemma clear_isSet [simp]: "\<not> isSet (flags_clear f m) m"
  by (auto simp: isSet_bit flags_clear_def bit_and_iff bit_not_iff)

lemma noneSet_iff: "noneSet f m \<longleftrightarrow> \<not> isSet f m"
  by (simp add: noneSet_def isSet_def)

text \<open>Replacing is clearing the mask and then setting the masked bits.\<close>

lemma replace_clear_set: "flags_replace old flags m = flags_set (flags_clear old m) (flags AND m)"
  by (simp add: flags_replace_def flags_set_def flags_clear_def)

section \<open>The flags of a request\<close>

type_synonym FlagsType = "64 word"
type_synonym PrivateFlagsType = "16 word"

abbreviation ARCH_BITS :: FlagsType where "ARCH_BITS \<equiv> 0x000000FF"
abbreviation INST_FETCH :: FlagsType where "INST_FETCH \<equiv> 0x00000100"
abbreviation PHYSICAL :: FlagsType where "PHYSICAL \<equiv> 0x00000200"
abbreviation UNCACHEABLE :: FlagsType where "UNCACHEABLE \<equiv> 0x00000400"
abbreviation STRICT_ORDER :: FlagsType where "STRICT_ORDER \<equiv> 0x00000800"
abbreviation KERNEL :: FlagsType where "KERNEL \<equiv> 0x00001000"
abbreviation PRIVILEGED :: FlagsType where "PRIVILEGED \<equiv> 0x00008000"
abbreviation CACHE_BLOCK_ZERO :: FlagsType where "CACHE_BLOCK_ZERO \<equiv> 0x00010000"
abbreviation ACQUIRE :: FlagsType where "ACQUIRE \<equiv> 0x00020000"
abbreviation RELEASE :: FlagsType where "RELEASE \<equiv> 0x00040000"
abbreviation NO_ACCESS :: FlagsType where "NO_ACCESS \<equiv> 0x00080000"
abbreviation LOCKED_RMW :: FlagsType where "LOCKED_RMW \<equiv> 0x00100000"
abbreviation LLSC :: FlagsType where "LLSC \<equiv> 0x00200000"
abbreviation MEM_SWAP :: FlagsType where "MEM_SWAP \<equiv> 0x00400000"
abbreviation MEM_SWAP_COND :: FlagsType where "MEM_SWAP_COND \<equiv> 0x00800000"
abbreviation PREFETCH :: FlagsType where "PREFETCH \<equiv> 0x01000000"
abbreviation PF_EXCLUSIVE :: FlagsType where "PF_EXCLUSIVE \<equiv> 0x02000000"
abbreviation SECURE :: FlagsType where "SECURE \<equiv> 0x10000000"
abbreviation PT_WALK :: FlagsType where "PT_WALK \<equiv> 0x20000000"
abbreviation ATOMIC_RETURN_OP :: FlagsType where "ATOMIC_RETURN_OP \<equiv> 0x40000000"
abbreviation ATOMIC_NO_RETURN_OP :: FlagsType where "ATOMIC_NO_RETURN_OP \<equiv> 0x80000000"
abbreviation INVALIDATE :: FlagsType where "INVALIDATE \<equiv> 0x0000000100000000"
abbreviation CLEAN :: FlagsType where "CLEAN \<equiv> 0x0000000200000000"
abbreviation HTM_START :: FlagsType where "HTM_START \<equiv> 0x0000010000000000"
abbreviation HTM_COMMIT :: FlagsType where "HTM_COMMIT \<equiv> 0x0000020000000000"
abbreviation HTM_CANCEL :: FlagsType where "HTM_CANCEL \<equiv> 0x0000040000000000"
abbreviation HTM_ABORT :: FlagsType where "HTM_ABORT \<equiv> 0x0000080000000000"
abbreviation TLBI :: FlagsType where "TLBI \<equiv> 0x0000100000000000"
abbreviation TLBI_SYNC :: FlagsType where "TLBI_SYNC \<equiv> 0x0000200000000000"
abbreviation TLBI_EXT_SYNC :: FlagsType where "TLBI_EXT_SYNC \<equiv> 0x0000400000000000"
abbreviation TLBI_EXT_SYNC_COMP :: FlagsType where "TLBI_EXT_SYNC_COMP \<equiv> 0x0000800000000000"
abbreviation READ_MODIFY_WRITE :: FlagsType where "READ_MODIFY_WRITE \<equiv> 0x0020000000000000"

abbreviation REQ_VALID_SIZE :: PrivateFlagsType where "REQ_VALID_SIZE \<equiv> 0x0001"
abbreviation REQ_VALID_PADDR :: PrivateFlagsType where "REQ_VALID_PADDR \<equiv> 0x0002"
abbreviation REQ_VALID_VADDR :: PrivateFlagsType where "REQ_VALID_VADDR \<equiv> 0x0004"
abbreviation REQ_VALID_PC :: PrivateFlagsType where "REQ_VALID_PC \<equiv> 0x0010"
abbreviation REQ_VALID_CONTEXT_ID :: PrivateFlagsType where "REQ_VALID_CONTEXT_ID \<equiv> 0x0020"
abbreviation REQ_VALID_EXTRA_DATA :: PrivateFlagsType where "REQ_VALID_EXTRA_DATA \<equiv> 0x0080"
abbreviation REQ_VALID_STREAM_ID :: PrivateFlagsType where "REQ_VALID_STREAM_ID \<equiv> 0x0100"
abbreviation REQ_VALID_SUBSTREAM_ID :: PrivateFlagsType where "REQ_VALID_SUBSTREAM_ID \<equiv> 0x0200"
abbreviation STICKY_PRIVATE_FLAGS :: PrivateFlagsType where "STICKY_PRIVATE_FLAGS \<equiv> 0x0020"

section \<open>The request\<close>

record Request =
  r_paddr :: Addr
  r_size :: nat
  byteEnable :: "bool list"
  requestorId :: "16 word"
  r_flags :: FlagsType
  cacheCoherenceFlags :: "64 word"
  privateFlags :: PrivateFlagsType
  r_time :: Tick
  streamId_f :: "32 word"
  substreamId_f :: "32 word"
  systemReq :: bool
  r_vaddr :: Addr
  extraData :: "64 word"
  contextId_f :: int
  r_pc :: Addr
  atomicOp :: "(byte list \<Rightarrow> byte list) option"
  localAccess :: bool
  translateDelta :: Tick
  accessDelta :: Tick
  depth :: nat

definition emptyRequest :: Request where
  "emptyRequest = \<lparr>r_paddr = 0, r_size = 0, byteEnable = [], requestorId = - 1, r_flags = 0,
     cacheCoherenceFlags = 0, privateFlags = 0, r_time = 2 ^ 64 - 1, streamId_f = 0, substreamId_f = 0,
     systemReq = False, r_vaddr = - 1, extraData = 0, contextId_f = - 1, r_pc = - 1,
     atomicOp = None, localAccess = False, translateDelta = 0, accessDelta = 0, depth = 0\<rparr>"

definition physRequest :: "Tick \<Rightarrow> Addr \<Rightarrow> nat \<Rightarrow> FlagsType \<Rightarrow> 16 word \<Rightarrow> Request" where
  "physRequest curTick paddr sz flags rid =
     emptyRequest\<lparr>r_paddr := paddr, r_size := sz, requestorId := rid, r_time := curTick,
       r_flags := flags_set 0 flags, privateFlags := flags_set 0 (REQ_VALID_PADDR OR REQ_VALID_SIZE),
       byteEnable := replicate sz True\<rparr>"

definition setContext :: "Request \<Rightarrow> int \<Rightarrow> Request" where
  "setContext r c = r\<lparr>contextId_f := c, privateFlags := flags_set (privateFlags r) REQ_VALID_CONTEXT_ID\<rparr>"

definition setVirt ::
  "Tick \<Rightarrow> Request \<Rightarrow> Addr \<Rightarrow> nat \<Rightarrow> FlagsType \<Rightarrow> 16 word \<Rightarrow> Addr
    \<Rightarrow> (byte list \<Rightarrow> byte list) option \<Rightarrow> Request" where
  "setVirt curTick r vaddr sz flags rid pc amo_op =
     r\<lparr>r_vaddr := vaddr, r_size := sz, requestorId := rid, r_pc := pc, r_time := curTick,
       r_flags := flags_set (flags_clear (r_flags r) (NOT INST_FETCH)) flags,
       privateFlags := flags_set (flags_clear (privateFlags r) (NOT STICKY_PRIVATE_FLAGS))
         (REQ_VALID_VADDR OR REQ_VALID_SIZE OR REQ_VALID_PC),
       depth := 0, accessDelta := 0, translateDelta := 0, atomicOp := amo_op, localAccess := False\<rparr>"

definition virtRequest ::
  "Tick \<Rightarrow> Addr \<Rightarrow> nat \<Rightarrow> FlagsType \<Rightarrow> 16 word \<Rightarrow> Addr \<Rightarrow> int \<Rightarrow> (byte list \<Rightarrow> byte list) option \<Rightarrow> Request" where
  "virtRequest curTick vaddr sz flags rid pc cid amo_op =
     (setContext (setVirt curTick emptyRequest vaddr sz flags rid pc amo_op) cid)
       \<lparr>byteEnable := replicate sz True\<rparr>"

text \<open>The copy constructor: it copies the validity flags of the stream identifiers but not the
  identifiers themselves.\<close>

definition copyRequest :: "Request \<Rightarrow> Request" where
  "copyRequest other =
     other\<lparr>streamId_f := streamId_f emptyRequest, substreamId_f := substreamId_f emptyRequest,
       systemReq := systemReq emptyRequest\<rparr>"

definition setPaddr :: "Request \<Rightarrow> Addr \<Rightarrow> Request" where
  "setPaddr r paddr = r\<lparr>r_paddr := paddr, privateFlags := flags_set (privateFlags r) REQ_VALID_PADDR\<rparr>"

definition hasPaddr :: "Request \<Rightarrow> bool" where
  "hasPaddr r \<longleftrightarrow> isSet (privateFlags r) REQ_VALID_PADDR"

definition getPaddr :: "Request \<Rightarrow> Addr res" where
  "getPaddr r = ensure (hasPaddr r) AssertFail (Inr (r_paddr r))"

definition hasVaddr :: "Request \<Rightarrow> bool" where
  "hasVaddr r \<longleftrightarrow> isSet (privateFlags r) REQ_VALID_VADDR"

definition getVaddr :: "Request \<Rightarrow> Addr res" where
  "getVaddr r = ensure (hasVaddr r) AssertFail (Inr (r_vaddr r))"

definition hasSize :: "Request \<Rightarrow> bool" where
  "hasSize r \<longleftrightarrow> isSet (privateFlags r) REQ_VALID_SIZE"

definition req_getSize :: "Request \<Rightarrow> nat res" where
  "req_getSize r = ensure (hasSize r) AssertFail (Inr (r_size r))"

definition setByteEnable :: "Request \<Rightarrow> bool list \<Rightarrow> Request res" where
  "setByteEnable r be = ensure (length be = r_size r) AssertFail (Inr (r\<lparr>byteEnable := be\<rparr>))"

definition isMasked :: "Request \<Rightarrow> bool" where
  "isMasked r \<longleftrightarrow> False \<in> set (byteEnable r)"

definition hasStreamId :: "Request \<Rightarrow> bool" where
  "hasStreamId r \<longleftrightarrow> isSet (privateFlags r) REQ_VALID_STREAM_ID"

definition setStreamId :: "Request \<Rightarrow> 32 word \<Rightarrow> Request" where
  "setStreamId r sid = r\<lparr>streamId_f := sid, privateFlags := flags_set (privateFlags r) REQ_VALID_STREAM_ID\<rparr>"

definition streamId :: "Request \<Rightarrow> 32 word res" where
  "streamId r = ensure (hasStreamId r) AssertFail (Inr (streamId_f r))"

definition setSubstreamId :: "Request \<Rightarrow> 32 word \<Rightarrow> Request res" where
  "setSubstreamId r ssid = ensure (hasStreamId r) AssertFail
     (Inr (r\<lparr>substreamId_f := ssid, privateFlags := flags_set (privateFlags r) REQ_VALID_SUBSTREAM_ID\<rparr>))"

definition hasContextId :: "Request \<Rightarrow> bool" where
  "hasContextId r \<longleftrightarrow> isSet (privateFlags r) REQ_VALID_CONTEXT_ID"

definition contextId :: "Request \<Rightarrow> int res" where
  "contextId r = ensure (hasContextId r) AssertFail (Inr (contextId_f r))"

definition extraDataValid :: "Request \<Rightarrow> bool" where
  "extraDataValid r \<longleftrightarrow> isSet (privateFlags r) REQ_VALID_EXTRA_DATA"

definition getExtraData :: "Request \<Rightarrow> 64 word res" where
  "getExtraData r = ensure (extraDataValid r) AssertFail (Inr (extraData r))"

definition setExtraData :: "Request \<Rightarrow> 64 word \<Rightarrow> Request" where
  "setExtraData r d = r\<lparr>extraData := d, privateFlags := flags_set (privateFlags r) REQ_VALID_EXTRA_DATA\<rparr>"

definition getFlags :: "Request \<Rightarrow> FlagsType res" where
  "getFlags r = ensure (hasPaddr r \<or> hasVaddr r) AssertFail (Inr (r_flags r))"

definition setFlags :: "Request \<Rightarrow> FlagsType \<Rightarrow> Request res" where
  "setFlags r flags = ensure (hasPaddr r \<or> hasVaddr r) AssertFail
     (Inr (r\<lparr>r_flags := flags_set (r_flags r) flags\<rparr>))"

definition clearFlags :: "Request \<Rightarrow> FlagsType \<Rightarrow> Request res" where
  "clearFlags r flags = ensure (hasPaddr r \<or> hasVaddr r) AssertFail
     (Inr (r\<lparr>r_flags := flags_clear (r_flags r) flags\<rparr>))"

definition setTranslateLatency :: "Tick \<Rightarrow> Request \<Rightarrow> Request" where
  "setTranslateLatency curTick r = r\<lparr>translateDelta := curTick - r_time r\<rparr>"

definition setAccessLatency :: "Tick \<Rightarrow> Request \<Rightarrow> Request" where
  "setAccessLatency curTick r = r\<lparr>accessDelta := curTick - r_time r - translateDelta r\<rparr>"

definition splitOnVaddr :: "Request \<Rightarrow> Addr \<Rightarrow> (Request \<times> Request) res" where
  "splitOnVaddr r split_addr =
     ensure (hasVaddr r) AssertFail
     (ensure (\<not> hasPaddr r) AssertFail
     (ensure (split_addr > r_vaddr r \<and> split_addr < r_vaddr r + of_nat (r_size r)) AssertFail
       (let sz1 = unat (ucast (split_addr - r_vaddr r) :: 32 word);
            req1 = (copyRequest r)\<lparr>r_size := sz1, byteEnable := take sz1 (byteEnable r)\<rparr>;
            req2 = (copyRequest r)\<lparr>r_vaddr := split_addr, r_size := r_size r - sz1,
                                   byteEnable := drop sz1 (byteEnable r)\<rparr>
        in Inr (req1, req2))))"

section \<open>Flag tests\<close>

definition req_isUncacheable :: "Request \<Rightarrow> bool" where "req_isUncacheable r \<longleftrightarrow> isSet (r_flags r) UNCACHEABLE"
definition req_isStrictlyOrdered :: "Request \<Rightarrow> bool" where "req_isStrictlyOrdered r \<longleftrightarrow> isSet (r_flags r) STRICT_ORDER"
definition req_isInstFetch :: "Request \<Rightarrow> bool" where "req_isInstFetch r \<longleftrightarrow> isSet (r_flags r) INST_FETCH"
definition req_isPrefetch :: "Request \<Rightarrow> bool" where "req_isPrefetch r \<longleftrightarrow> isSet (r_flags r) (PREFETCH OR PF_EXCLUSIVE)"
definition req_isPrefetchEx :: "Request \<Rightarrow> bool" where "req_isPrefetchEx r \<longleftrightarrow> isSet (r_flags r) PF_EXCLUSIVE"
definition req_isLLSC :: "Request \<Rightarrow> bool" where "req_isLLSC r \<longleftrightarrow> isSet (r_flags r) LLSC"
definition req_isLockedRMW :: "Request \<Rightarrow> bool" where "req_isLockedRMW r \<longleftrightarrow> isSet (r_flags r) LOCKED_RMW"
definition req_isSwap :: "Request \<Rightarrow> bool" where "req_isSwap r \<longleftrightarrow> isSet (r_flags r) (MEM_SWAP OR MEM_SWAP_COND)"
definition req_isCondSwap :: "Request \<Rightarrow> bool" where "req_isCondSwap r \<longleftrightarrow> isSet (r_flags r) MEM_SWAP_COND"
definition req_isSecure :: "Request \<Rightarrow> bool" where "req_isSecure r \<longleftrightarrow> isSet (r_flags r) SECURE"
definition req_isAtomic :: "Request \<Rightarrow> bool" where
  "req_isAtomic r \<longleftrightarrow> isSet (r_flags r) ATOMIC_RETURN_OP \<or> isSet (r_flags r) ATOMIC_NO_RETURN_OP"
definition req_isAtomicReturn :: "Request \<Rightarrow> bool" where "req_isAtomicReturn r \<longleftrightarrow> isSet (r_flags r) ATOMIC_RETURN_OP"
definition req_isHTMAbort :: "Request \<Rightarrow> bool" where "req_isHTMAbort r \<longleftrightarrow> isSet (r_flags r) HTM_ABORT"
definition req_isHTMCmd :: "Request \<Rightarrow> bool" where
  "req_isHTMCmd r \<longleftrightarrow> isSet (r_flags r) HTM_START \<or> isSet (r_flags r) HTM_COMMIT
     \<or> isSet (r_flags r) HTM_CANCEL \<or> req_isHTMAbort r"
definition req_isTlbiCmd :: "Request \<Rightarrow> bool" where
  "req_isTlbiCmd r \<longleftrightarrow> isSet (r_flags r) TLBI \<or> isSet (r_flags r) TLBI_SYNC
     \<or> isSet (r_flags r) TLBI_EXT_SYNC \<or> isSet (r_flags r) TLBI_EXT_SYNC_COMP"
definition req_isMemMgmt :: "Request \<Rightarrow> bool" where "req_isMemMgmt r \<longleftrightarrow> req_isTlbiCmd r \<or> req_isHTMCmd r"
definition req_isCacheClean :: "Request \<Rightarrow> bool" where "req_isCacheClean r \<longleftrightarrow> isSet (r_flags r) CLEAN"
definition req_isCacheInvalidate :: "Request \<Rightarrow> bool" where "req_isCacheInvalidate r \<longleftrightarrow> isSet (r_flags r) INVALIDATE"
definition req_isCacheMaintenance :: "Request \<Rightarrow> bool" where
  "req_isCacheMaintenance r \<longleftrightarrow> isSet (r_flags r) (CLEAN OR INVALIDATE)"

text \<open>\<^verbatim>\<open>isAcquire\<close> tests the coherence flags although \<^verbatim>\<open>ACQUIRE\<close> is a bit of the request flags.\<close>

definition req_isAcquire :: "Request \<Rightarrow> bool" where "req_isAcquire r \<longleftrightarrow> isSet (cacheCoherenceFlags r) ACQUIRE"
definition req_isRelease :: "Request \<Rightarrow> bool" where "req_isRelease r \<longleftrightarrow> isSet (r_flags r) RELEASE"

definition createMemManagement :: "Tick \<Rightarrow> FlagsType \<Rightarrow> 16 word \<Rightarrow> Request res" where
  "createMemManagement curTick flags rid =
     (let r = emptyRequest\<lparr>r_flags := flags_set 0 flags, requestorId := rid, r_time := curTick\<rparr>
      in ensure (req_isMemMgmt r) AssertFail (Inr r))"

section \<open>Splitting and copying\<close>

text \<open>
  C23: a successful split of a request at a virtual address gives two nonempty requests that
  together cover the same bytes: the second starts where the first ends, the sizes add up and the
  byte enables are the two parts of the original ones.
\<close>

theorem splitOnVaddr_covers:
  assumes "splitOnVaddr r a = Inr (req1, req2)" and "r_size r < 2 ^ 32"
    and "length (byteEnable r) = r_size r"
  shows "0 < r_size req1 \<and> 0 < r_size req2 \<and> r_size req1 + r_size req2 = r_size r
    \<and> r_vaddr req1 = r_vaddr r \<and> r_vaddr req2 = r_vaddr r + of_nat (r_size req1)
    \<and> byteEnable req1 @ byteEnable req2 = byteEnable r
    \<and> length (byteEnable req1) = r_size req1 \<and> length (byteEnable req2) = r_size req2"
proof -
  define d where "d = a - r_vaddr r"
  have g: "a > r_vaddr r" "a < r_vaddr r + of_nat (r_size r)"
    and e: "req1 = (copyRequest r)\<lparr>r_size := unat (ucast d :: 32 word), byteEnable := take (unat (ucast d :: 32 word)) (byteEnable r)\<rparr>"
    "req2 = (copyRequest r)\<lparr>r_vaddr := a, r_size := r_size r - unat (ucast d :: 32 word),
        byteEnable := drop (unat (ucast d :: 32 word)) (byteEnable r)\<rparr>"
    using assms(1) by (simp_all add: splitOnVaddr_def res_simps Let_def d_def)
  have sz: "unat (of_nat (r_size r) :: Addr) = r_size r"
    using assms(2) by (simp add: unat_of_nat)
  have v: "unat (r_vaddr r) < unat a" using g(1) by (simp add: word_less_nat_alt)
  have "unat a < unat (r_vaddr r) + r_size r"
    using g(2) sz by (auto simp: word_less_nat_alt unat_plus_if' split: if_splits)
  moreover have "unat d = unat a - unat (r_vaddr r)" using v by (simp add: d_def unat_sub_if')
  ultimately have d: "0 < unat d" "unat d < r_size r" using v by auto
  have u: "unat (ucast d :: 32 word) = unat d"
    using d(2) assms(2) by (simp add: unsigned_ucast_eq take_bit_nat_eq_self)
  have "a = r_vaddr r + of_nat (unat d)" by (simp add: d_def)
  then show ?thesis
    using d assms(3) by (simp add: e u copyRequest_def)
qed

theorem splitOnVaddr_covers_witness:
  "\<exists>req1 req2. splitOnVaddr (virtRequest 0 0x1ffc 8 0 3 0 1 None) 0x2000 = Inr (req1, req2)
    \<and> r_size req1 = 4 \<and> r_size req2 = 4 \<and> r_vaddr req2 = 0x2000"
proof -
  let ?r = "virtRequest 0 0x1ffc 8 0 3 0 1 None"
  obtain p where p: "splitOnVaddr ?r 0x2000 = Inr p" "r_size (fst p) = 4" "r_vaddr (fst p) = 0x1ffc"
    by (simp add: splitOnVaddr_def virtRequest_def setVirt_def setContext_def emptyRequest_def
        hasVaddr_def hasPaddr_def isSet_def flags_set_def flags_clear_def Let_def copyRequest_def ensure_def
        unsigned_ucast_eq)
  have "r_size ?r < 2 ^ 32" "length (byteEnable ?r) = r_size ?r" "r_size ?r = 8" "r_vaddr ?r = 0x1ffc"
    by (simp_all add: virtRequest_def setVirt_def setContext_def)
  then show ?thesis
    using splitOnVaddr_covers [of ?r "0x2000" "fst p" "snd p"] p by (cases p) auto
qed

text \<open>A copy still claims to have a stream identifier but has lost it.\<close>

lemma copy_loses_stream:
  assumes "streamId r = Inr sid"
  shows "hasStreamId (copyRequest r) \<and> streamId (copyRequest r) = Inr 0"
  using assms by (simp add: streamId_def hasStreamId_def copyRequest_def emptyRequest_def res_simps)

end
