(* ===== verification/Byte_Order.thy ===== *)
theory Byte_Order
  imports Sim_Prelude
begin

text \<open>
  Byte order: the swaps and conversions of \<^verbatim>\<open>sim/byteswap.hh\<close> on a little-endian host, and the
  variable-width loads and stores of \<^verbatim>\<open>sim/bufval.cc\<close>. A buffer is its list of bytes.
\<close>

unbundle bit_operations_syntax

datatype ByteOrder = big | little

text \<open>\<^verbatim>\<open>bswap_16\<close>, \<^verbatim>\<open>bswap_32\<close> and \<^verbatim>\<open>bswap_64\<close> reverse the bytes of their argument.\<close>

definition swap_byte :: "nat \<Rightarrow> 'a::len word \<Rightarrow> 'a word" where
  "swap_byte n x = from_le (rev (to_le n x))"

definition swap_byte64 :: "64 word \<Rightarrow> 64 word" where "swap_byte64 x = swap_byte 8 x"
definition swap_byte32 :: "32 word \<Rightarrow> 32 word" where "swap_byte32 x = swap_byte 4 x"
definition swap_byte16 :: "16 word \<Rightarrow> 16 word" where "swap_byte16 x = swap_byte 2 x"

definition htole :: "'a::len word \<Rightarrow> 'a word" where "htole x = x"
definition letoh :: "'a::len word \<Rightarrow> 'a word" where "letoh x = x"
definition htobe :: "nat \<Rightarrow> 'a::len word \<Rightarrow> 'a word" where "htobe n x = swap_byte n x"
definition betoh :: "nat \<Rightarrow> 'a::len word \<Rightarrow> 'a word" where "betoh n x = swap_byte n x"

text \<open>The first argument is \<^verbatim>\<open>sizeof(T)\<close>.\<close>

definition htog :: "nat \<Rightarrow> 'a::len word \<Rightarrow> ByteOrder \<Rightarrow> 'a word" where
  "htog n x order = (if order = big then htobe n x else htole x)"

definition gtoh :: "nat \<Rightarrow> 'a::len word \<Rightarrow> ByteOrder \<Rightarrow> 'a word" where
  "gtoh n x order = (if order = big then betoh n x else letoh x)"

text \<open>Loads and stores of 8, 4, 2 or 1 bytes; other widths fail.\<close>

definition getUintX :: "byte list \<Rightarrow> nat \<Rightarrow> ByteOrder \<Rightarrow> 64 word \<times> bool" where
  "getUintX buf bytes endian =
     (if bytes = 8 then (gtoh 8 (from_le (take 8 buf) :: 64 word) endian, True)
      else if bytes = 4 then (ucast (gtoh 4 (from_le (take 4 buf) :: 32 word) endian), True)
      else if bytes = 2 then (ucast (gtoh 2 (from_le (take 2 buf) :: 16 word) endian), True)
      else if bytes = 1 then (ucast (gtoh 1 (from_le (take 1 buf) :: 8 word) endian), True)
      else (0, False))"

definition setUintX :: "64 word \<Rightarrow> byte list \<Rightarrow> nat \<Rightarrow> ByteOrder \<Rightarrow> byte list \<times> bool" where
  "setUintX val buf bytes endian =
     (if bytes = 8 then (to_le 8 (htog 8 val endian) @ drop 8 buf, True)
      else if bytes = 4 then (to_le 4 (htog 4 (ucast val :: 32 word) endian) @ drop 4 buf, True)
      else if bytes = 2 then (to_le 2 (htog 2 (ucast val :: 16 word) endian) @ drop 2 buf, True)
      else if bytes = 1 then (to_le 1 (htog 1 (ucast val :: 8 word) endian) @ drop 1 buf, True)
      else (buf, False))"

section \<open>Round trips\<close>

lemma bit_from_le:
  "bit (from_le bs :: 'a::len word) i \<longleftrightarrow> i < LENGTH('a) \<and> i div 8 < length bs \<and> bit (bs ! (i div 8)) (i mod 8)"
proof (induction bs arbitrary: i)
  case Nil
  then show ?case by (simp add: from_le_def)
next
  case (Cons b bs)
  show ?case
  proof (cases "i < 8")
    case True
    then show ?thesis by (auto simp: from_le_Cons bit_simps dest: bit_imp_le_length)
  next
    case False
    then have "i div 8 = Suc ((i - 8) div 8)" "i mod 8 = (i - 8) mod 8" by (simp_all add: le_div_geq le_mod_geq)
    moreover have "\<not> bit b i" using False by (auto dest: bit_imp_le_length)
    ultimately show ?thesis using False by (auto simp: from_le_Cons bit_simps Cons.IH)
  qed
qed

lemma to_from_le: "length bs = n \<Longrightarrow> 8 * n \<le> LENGTH('a) \<Longrightarrow> to_le n (from_le bs :: 'a::len word) = bs"
proof (rule nth_equalityI)
  fix i assume n: "length bs = n" "8 * n \<le> LENGTH('a)" and "i < length (to_le n (from_le bs :: 'a word))"
  then have i: "i < n" by (simp add: to_le_def)
  show "to_le n (from_le bs :: 'a word) ! i = bs ! i"
  proof (rule bit_word_eqI)
    fix j assume "j < LENGTH(8)"
    then have "j < 8" by simp
    moreover have "8 * i + j < LENGTH('a)" using i n \<open>j < 8\<close> by linarith
    ultimately show "bit (to_le n (from_le bs :: 'a word) ! i) j = bit (bs ! i) j"
      using i n by (simp add: to_le_def bit_simps bit_from_le)
  qed
qed (simp add: to_le_def)

lemma swap_byte_involution: "8 * n = LENGTH('a) \<Longrightarrow> swap_byte n (swap_byte n (x :: 'a::len word)) = x"
  by (simp add: swap_byte_def to_from_le from_to_le)

lemma gtoh_htog: "8 * n = LENGTH('a) \<Longrightarrow> gtoh n (htog n (x :: 'a::len word) e) e = x"
  by (simp add: gtoh_def htog_def htobe_def betoh_def htole_def letoh_def swap_byte_involution)

text \<open>
  C25: a value stored with one of the supported widths and either byte order is loaded back as its
  low bytes, and the bytes of the buffer beyond the width are untouched.
\<close>

theorem uintX_round_trip:
  assumes "bytes \<in> {1, 2, 4, 8}" and "bytes \<le> length buf"
  shows "\<exists>buf'. setUintX val buf bytes endian = (buf', True) \<and> drop bytes buf' = drop bytes buf
    \<and> length buf' = length buf \<and> getUintX buf' bytes endian = (take_bit (8 * bytes) val, True)"
proof -
  have "ucast (ucast val :: 8 word) = take_bit 8 val" "ucast (ucast val :: 16 word) = take_bit 16 val"
    "ucast (ucast val :: 32 word) = take_bit 32 val" "take_bit 64 val = val"
    by (auto intro!: bit_word_eqI simp: bit_simps)
  then show ?thesis
    using assms by (auto simp: setUintX_def getUintX_def from_to_le gtoh_htog)
qed

theorem uintX_round_trip_witness:
  "\<exists>buf'. setUintX 0x11223344 [0, 0, 0, 0, 9] 4 big = (buf', True) \<and> drop 4 buf' = [9]
    \<and> getUintX buf' 4 big = (0x11223344, True)"
  using uintX_round_trip [of 4 "[0, 0, 0, 0, 9]" "0x11223344" big] by (auto simp: take_bit_eq_mod)

end
