(* ===== verification/Mem_Packet.thy ===== *)
theory Mem_Packet
  imports Mem_Command Mem_Request Addr_Range Byte_Order
begin

text \<open>
  The class \<^verbatim>\<open>Packet\<close> of \<^verbatim>\<open>mem/packet.hh\<close>, \<^verbatim>\<open>mem/packet.cc\<close> and \<^verbatim>\<open>mem/packet_access.hh\<close>. A packet carries a host
  pointer to its data; the bytes live in a host store (\<open>mem\<close>) that the operations read and
  write, so packets with static data share their bytes with the buffer they point to. The stack
  of sender states is the list of their identities, top first.
\<close>

unbundle bit_operations_syntax

section \<open>The packet\<close>

abbreviation COPY_FLAGS :: "32 word" where "COPY_FLAGS \<equiv> 0x000000FF"
abbreviation RESPONDER_FLAGS :: "32 word" where "RESPONDER_FLAGS \<equiv> 0x00000009"
abbreviation HAS_SHARERS :: "32 word" where "HAS_SHARERS \<equiv> 0x00000001"
abbreviation EXPRESS_SNOOP :: "32 word" where "EXPRESS_SNOOP \<equiv> 0x00000002"
abbreviation RESPONDER_HAD_WRITABLE :: "32 word" where "RESPONDER_HAD_WRITABLE \<equiv> 0x00000004"
abbreviation CACHE_RESPONDING :: "32 word" where "CACHE_RESPONDING \<equiv> 0x00000008"
abbreviation WRITE_THROUGH :: "32 word" where "WRITE_THROUGH \<equiv> 0x00000010"
abbreviation SATISFIED :: "32 word" where "SATISFIED \<equiv> 0x00000020"
abbreviation FAILS_TRANSACTION :: "32 word" where "FAILS_TRANSACTION \<equiv> 0x00000040"
abbreviation FROM_TRANSACTION :: "32 word" where "FROM_TRANSACTION \<equiv> 0x00000080"
abbreviation VALID_ADDR :: "32 word" where "VALID_ADDR \<equiv> 0x00000100"
abbreviation VALID_SIZE :: "32 word" where "VALID_SIZE \<equiv> 0x00000200"
abbreviation STATIC_DATA :: "32 word" where "STATIC_DATA \<equiv> 0x00001000"
abbreviation DYNAMIC_DATA :: "32 word" where "DYNAMIC_DATA \<equiv> 0x00002000"
abbreviation SUPPRESS_FUNC_ERROR :: "32 word" where "SUPPRESS_FUNC_ERROR \<equiv> 0x00008000"
abbreviation BLOCK_CACHED :: "32 word" where "BLOCK_CACHED \<equiv> 0x00010000"

datatype HtmCacheFailure = NO_FAIL | FAIL_SELF | FAIL_REMOTE | FAIL_OTHER

record Packet =
  cmd :: Command
  pflags :: "32 word"
  req :: Request
  data :: nat
  addr :: Addr
  p_secure :: bool
  psize :: nat
  bytesValid :: "bool list"
  qosValue :: "8 word"
  htmReturnReason :: HtmCacheFailure
  htmTransactionUid :: "64 word"
  headerDelay :: Tick
  snoopDelay :: Tick
  payloadDelay :: Tick
  senderState :: "nat list"

definition setf :: "32 word \<Rightarrow> Packet \<Rightarrow> Packet" where
  "setf m p = p\<lparr>pflags := flags_set (pflags p) m\<rparr>"

definition clearf :: "32 word \<Rightarrow> Packet \<Rightarrow> Packet" where
  "clearf m p = p\<lparr>pflags := flags_clear (pflags p) m\<rparr>"

section \<open>Construction\<close>

definition blankPacket :: "Request \<Rightarrow> Command \<Rightarrow> Packet" where
  "blankPacket r c = \<lparr>cmd = c, pflags = 0, req = r, data = 0, addr = 0, p_secure = False, psize = 0,
     bytesValid = [], qosValue = 0, htmReturnReason = NO_FAIL, htmTransactionUid = 0,
     headerDelay = 0, snoopDelay = 0, payloadDelay = 0, senderState = []\<rparr>"

definition newPacket :: "Request \<Rightarrow> Command \<Rightarrow> Packet res" where
  "newPacket r c =
     (let p = blankPacket r c;
          p = (if hasPaddr r then setf VALID_ADDR (p\<lparr>addr := r_paddr r, p_secure := req_isSecure r\<rparr>) else p);
          fin = (\<lambda>p. if hasSize r then setf VALID_SIZE (p\<lparr>psize := r_size r\<rparr>) else p)
      in if req_isHTMCmd r
         then (let p = setf VALID_ADDR p in ensure (addr p = 0) AssertFail (Inr (fin p)))
         else Inr (fin p))"

definition newBlockPacket :: "Request \<Rightarrow> Command \<Rightarrow> nat \<Rightarrow> Packet" where
  "newBlockPacket r c blkSize =
     (let p = blankPacket r c;
          p = (if hasPaddr r
               then setf VALID_ADDR (p\<lparr>addr := r_paddr r AND NOT (of_nat blkSize - 1), p_secure := req_isSecure r\<rparr>)
               else p)
      in setf VALID_SIZE (p\<lparr>psize := blkSize\<rparr>))"

definition setHtmTransactional :: "64 word \<Rightarrow> Packet \<Rightarrow> Packet" where
  "setHtmTransactional uid p = setf FROM_TRANSACTION p\<lparr>htmTransactionUid := uid\<rparr>"

definition isHtmTransactional :: "Packet \<Rightarrow> bool" where
  "isHtmTransactional p = isSet (pflags p) FROM_TRANSACTION"

definition getHtmTransactionUid :: "Packet \<Rightarrow> 64 word res" where
  "getHtmTransactionUid p = ensure (isSet (pflags p) FROM_TRANSACTION) AssertFail (Inr (htmTransactionUid p))"

definition setHtmTransactionFailedInCache :: "HtmCacheFailure \<Rightarrow> Packet \<Rightarrow> Packet" where
  "setHtmTransactionFailedInCache rc p =
     (if rc \<noteq> NO_FAIL then setf FAILS_TRANSACTION p else p)\<lparr>htmReturnReason := rc\<rparr>"

definition htmTransactionFailedInCache :: "Packet \<Rightarrow> bool" where
  "htmTransactionFailedInCache p = isSet (pflags p) FAILS_TRANSACTION"

definition getHtmTransactionFailedInCacheRC :: "Packet \<Rightarrow> HtmCacheFailure res" where
  "getHtmTransactionFailedInCacheRC p =
     ensure (htmTransactionFailedInCache p) AssertFail (Inr (htmReturnReason p))"

definition hasRespData :: "Packet \<Rightarrow> bool" where
  "hasRespData p = hasData (responseCommand (cmd p))"

text \<open>Allocation hands out the host address \<open>fresh\<close>.\<close>

definition getAddr :: "Packet \<Rightarrow> Addr res" where
  "getAddr p = ensure (isSet (pflags p) VALID_ADDR) AssertFail (Inr (addr p))"

definition setAddr :: "Addr \<Rightarrow> Packet \<Rightarrow> Packet res" where
  "setAddr a p = ensure (isSet (pflags p) VALID_ADDR) AssertFail (Inr (p\<lparr>addr := a\<rparr>))"

definition getSize :: "Packet \<Rightarrow> nat res" where
  "getSize p = ensure (isSet (pflags p) VALID_SIZE) AssertFail (Inr (psize p))"

definition isSecure :: "Packet \<Rightarrow> bool res" where
  "isSecure p = ensure (isSet (pflags p) VALID_ADDR) AssertFail (Inr (p_secure p))"

definition setSize :: "nat \<Rightarrow> Packet \<Rightarrow> Packet res" where
  "setSize n p = ensure (\<not> isSet (pflags p) VALID_SIZE) AssertFail (Inr (setf VALID_SIZE (p\<lparr>psize := n\<rparr>)))"

definition allocate :: "nat \<Rightarrow> Packet \<Rightarrow> Packet res" where
  "allocate fresh p =
     (if hasData (cmd p) \<or> hasRespData p then
        ensure (noneSet (pflags p) (STATIC_DATA OR DYNAMIC_DATA)) AssertFail
          (rbind (getSize p) (\<lambda>_. Inr ((setf DYNAMIC_DATA p)\<lparr>data := fresh\<rparr>)))
      else Inr p)"

definition copyPacket :: "nat \<Rightarrow> Packet \<Rightarrow> bool \<Rightarrow> bool \<Rightarrow> Packet res" where
  "copyPacket fresh pkt clear_flags alloc_data =
     (let p = pkt\<lparr>pflags := 0, data := 0, htmReturnReason := NO_FAIL, htmTransactionUid := 0, snoopDelay := 0\<rparr>;
          p = (if \<not> clear_flags then setf (pflags pkt AND COPY_FLAGS) p else p);
          p = setf (pflags pkt AND (VALID_ADDR OR VALID_SIZE)) p;
          p = (if isHtmTransactional pkt then setHtmTransactional (htmTransactionUid pkt) p else p);
          p = (if htmTransactionFailedInCache pkt then setHtmTransactionFailedInCache (htmReturnReason pkt) p else p)
      in if alloc_data then
           (if isSet (pflags pkt) STATIC_DATA then Inr (setf STATIC_DATA (p\<lparr>data := data pkt\<rparr>))
            else allocate fresh p)
         else Inr p)"

definition makeReadCmd :: "Request \<Rightarrow> Command" where
  "makeReadCmd r =
     (if req_isHTMCmd r then (if req_isHTMAbort r then HTMAbort else HTMReq)
      else if req_isLLSC r then LoadLockedReq
      else if req_isPrefetchEx r then SoftPFExReq
      else if req_isPrefetch r then SoftPFReq
      else if req_isLockedRMW r then LockedRMWReadReq
      else ReadReq)"

definition makeWriteCmd :: "Request \<Rightarrow> Command" where
  "makeWriteCmd r =
     (if req_isLLSC r then StoreCondReq
      else if req_isSwap r \<or> req_isAtomic r then SwapReq
      else if req_isCacheInvalidate r then (if req_isCacheClean r then CleanInvalidReq else InvalidateReq)
      else if req_isCacheClean r then CleanSharedReq
      else if req_isLockedRMW r then LockedRMWWriteReq
      else WriteReq)"

definition createRead :: "Request \<Rightarrow> Packet res" where
  "createRead r = newPacket r (makeReadCmd r)"

definition createWrite :: "Request \<Rightarrow> Packet res" where
  "createWrite r = newPacket r (makeWriteCmd r)"

section \<open>Commands and flags\<close>

definition makeResponse :: "Packet \<Rightarrow> Packet res" where
  "makeResponse p =
     ensure (needsResponse (cmd p)) AssertFail
     (ensure (isRequest (cmd p)) AssertFail
       (Inr (clearf EXPRESS_SNOOP (p\<lparr>cmd := responseCommand (cmd p)\<rparr>))))"

definition makeAtomicResponse :: "Packet \<Rightarrow> Packet res" where
  "makeAtomicResponse p = makeResponse p"

definition makeTimingResponse :: "Packet \<Rightarrow> Packet res" where
  "makeTimingResponse p = makeResponse p"

definition makeHtmTransactionalReqResponse :: "HtmCacheFailure \<Rightarrow> Packet \<Rightarrow> Packet res" where
  "makeHtmTransactionalReqResponse rc p =
     ensure (needsResponse (cmd p)) AssertFail
     (ensure (isRequest (cmd p)) AssertFail
       (Inr (clearf EXPRESS_SNOOP (setHtmTransactionFailedInCache rc (p\<lparr>cmd := responseCommand (cmd p)\<rparr>)))))"

definition setFunctionalResponseStatus :: "bool \<Rightarrow> Packet \<Rightarrow> Packet" where
  "setFunctionalResponseStatus success p =
     (if \<not> success then (if isWrite (cmd p) then p\<lparr>cmd := FunctionalWriteError\<rparr> else p\<lparr>cmd := FunctionalReadError\<rparr>)
      else p)"

definition setBadAddress :: "Packet \<Rightarrow> Packet res" where
  "setBadAddress p = ensure (isResponse (cmd p)) AssertFail (Inr (p\<lparr>cmd := BadAddressError\<rparr>))"

definition setBadCommand :: "Packet \<Rightarrow> Packet res" where
  "setBadCommand p = ensure (isResponse (cmd p)) AssertFail
     (Inr (if isWrite (cmd p) then p\<lparr>cmd := WriteError\<rparr> else p\<lparr>cmd := ReadError\<rparr>))"

definition copyError :: "Packet \<Rightarrow> Packet \<Rightarrow> Packet res" where
  "copyError other p = ensure (isError (cmd other)) AssertFail (Inr (p\<lparr>cmd := cmd other\<rparr>))"

definition convertScToWrite :: "Packet \<Rightarrow> Packet res" where
  "convertScToWrite p = ensure (isLLSC (cmd p)) AssertFail
     (ensure (isWrite (cmd p)) AssertFail (Inr (p\<lparr>cmd := WriteReq\<rparr>)))"

definition convertLlToRead :: "Packet \<Rightarrow> Packet res" where
  "convertLlToRead p = ensure (isLLSC (cmd p)) AssertFail
     (ensure (isRead (cmd p)) AssertFail (Inr (p\<lparr>cmd := ReadReq\<rparr>)))"

definition pkt_needsWritable :: "Packet \<Rightarrow> bool res" where
  "pkt_needsWritable p = ensure (isRequest (cmd p)) AssertFail (Inr (needsWritable (cmd p)))"

definition cacheResponding :: "Packet \<Rightarrow> bool" where
  "cacheResponding p = isSet (pflags p) CACHE_RESPONDING"

definition setCacheResponding :: "Packet \<Rightarrow> Packet res" where
  "setCacheResponding p = ensure (isRequest (cmd p)) AssertFail
     (ensure (\<not> isSet (pflags p) CACHE_RESPONDING) AssertFail (Inr (setf CACHE_RESPONDING p)))"

definition setHasSharers :: "Packet \<Rightarrow> Packet" where "setHasSharers p = setf HAS_SHARERS p"
definition hasSharers :: "Packet \<Rightarrow> bool" where "hasSharers p = isSet (pflags p) HAS_SHARERS"
definition setExpressSnoop :: "Packet \<Rightarrow> Packet" where "setExpressSnoop p = setf EXPRESS_SNOOP p"
definition isExpressSnoop :: "Packet \<Rightarrow> bool" where "isExpressSnoop p = isSet (pflags p) EXPRESS_SNOOP"

definition responderHadWritable :: "Packet \<Rightarrow> bool" where
  "responderHadWritable p = isSet (pflags p) RESPONDER_HAD_WRITABLE"

definition setResponderHadWritable :: "Packet \<Rightarrow> Packet res" where
  "setResponderHadWritable p = ensure (cacheResponding p) AssertFail
     (ensure (\<not> responderHadWritable p) AssertFail (Inr (setf RESPONDER_HAD_WRITABLE p)))"

definition copyResponderFlags :: "Packet \<Rightarrow> Packet \<Rightarrow> Packet res" where
  "copyResponderFlags other p = ensure (isRequest (cmd p)) AssertFail
     (ensure (\<not> cacheResponding other \<or> \<not> cacheResponding p) AssertFail
       (Inr (setf (pflags other AND RESPONDER_FLAGS) p)))"

definition setWriteThrough :: "Packet \<Rightarrow> Packet res" where
  "setWriteThrough p = ensure (isWrite (cmd p) \<and> (isEviction (cmd p) \<or> cmd p = WriteClean)) AssertFail
     (Inr (setf WRITE_THROUGH p))"

definition setSatisfied :: "Packet \<Rightarrow> Packet res" where
  "setSatisfied p = ensure (isClean (cmd p)) AssertFail
     (ensure (\<not> isSet (pflags p) SATISFIED) AssertFail (Inr (setf SATISFIED p)))"

definition pushSenderState :: "nat \<Rightarrow> Packet \<Rightarrow> Packet" where
  "pushSenderState s p = p\<lparr>senderState := s # senderState p\<rparr>"

definition popSenderState :: "Packet \<Rightarrow> (nat \<times> Packet) res" where
  "popSenderState p = (case senderState p of
       [] \<Rightarrow> Inl AssertFail
     | s # ss \<Rightarrow> Inr (s, p\<lparr>senderState := ss\<rparr>))"

definition mustCheckAbove :: "Packet \<Rightarrow> bool" where
  "mustCheckAbove p = (cmd p = HardPFReq \<or> isEviction (cmd p))"

definition isCleanEviction :: "Packet \<Rightarrow> bool" where
  "isCleanEviction p = (cmd p = CleanEvict \<or> cmd p = WritebackClean)"

definition isMaskedWrite :: "Packet \<Rightarrow> bool" where
  "isMaskedWrite p = (cmd p = WriteReq \<and> isMasked (req p))"

section \<open>Addresses\<close>

definition getAddrRange :: "Packet \<Rightarrow> AddrRange res" where
  "getAddrRange p = rbind (getAddr p) (\<lambda>a. rbind (getSize p) (\<lambda>n. Inr (RangeSize a (of_nat n))))"

definition pkt_getOffset :: "nat \<Rightarrow> Packet \<Rightarrow> Addr res" where
  "pkt_getOffset blk_size p = rbind (getAddr p) (\<lambda>a. Inr (a AND (of_nat blk_size - 1)))"

definition getBlockAddr :: "nat \<Rightarrow> Packet \<Rightarrow> Addr res" where
  "getBlockAddr blk_size p = rbind (getAddr p) (\<lambda>a. Inr (a AND NOT (of_nat blk_size - 1)))"

definition isWholeLineWrite :: "nat \<Rightarrow> Packet \<Rightarrow> bool res" where
  "isWholeLineWrite blk_size p =
     (if cmd p = WriteReq \<or> cmd p = WriteLineReq then
        rbind (pkt_getOffset blk_size p) (\<lambda>off.
          if off = 0 then rbind (getSize p) (\<lambda>n. Inr (n = blk_size \<and> \<not> isMaskedWrite p)) else Inr False)
      else Inr False)"

definition matchBlockAddr :: "Addr \<Rightarrow> bool \<Rightarrow> nat \<Rightarrow> Packet \<Rightarrow> bool res" where
  "matchBlockAddr a sec blk_size p =
     rbind (getBlockAddr blk_size p) (\<lambda>b. if b = a then rbind (isSecure p) (\<lambda>s. Inr (s = sec)) else Inr False)"

definition matchAddr :: "Addr \<Rightarrow> bool \<Rightarrow> Packet \<Rightarrow> bool res" where
  "matchAddr a sec p = rbind (getAddr p) (\<lambda>b. if b = a then rbind (isSecure p) (\<lambda>s. Inr (s = sec)) else Inr False)"

section \<open>Data\<close>

definition dataStatic :: "nat \<Rightarrow> Packet \<Rightarrow> Packet res" where
  "dataStatic ptr p = ensure (noneSet (pflags p) (STATIC_DATA OR DYNAMIC_DATA)) AssertFail
     (Inr ((setf STATIC_DATA p)\<lparr>data := ptr\<rparr>))"

definition dataDynamic :: "nat \<Rightarrow> Packet \<Rightarrow> Packet res" where
  "dataDynamic ptr p = ensure (noneSet (pflags p) (STATIC_DATA OR DYNAMIC_DATA)) AssertFail
     (Inr ((setf DYNAMIC_DATA p)\<lparr>data := ptr\<rparr>))"

definition getPtr :: "Packet \<Rightarrow> nat res" where
  "getPtr p = ensure (isSet (pflags p) (STATIC_DATA OR DYNAMIC_DATA)) AssertFail
     (ensure (\<not> isMaskedWrite p) AssertFail (Inr (data p)))"

definition getConstPtr :: "Packet \<Rightarrow> nat res" where
  "getConstPtr p = ensure (isSet (pflags p) (STATIC_DATA OR DYNAMIC_DATA)) AssertFail (Inr (data p))"

definition deleteData :: "Packet \<Rightarrow> Packet" where
  "deleteData p = (clearf (STATIC_DATA OR DYNAMIC_DATA) p)\<lparr>data := 0\<rparr>"

definition setData :: "mem \<Rightarrow> nat \<Rightarrow> Packet \<Rightarrow> mem res" where
  "setData m src p =
     rbind (getPtr p) (\<lambda>ptr.
       ensure (src \<noteq> ptr \<or> isSet (pflags p) STATIC_DATA) AssertFail
         (if src \<noteq> ptr then rbind (getSize p) (\<lambda>n. Inr (write_bytes m ptr (read_bytes m src n)))
          else Inr m))"

definition setDataFromBlock :: "mem \<Rightarrow> nat \<Rightarrow> nat \<Rightarrow> Packet \<Rightarrow> mem res" where
  "setDataFromBlock m blk_data blkSize p =
     rbind (pkt_getOffset blkSize p) (\<lambda>off. setData m (blk_data + unat off) p)"

text \<open>The masked copy of \<^verbatim>\<open>writeData\<close>, byte by byte.\<close>

fun write_enabled :: "mem \<Rightarrow> nat \<Rightarrow> nat \<Rightarrow> bool list \<Rightarrow> mem" where
  "write_enabled m dst src [] = m"
| "write_enabled m dst src (b # bs) =
     write_enabled (if b then m(dst := m src) else m) (Suc dst) (Suc src) bs"

definition writeData :: "mem \<Rightarrow> nat \<Rightarrow> Packet \<Rightarrow> mem res" where
  "writeData m dst p =
     (if \<not> isMaskedWrite p then
        rbind (getConstPtr p) (\<lambda>ptr. rbind (getSize p) (\<lambda>n. Inr (write_bytes m dst (read_bytes m ptr n))))
      else
        rbind (getSize p) (\<lambda>n. ensure (length (byteEnable (req p)) = n) AssertFail
          (rbind (getConstPtr p) (\<lambda>ptr. Inr (write_enabled m dst ptr (byteEnable (req p)))))))"

definition writeDataToBlock :: "mem \<Rightarrow> nat \<Rightarrow> nat \<Rightarrow> Packet \<Rightarrow> mem res" where
  "writeDataToBlock m blk_data blkSize p =
     rbind (pkt_getOffset blkSize p) (\<lambda>off. writeData m (blk_data + unat off) p)"

text \<open>Typed access; the first argument is \<^verbatim>\<open>sizeof(T)\<close>.\<close>

definition getRaw :: "nat \<Rightarrow> mem \<Rightarrow> Packet \<Rightarrow> 'a::len word res" where
  "getRaw n m p = ensure (isSet (pflags p) (STATIC_DATA OR DYNAMIC_DATA)) AssertFail
     (ensure (n \<le> psize p) AssertFail (Inr (from_le (read_bytes m (data p) n))))"

definition setRaw :: "nat \<Rightarrow> mem \<Rightarrow> 'a::len word \<Rightarrow> Packet \<Rightarrow> mem res" where
  "setRaw n m v p = ensure (isSet (pflags p) (STATIC_DATA OR DYNAMIC_DATA)) AssertFail
     (ensure (n \<le> psize p) AssertFail (Inr (write_bytes m (data p) (to_le n v))))"

definition getLE :: "nat \<Rightarrow> mem \<Rightarrow> Packet \<Rightarrow> 'a::len word res" where
  "getLE n m p = rbind (getRaw n m p) (\<lambda>v. Inr (letoh v))"

definition getBE :: "nat \<Rightarrow> mem \<Rightarrow> Packet \<Rightarrow> 'a::len word res" where
  "getBE n m p = rbind (getRaw n m p) (\<lambda>v. Inr (betoh n v))"

definition setLE :: "nat \<Rightarrow> mem \<Rightarrow> 'a::len word \<Rightarrow> Packet \<Rightarrow> mem res" where
  "setLE n m v p = setRaw n m (htole v) p"

definition setBE :: "nat \<Rightarrow> mem \<Rightarrow> 'a::len word \<Rightarrow> Packet \<Rightarrow> mem res" where
  "setBE n m v p = setRaw n m (htobe n v) p"

definition pkt_get :: "nat \<Rightarrow> mem \<Rightarrow> Packet \<Rightarrow> ByteOrder \<Rightarrow> 'a::len word res" where
  "pkt_get n m p endian = (case endian of big \<Rightarrow> getBE n m p | little \<Rightarrow> getLE n m p)"

definition pkt_set :: "nat \<Rightarrow> mem \<Rightarrow> 'a::len word \<Rightarrow> Packet \<Rightarrow> ByteOrder \<Rightarrow> mem res" where
  "pkt_set n m v p endian = (case endian of big \<Rightarrow> setBE n m v p | little \<Rightarrow> setLE n m v p)"

definition pkt_getUintX :: "mem \<Rightarrow> Packet \<Rightarrow> ByteOrder \<Rightarrow> 64 word res" where
  "pkt_getUintX m p endian =
     rbind (getConstPtr p) (\<lambda>ptr. rbind (getSize p) (\<lambda>n.
       let (val, success) = getUintX (read_bytes m ptr n) n endian in ensure success Panic (Inr val)))"

definition pkt_setUintX :: "mem \<Rightarrow> 64 word \<Rightarrow> Packet \<Rightarrow> ByteOrder \<Rightarrow> mem res" where
  "pkt_setUintX m w p endian =
     rbind (getPtr p) (\<lambda>ptr. rbind (getSize p) (\<lambda>n.
       let (buf, success) = setUintX w (read_bytes m ptr n) n endian
       in ensure success Panic (Inr (write_bytes m ptr buf))))"

section \<open>Functional accesses\<close>

text \<open>The loops over \<^verbatim>\<open>bytesValid\<close>: each stops as soon as the accumulator is false.\<close>

fun valid_loop :: "bool \<Rightarrow> bool list \<Rightarrow> bool" where
  "valid_loop all_valid [] = all_valid"
| "valid_loop all_valid (b # bs) = (if all_valid then valid_loop (all_valid \<and> b) bs else all_valid)"

definition mark_valid :: "bool list \<Rightarrow> nat \<Rightarrow> nat \<Rightarrow> bool list" where
  "mark_valid bv off n = take off bv @ replicate n True @ drop (off + n) bv"

definition trySatisfyFunctional ::
  "mem \<Rightarrow> Packet \<Rightarrow> Addr \<Rightarrow> bool \<Rightarrow> nat \<Rightarrow> nat option \<Rightarrow> (mem \<times> Packet \<times> bool) res" where
  "trySatisfyFunctional m p a is_secure sz d =
     rbind (getAddr p) (\<lambda>func_start. rbind (getSize p) (\<lambda>n.
       let func_end = func_start + of_nat n - 1;
           val_start = a;
           val_end = val_start + of_nat sz - 1
       in if is_secure \<noteq> p_secure p \<or> func_start > val_end \<or> val_start > func_end then Inr (m, p, False)
          else if isPrint (cmd p) then ensure (d = None) AssertFail (Inr (m, p, False))
          else case d of
              None \<Rightarrow> Inr (m, p, False)
            | Some dptr \<Rightarrow>
              (let val_offset = unat (if func_start > val_start then func_start - val_start else 0);
                   func_offset = unat (if func_start < val_start then val_start - func_start else 0);
                   overlap_size = unat (min val_end func_end + 1 - max val_start func_start)
               in if isRead (cmd p) then
                    rbind (getPtr p) (\<lambda>ptr.
                      let m = write_bytes m (ptr + func_offset) (read_bytes m (dptr + val_offset) overlap_size);
                          bv = (if bytesValid p = [] then replicate n False else bytesValid p);
                          ok = valid_loop True (take func_offset bv);
                          bv = mark_valid bv func_offset overlap_size;
                          ok = valid_loop ok (take (n - (func_offset + overlap_size)) (drop (func_offset + overlap_size) bv))
                      in Inr (m, p\<lparr>bytesValid := bv\<rparr>, ok))
                  else if isWrite (cmd p) then
                    rbind (getConstPtr p) (\<lambda>ptr.
                      Inr (write_bytes m (dptr + val_offset) (read_bytes m (ptr + func_offset) overlap_size), p, False))
                  else Inl Panic)))"

text \<open>The overload that takes another packet; the warning has no effect on the state.\<close>

definition trySatisfyFunctional_pkt :: "mem \<Rightarrow> Packet \<Rightarrow> Packet \<Rightarrow> (mem \<times> Packet \<times> bool) res" where
  "trySatisfyFunctional_pkt m p other =
     (if isMaskedWrite other then Inr (m, p, False)
      else rbind (getAddr other) (\<lambda>a. rbind (isSecure other) (\<lambda>sec. rbind (getSize other) (\<lambda>sz.
        if hasData (cmd other)
        then rbind (getPtr other) (\<lambda>ptr. trySatisfyFunctional m p a sec sz (Some ptr))
        else trySatisfyFunctional m p a sec sz None))))"

section \<open>Facts about packets\<close>

text \<open>The packets the devices exchange: address, size and data pointer are set.\<close>

definition pkt_ok :: "Packet \<Rightarrow> bool" where
  "pkt_ok p \<longleftrightarrow> isSet (pflags p) VALID_ADDR \<and> isSet (pflags p) VALID_SIZE
     \<and> isSet (pflags p) (STATIC_DATA OR DYNAMIC_DATA) \<and> \<not> isMaskedWrite p \<and> 0 < psize p \<and> psize p < 2 ^ 32"

lemma pkt_okD:
  "pkt_ok p \<Longrightarrow> getAddr p = Inr (addr p)" "pkt_ok p \<Longrightarrow> getSize p = Inr (psize p)"
  "pkt_ok p \<Longrightarrow> getPtr p = Inr (data p)" "pkt_ok p \<Longrightarrow> getConstPtr p = Inr (data p)"
  "pkt_ok p \<Longrightarrow> isSecure p = Inr (p_secure p)"
  by (simp_all add: pkt_ok_def getAddr_def getSize_def getPtr_def getConstPtr_def isSecure_def)

lemma setf_simps [simp]: "cmd (setf m p) = cmd p" "addr (setf m p) = addr p" "psize (setf m p) = psize p"
  "data (setf m p) = data p" "req (setf m p) = req p" "pflags (setf m p) = flags_set (pflags p) m"
  "senderState (setf m p) = senderState p"
  by (simp_all add: setf_def)

lemma clearf_simps [simp]: "cmd (clearf m p) = cmd p" "addr (clearf m p) = addr p" "psize (clearf m p) = psize p"
  "data (clearf m p) = data p" "req (clearf m p) = req p" "pflags (clearf m p) = flags_clear (pflags p) m"
  "senderState (clearf m p) = senderState p"
  by (simp_all add: clearf_def)

lemma setLE_getLE:
  assumes "setLE n m v p = Inr m'" and "LENGTH('a) = 8 * n"
  shows "getLE n m' p = Inr (v :: 'a::len word)"
  using assms by (auto simp: setLE_def getLE_def setRaw_def getRaw_def res_simps htole_def letoh_def
      read_write_same from_to_le)

lemma setBE_getBE:
  assumes "setBE n m v p = Inr m'" and "LENGTH('a) = 8 * n"
  shows "getBE n m' p = Inr (v :: 'a::len word)"
  using assms by (auto simp: setBE_def getBE_def setRaw_def getRaw_def res_simps htobe_def betoh_def
      read_write_same from_to_le swap_byte_involution)

lemma popSenderState_push: "popSenderState (pushSenderState s p) = Inr (s, p)"
  by (simp add: popSenderState_def pushSenderState_def)

lemma valid_loop_iff: "valid_loop b bs \<longleftrightarrow> b \<and> (\<forall>x \<in> set bs. x)"
  by (induction bs arbitrary: b) auto

lemma unat_last:
  assumes "0 < n" and "unat (x :: Addr) + n \<le> 2 ^ 64"
  shows "unat (x + of_nat n - 1) = unat x + n - 1"
proof -
  have "x + of_nat n - 1 = x + of_nat (n - 1)" using assms(1) by (simp add: of_nat_diff)
  moreover have "unat (of_nat (n - 1) :: Addr) = n - 1"
  proof -
    have "n - 1 < 2 ^ LENGTH(64)" using assms by simp
    then show ?thesis unfolding unat_of_nat by (rule mod_less)
  qed
  moreover have "unat x + (n - 1) < 2 ^ 64" "unat x + (n - 1) = unat x + n - 1" using assms by linarith+
  ultimately show ?thesis by (simp only: unat_add_small)
qed

lemma unat_diff: "y \<le> x \<Longrightarrow> unat (x - y :: Addr) = unat x - unat y"
  by (simp add: unat_sub_if' word_le_nat_alt)

text \<open>The three offsets of \<^verbatim>\<open>trySatisfyFunctional\<close> in natural numbers.\<close>

lemma overlap_offsets:
  fixes fs vs :: Addr
  assumes "0 < n" "unat fs + n \<le> 2 ^ 64" "n < 2 ^ 32" "0 < sz" "unat vs + sz \<le> 2 ^ 64"
    and ov: "unat fs < unat vs + sz" "unat vs < unat fs + n"
  shows "\<not> (fs > vs + of_nat sz - 1 \<or> vs > fs + of_nat n - 1)"
    and "unat (if fs > vs then fs - vs else 0) = unat fs - unat vs"
    and "unat (if fs < vs then vs - fs else 0) = unat vs - unat fs"
    and "unat (min (vs + of_nat sz - 1) (fs + of_nat n - 1) + 1 - max vs fs)
      = min (unat vs + sz) (unat fs + n) - max (unat vs) (unat fs)"
proof -
  let ?fe = "fs + of_nat n - 1" and ?ve = "vs + of_nat sz - 1"
  have fe: "unat ?fe = unat fs + n - 1" and ve: "unat ?ve = unat vs + sz - 1"
    using assms unat_last by blast+
  show "\<not> (fs > ?ve \<or> vs > ?fe)"
    using ov assms(1,4) unfolding word_less_nat_alt fe ve by linarith
  show "unat (if fs > vs then fs - vs else 0) = unat fs - unat vs"
    "unat (if fs < vs then vs - fs else 0) = unat vs - unat fs"
    by (auto simp: unat_diff word_less_nat_alt word_le_nat_alt)
  have mn: "unat (min ?ve ?fe) = min (unat vs + sz - 1) (unat fs + n - 1)"
    by (simp add: min_def word_le_nat_alt fe ve)
  have mx: "unat (max vs fs) = max (unat vs) (unat fs)" by (simp add: max_def word_le_nat_alt)
  have le: "max vs fs \<le> min ?ve ?fe"
    using ov assms(1,4) by (auto simp: word_le_nat_alt mn mx)
  have "unat (min ?ve ?fe - max vs fs) = min (unat vs + sz - 1) (unat fs + n - 1) - max (unat vs) (unat fs)"
    by (simp only: unat_diff [OF le] mn mx)
  moreover have "min ?ve ?fe + 1 - max vs fs = (min ?ve ?fe - max vs fs) + 1" by simp
  moreover have "min (unat vs + sz - 1) (unat fs + n - 1) - max (unat vs) (unat fs) + 1 < 2 ^ 64"
    using assms(3) by (auto simp: min_def max_def)
  ultimately have "unat (min ?ve ?fe + 1 - max vs fs)
      = min (unat vs + sz - 1) (unat fs + n - 1) - max (unat vs) (unat fs) + 1"
    by (simp only: unat_add_small unat_1)
  also have "\<dots> = min (unat vs + sz) (unat fs + n) - max (unat vs) (unat fs)"
    using ov assms(1,4) by (auto simp: min_def max_def)
  finally show "unat (min ?ve ?fe + 1 - max vs fs)
      = min (unat vs + sz) (unat fs + n) - max (unat vs) (unat fs)" .
qed

lemma mark_valid_nth:
  "off + n \<le> length bv \<Longrightarrow> i < length bv \<Longrightarrow>
     length (mark_valid bv off n) = length bv \<and>
     mark_valid bv off n ! i = (if off \<le> i \<and> i < off + n then True else bv ! i)"
  by (auto simp: mark_valid_def nth_append)

lemma all_valid_iff:
  assumes "off + n \<le> length bv"
  shows "valid_loop (valid_loop True (take off bv))
      (take (length bv - (off + n)) (drop (off + n) (mark_valid bv off n))) \<longleftrightarrow> (\<forall>i < length bv. mark_valid bv off n ! i)"
proof -
  have len: "length (mark_valid bv off n) = length bv" using assms by (simp add: mark_valid_def)
  have tail: "drop (off + n) (mark_valid bv off n) = drop (off + n) bv" using assms by (simp add: mark_valid_def)
  have "(\<forall>i < length bv. mark_valid bv off n ! i) \<longleftrightarrow> (\<forall>x \<in> set (mark_valid bv off n). x)"
    by (simp only: all_set_conv_all_nth len)
  also have "\<dots> \<longleftrightarrow> (\<forall>x \<in> set (take off bv). x) \<and> (\<forall>x \<in> set (drop (off + n) bv). x)"
    by (simp only: mark_valid_def set_append set_replicate_conv_if ball_Un) simp
  finally show ?thesis by (simp add: valid_loop_iff tail)
qed

text \<open>
  C26: a functional read that meets a buffer with valid data takes from it exactly the bytes both
  cover, marks exactly these bytes as valid and touches nothing else in the host store. It reports
  completion exactly when every byte of the read has become valid.
\<close>

theorem functional_read_correct:
  assumes p: "pkt_ok p" "isRead (cmd p)" "\<not> isPrint (cmd p)" "bytesValid p = [] \<or> length (bytesValid p) = psize p"
    and wrap: "unat (addr p) + psize p \<le> 2 ^ 64" "0 < sz" "unat a + sz \<le> 2 ^ 64"
    and meet: "p_secure p = sec" "unat (addr p) < unat a + sz" "unat a < unat (addr p) + psize p"
    and apart: "data p + psize p \<le> d \<or> d + sz \<le> data p"
  shows "\<exists>m' p' complete. trySatisfyFunctional m p a sec sz (Some d) = Inr (m', p', complete)
    \<and> (\<forall>i < psize p. let g = unat (addr p) + i; hit = (unat a \<le> g \<and> g < unat a + sz) in
         m' (data p + i) = (if hit then m (d + (g - unat a)) else m (data p + i))
         \<and> bytesValid p' ! i = (hit \<or> (bytesValid p \<noteq> [] \<and> bytesValid p ! i)))
    \<and> (\<forall>j. j < data p \<or> data p + psize p \<le> j \<longrightarrow> m' j = m j)
    \<and> complete = (\<forall>i < psize p. bytesValid p' ! i)"
proof -
  define f v n where d: "f = unat (addr p)" "v = unat a" "n = psize p"
  have n: "0 < n" "n < 2 ^ 32" using p(1) by (simp_all add: pkt_ok_def d)
  note off = overlap_offsets [of n "addr p" sz a, folded d, OF n(1) wrap(1)[folded d] n(2) wrap(2) wrap(3)[folded d]
      meet(2)[folded d] meet(3)[folded d]]
  define foff voff ov where o: "foff = v - f" "voff = f - v" "ov = min (v + sz) (f + n) - max v f"
  define bv where "bv = (if bytesValid p = [] then replicate n False else bytesValid p)"
  have len: "length bv = n" "foff + ov \<le> n"
    using p(4) meet(2,3) by (auto simp: bv_def d o min_def max_def)
  define m' where "m' = write_bytes m (data p + foff) (read_bytes m (d + voff) ov)"
  have eq: "trySatisfyFunctional m p a sec sz (Some d) = Inr (m', p\<lparr>bytesValid := mark_valid bv foff ov\<rparr>,
      \<forall>i < n. mark_valid bv foff ov ! i)"
  proof -
    have c: "(sec \<noteq> p_secure p \<or> addr p > a + of_nat sz - 1 \<or> a > addr p + of_nat n - 1) = False"
      "isPrint (cmd p) = False" "isRead (cmd p) = True"
      using off(1) meet(1) p(2,3) by simp_all
    note all = all_valid_iff [of foff ov bv, unfolded len(1), OF len(2)]
    show ?thesis
      unfolding trySatisfyFunctional_def pkt_okD [OF p(1)] rbind.simps Let_def d(3)[symmetric] c off(2-4)
        o[symmetric] m'_def bv_def[symmetric] all if_True if_False option.case ..
  qed
  have "m' (data p + i) = (if v \<le> f + i \<and> f + i < v + sz then m (d + (f + i - v)) else m (data p + i))"
    "mark_valid bv foff ov ! i = ((v \<le> f + i \<and> f + i < v + sz) \<or> bv ! i)" if i: "i < n" for i
  proof -
    have iff: "foff \<le> i \<and> i < foff + ov \<longleftrightarrow> v \<le> f + i \<and> f + i < v + sz"
      using i meet(2,3) by (auto simp: o d min_def max_def)
    show "mark_valid bv foff ov ! i = ((v \<le> f + i \<and> f + i < v + sz) \<or> bv ! i)"
      using mark_valid_nth [of foff ov bv i] len i iff by auto
    show "m' (data p + i) = (if v \<le> f + i \<and> f + i < v + sz then m (d + (f + i - v)) else m (data p + i))"
    proof (cases "foff \<le> i \<and> i < foff + ov")
      case True
      then have "d + voff + (i - foff) = d + (f + i - v)" using iff by (auto simp: o)
      then show ?thesis using True iff by (auto simp: m'_def write_bytes_def)
    next
      case False
      then show ?thesis using iff by (auto simp: m'_def write_bytes_def)
    qed
  qed
  moreover have "m' j = m j" if "j < data p \<or> data p + n \<le> j" for j
    using that len(2) by (auto simp: m'_def write_bytes_def)
  moreover have "bv ! i = (bytesValid p \<noteq> [] \<and> bytesValid p ! i)" if "i < n" for i
    using that by (simp add: bv_def)
  ultimately show ?thesis
    unfolding eq Let_def d(1,2)[symmetric] d(3)[symmetric] by auto
qed

lemma ReadReq_attrs [simp]: "isRead ReadReq" "\<not> isWrite ReadReq" "\<not> isPrint ReadReq" "needsResponse ReadReq"
  "isRequest ReadReq" "responseCommand ReadReq = ReadResp" "\<not> isLLSC ReadReq" "\<not> hasData ReadReq"
  "\<not> isInvalidate ReadReq" "\<not> isClean ReadReq" "\<not> isResponse ReadReq" "\<not> isEviction ReadReq" "\<not> isWriteback ReadReq"
  by code_simp+

lemma WriteReq_attrs [simp]: "isWrite WriteReq" "\<not> isRead WriteReq" "\<not> isPrint WriteReq" "needsResponse WriteReq"
  "isRequest WriteReq" "responseCommand WriteReq = WriteResp" "\<not> isLLSC WriteReq" "hasData WriteReq"
  "\<not> isInvalidate WriteReq" "\<not> isClean WriteReq" "\<not> isResponse WriteReq" "\<not> isEviction WriteReq" "\<not> isWriteback WriteReq"
  by code_simp+

lemma ReadResp_attrs [simp]: "isRead ReadResp" "\<not> isWrite ReadResp" "isResponse ReadResp" "\<not> isRequest ReadResp"
  "\<not> needsResponse ReadResp" "\<not> isError ReadResp" "hasData ReadResp"
  by code_simp+

lemma WriteResp_attrs [simp]: "isWrite WriteResp" "\<not> isRead WriteResp" "isResponse WriteResp" "\<not> isRequest WriteResp"
  "\<not> needsResponse WriteResp" "\<not> isError WriteResp" "\<not> hasData WriteResp"
  by code_simp+

definition sample_read :: Packet where
  "sample_read = (blankPacket (physRequest 0 0x100 8 0 0) ReadReq)
     \<lparr>pflags := 0x1300, addr := 0x100, psize := 8, data := 1000\<rparr>"

theorem functional_read_correct_witness:
  "\<exists>m' p' complete. trySatisfyFunctional (\<lambda>i. of_nat i) sample_read 0x104 False 8 (Some 2000) = Inr (m', p', complete)
    \<and> m' 1003 = of_nat 1003 \<and> m' 1004 = of_nat 2000 \<and> \<not> complete"
proof -
  let ?m = "(\<lambda>i. of_nat i) :: mem"
  have s: "psize sample_read = 8" "addr sample_read = 0x100" "data sample_read = 1000" "bytesValid sample_read = []"
    "p_secure sample_read = False" "cmd sample_read = ReadReq"
    by (simp_all add: sample_read_def blankPacket_def)
  have "pkt_ok sample_read"
    by (simp add: pkt_ok_def isMaskedWrite_def s) (simp add: sample_read_def isSet_def)
  then obtain m' p' complete where r: "trySatisfyFunctional ?m sample_read 0x104 False 8 (Some 2000) = Inr (m', p', complete)"
    and b: "\<forall>i<8. m' (1000 + i) = (if 260 \<le> 256 + i \<and> 256 + i < 268 then ?m (2000 + (256 + i - 260)) else ?m (1000 + i))
      \<and> bytesValid p' ! i = (260 \<le> 256 + i \<and> 256 + i < 268)"
    and c: "complete = (\<forall>i<8. bytesValid p' ! i)"
    using functional_read_correct [of sample_read 8 "0x104" False 2000 ?m] by (auto simp: s Let_def)
  have "m' (1000 + 3) = ?m (1000 + 3)" "m' (1000 + 4) = ?m 2000" "\<not> bytesValid p' ! 3"
    using b [rule_format, of 3] b [rule_format, of 4] by simp_all
  then show ?thesis using r c by auto
qed

end
