(* ===== verification/Memory_Peer.thy ===== *)
theory Memory_Peer
  imports Mem_Packet
begin

text \<open>
  What a device relies on when it sends atomic requests to the memory system: the contract of
  \<^verbatim>\<open>AtomicRequestProtocol::send\<close> (\<^verbatim>\<open>mem/protocol/atomic.hh\<close>) for plain reads and writes of memory. The DMA port is
  verified once against it; the memory controllers interpret it.
\<close>

text \<open>A request as a device builds it, and the response to it.\<close>

definition plain_request :: "Packet \<Rightarrow> bool" where
  "plain_request p \<longleftrightarrow> pkt_ok p \<and> \<not> cacheResponding p \<and> \<not> req_isInstFetch (req p) \<and> hasPaddr (req p)"

definition answers :: "Packet \<Rightarrow> Packet \<Rightarrow> bool" where
  "answers p q \<longleftrightarrow> isResponse (cmd q) \<and> senderState q = senderState p \<and> req q = req p \<and> addr q = addr p
     \<and> isSet (pflags q) VALID_ADDR"

text \<open>\<open>view\<close> is the memory as simulated addresses see it, and \<open>reach w a n d\<close> says that the memory serves the
  \<open>n\<close> bytes from address \<open>a\<close> with a buffer at the host address \<open>d\<close>, which is not part of the memory itself.\<close>

locale memory_peer =
  fixes send :: "mem \<Rightarrow> 'w \<Rightarrow> Packet \<Rightarrow> (Tick \<times> mem \<times> 'w \<times> Packet) res"
    and view :: "mem \<Rightarrow> 'w \<Rightarrow> Addr \<Rightarrow> byte"
    and reach :: "'w \<Rightarrow> Addr \<Rightarrow> nat \<Rightarrow> nat \<Rightarrow> bool"
  assumes reach_part: "reach w a n d \<Longrightarrow> i + m \<le> n \<Longrightarrow> reach w (a + of_nat i) m (d + i)"
    and reach_fits: "reach w a n d \<Longrightarrow> unat a + n < 2 ^ 64"
    and view_frame: "reach w a n d \<Longrightarrow> length bs \<le> n \<Longrightarrow> view (write_bytes h d bs) w = view h w"
    and send_read: "reach w (addr p) (psize p) (data p) \<Longrightarrow> plain_request p \<Longrightarrow> cmd p = ReadReq \<Longrightarrow>
      \<exists>lat w' q. send h w p = Inr (lat, write_bytes h (data p) (map (\<lambda>i. view h w (addr p + of_nat i)) [0..<psize p]), w', q)
        \<and> answers p q \<and> reach w' = reach w \<and> (\<forall>h. view h w' = view h w)"
    and send_write: "reach w (addr p) (psize p) (data p) \<Longrightarrow> plain_request p \<Longrightarrow> cmd p = WriteReq \<Longrightarrow>
      \<exists>lat h' w' q. send h w p = Inr (lat, h', w', q) \<and> answers p q \<and> reach w' = reach w
        \<and> (\<forall>x. view h' w' x = (if unat (addr p) \<le> unat x \<and> unat x < unat (addr p) + psize p
              then h (data p + (unat x - unat (addr p))) else view h w x))
        \<and> (\<forall>a n d j. reach w a n d \<and> d \<le> j \<and> j < d + n \<longrightarrow> h' j = h j)"

end
