(* ===== verification/Abstract_Memory.thy ===== *)
theory Abstract_Memory
  imports Memory_Peer
begin

text \<open>
  The class \<^verbatim>\<open>AbstractMemory\<close> of \<^verbatim>\<open>mem/abstract_mem.hh\<close> and \<^verbatim>\<open>mem/abstract_mem.cc\<close> with the back door of
  \<^verbatim>\<open>mem/backdoor.hh\<close> and the reservations of load-locked and store-conditional accesses. The backing
  store is host memory: an access copies between the packet's data and the store at
  \<^verbatim>\<open>toHostAddr\<close>. The contexts whose exclusive monitor an access clears are appended to
  \<open>clearedExclusive\<close>, and the invalidation callbacks a back door has run to \<open>bd_called\<close>.
\<close>

unbundle bit_operations_syntax

section \<open>The back door\<close>

abbreviation (input) Readable :: "32 word" where "Readable \<equiv> 1"
abbreviation (input) Writeable :: "32 word" where "Writeable \<equiv> 2"

record MemBackdoor =
  bd_range :: AddrRange
  bd_ptr :: nat
  bd_flags :: "32 word"
  invalidationCallbacks :: "nat list"
  bd_called :: "nat list"

definition newMemBackdoor :: "AddrRange \<Rightarrow> nat \<Rightarrow> 32 word \<Rightarrow> MemBackdoor" where
  "newMemBackdoor r p flags =
     \<lparr>bd_range = r, bd_ptr = p, bd_flags = flags, invalidationCallbacks = [], bd_called = []\<rparr>"

definition bd_readable :: "MemBackdoor \<Rightarrow> bool" where
  "bd_readable b \<longleftrightarrow> bd_flags b AND Readable \<noteq> 0"

definition bd_set_readable :: "bool \<Rightarrow> MemBackdoor \<Rightarrow> MemBackdoor" where
  "bd_set_readable r b =
     b\<lparr>bd_flags := (if r then bd_flags b OR Readable else bd_flags b AND NOT Readable)\<rparr>"

definition bd_writeable :: "MemBackdoor \<Rightarrow> bool" where
  "bd_writeable b \<longleftrightarrow> bd_flags b AND Writeable \<noteq> 0"

definition bd_set_writeable :: "bool \<Rightarrow> MemBackdoor \<Rightarrow> MemBackdoor" where
  "bd_set_writeable w b =
     b\<lparr>bd_flags := (if w then bd_flags b OR Writeable else bd_flags b AND NOT Writeable)\<rparr>"

definition addInvalidationCallback :: "nat \<Rightarrow> MemBackdoor \<Rightarrow> MemBackdoor" where
  "addInvalidationCallback f b = b\<lparr>invalidationCallbacks := invalidationCallbacks b @ [f]\<rparr>"

definition bd_invalidate :: "MemBackdoor \<Rightarrow> MemBackdoor" where
  "bd_invalidate b =
     b\<lparr>bd_called := bd_called b @ invalidationCallbacks b, invalidationCallbacks := []\<rparr>"

section \<open>Reservations\<close>

abbreviation (input) InvalidContextID :: int where "InvalidContextID \<equiv> - 1"

record LockedAddr =
  la_addr :: Addr
  la_contextId :: int

definition lock_mask :: "Addr \<Rightarrow> Addr" where
  "lock_mask paddr = paddr AND NOT 0xf"

definition matchesContext :: "LockedAddr \<Rightarrow> Request \<Rightarrow> bool res" where
  "matchesContext l r =
     ensure (la_contextId l \<noteq> InvalidContextID) AssertFail
     (ensure (hasContextId r) AssertFail
       (rbind (contextId r) (\<lambda>c. Inr (la_contextId l = c))))"

definition newLockedAddr :: "Request \<Rightarrow> LockedAddr res" where
  "newLockedAddr r = rbind (getPaddr r) (\<lambda>a. rbind (contextId r) (\<lambda>c.
     Inr \<lparr>la_addr = lock_mask a, la_contextId = c\<rparr>))"

section \<open>The memory\<close>

record MemStats =
  bytesRead :: "16 word \<Rightarrow> nat"
  bytesInstRead :: "16 word \<Rightarrow> nat"
  bytesWritten :: "16 word \<Rightarrow> nat"
  numReads :: "16 word \<Rightarrow> nat"
  numWrites :: "16 word \<Rightarrow> nat"
  numOther :: "16 word \<Rightarrow> nat"

record AbstractMemory =
  mrange :: AddrRange
  pmemAddr :: nat
  backdoor :: MemBackdoor
  confTableReported :: bool
  inAddrMap :: bool
  kvmMap :: bool
  writeable :: bool
  collectStats :: bool
  lockedAddrList :: "LockedAddr list"
  stats :: MemStats
  clearedExclusive :: "int list"

definition zeroStats :: MemStats where
  "zeroStats = \<lparr>bytesRead = (\<lambda>_. 0), bytesInstRead = (\<lambda>_. 0), bytesWritten = (\<lambda>_. 0),
     numReads = (\<lambda>_. 0), numWrites = (\<lambda>_. 0), numOther = (\<lambda>_. 0)\<rparr>"

definition newAbstractMemory ::
  "AddrRange \<Rightarrow> bool \<Rightarrow> bool \<Rightarrow> bool \<Rightarrow> bool \<Rightarrow> bool \<Rightarrow> AbstractMemory res" where
  "newAbstractMemory r conf in_map kvm wr collect =
     ensure (valid r \<and> range_size r \<noteq> 0) Panic
       (Inr \<lparr>mrange = r, pmemAddr = 0,
             backdoor = newMemBackdoor r 0 (if wr then Readable OR Writeable else Readable),
             confTableReported = conf, inAddrMap = in_map, kvmMap = kvm, writeable = wr,
             collectStats = collect, lockedAddrList = [], stats = zeroStats, clearedExclusive = []\<rparr>)"

definition setBackingStore :: "nat \<Rightarrow> AbstractMemory \<Rightarrow> AbstractMemory" where
  "setBackingStore pmem_addr s =
     (let b = (if bd_ptr (backdoor s) \<noteq> 0 then bd_invalidate (backdoor s) else backdoor s)
      in s\<lparr>backdoor := b\<lparr>bd_ptr := (if interleaved (mrange s) then 0 else pmem_addr)\<rparr>, pmemAddr := pmem_addr\<rparr>)"

definition getBackdoor :: "AbstractMemory \<Rightarrow> MemBackdoor option \<Rightarrow> MemBackdoor option" where
  "getBackdoor s bd =
     (if lockedAddrList s = [] \<and> bd_ptr (backdoor s) \<noteq> 0 then Some (backdoor s) else bd)"

definition addLockedAddr :: "LockedAddr \<Rightarrow> AbstractMemory \<Rightarrow> AbstractMemory" where
  "addLockedAddr l s =
     s\<lparr>backdoor := bd_invalidate (backdoor s), lockedAddrList := lockedAddrList s @ [l]\<rparr>"

definition toHostAddr :: "AbstractMemory \<Rightarrow> Addr \<Rightarrow> nat" where
  "toHostAddr s a = pmemAddr s + unat a - unat (start_of (mrange s))"

text \<open>\<^verbatim>\<open>trackLoadLocked\<close>: the loop updates the first record of the context, if there is one.\<close>

fun lock_update :: "LockedAddr list \<Rightarrow> Request \<Rightarrow> Addr \<Rightarrow> LockedAddr list option res" where
  "lock_update [] r paddr = Inr None"
| "lock_update (l # ls) r paddr =
     rbind (matchesContext l r) (\<lambda>b.
       if b then Inr (Some (l\<lparr>la_addr := paddr\<rparr> # ls))
       else rbind (lock_update ls r paddr) (\<lambda>res. Inr (map_option ((#) l) res)))"

definition trackLoadLocked :: "AbstractMemory \<Rightarrow> Packet \<Rightarrow> AbstractMemory res" where
  "trackLoadLocked s p =
     rbind (getPaddr (req p)) (\<lambda>a.
       rbind (lock_update (lockedAddrList s) (req p) (lock_mask a)) (\<lambda>res.
         case res of
           Some ls \<Rightarrow> Inr (s\<lparr>lockedAddrList := ls\<rparr>)
         | None \<Rightarrow> rbind (newLockedAddr (req p)) (\<lambda>l.
             Inr (s\<lparr>lockedAddrList := l # lockedAddrList s, backdoor := bd_invalidate (backdoor s)\<rparr>))))"

text \<open>\<^verbatim>\<open>checkLockedAddrList\<close>: the search of a store-conditional, and the loop that erases the
  records of the written block and clears the monitors of their other owners.\<close>

fun sc_search :: "LockedAddr list \<Rightarrow> Request \<Rightarrow> Addr \<Rightarrow> bool res" where
  "sc_search [] r paddr = Inr False"
| "sc_search (l # ls) r paddr =
     (if la_addr l = paddr
      then rbind (matchesContext l r) (\<lambda>b. if b then Inr True else sc_search ls r paddr)
      else sc_search ls r paddr)"

fun erase_locks :: "LockedAddr list \<Rightarrow> Addr \<Rightarrow> int \<Rightarrow> (LockedAddr list \<times> int list) res" where
  "erase_locks [] paddr requestor_cid = Inr ([], [])"
| "erase_locks (l # ls) paddr requestor_cid =
     (if la_addr l = paddr then
        ensure (la_contextId l \<noteq> InvalidContextID) AssertFail
          (rbind (erase_locks ls paddr requestor_cid) (\<lambda>(kept, cleared).
            Inr (kept, if la_contextId l \<noteq> requestor_cid then la_contextId l # cleared else cleared)))
      else rbind (erase_locks ls paddr requestor_cid) (\<lambda>(kept, cleared). Inr (l # kept, cleared)))"

definition checkLockedAddrList :: "AbstractMemory \<Rightarrow> Packet \<Rightarrow> (bool \<times> AbstractMemory \<times> Packet) res" where
  "checkLockedAddrList s p =
     rbind (getPaddr (req p)) (\<lambda>a.
       let paddr = lock_mask a in
       rbind (if isLLSC (cmd p) then sc_search (lockedAddrList s) (req p) paddr else Inr True) (\<lambda>allowStore.
         let p = (if isLLSC (cmd p) then p\<lparr>req := setExtraData (req p) (if allowStore then 1 else 0)\<rparr> else p) in
         if allowStore then
           rbind (if hasContextId (req p) then contextId (req p) else Inr InvalidContextID) (\<lambda>requestor_cid.
             rbind (erase_locks (lockedAddrList s) paddr requestor_cid) (\<lambda>(kept, cleared).
               Inr (True, s\<lparr>lockedAddrList := kept, clearedExclusive := clearedExclusive s @ cleared\<rparr>, p)))
         else Inr (False, s, p)))"

definition writeOK :: "AbstractMemory \<Rightarrow> Packet \<Rightarrow> (bool \<times> AbstractMemory \<times> Packet) res" where
  "writeOK s p =
     (if \<not> writeable s then Inr (False, s, p)
      else if lockedAddrList s = [] then
        Inr (\<not> isLLSC (cmd p), s, if isLLSC (cmd p) then p\<lparr>req := setExtraData (req p) 0\<rparr> else p)
      else checkLockedAddrList s p)"

section \<open>Accesses\<close>

definition count_other :: "16 word \<Rightarrow> MemStats \<Rightarrow> MemStats" where
  "count_other rid t = t\<lparr>numOther := (numOther t)(rid := numOther t rid + 1)\<rparr>"

definition count_read :: "16 word \<Rightarrow> nat \<Rightarrow> bool \<Rightarrow> MemStats \<Rightarrow> MemStats" where
  "count_read rid n inst t =
     (let t = t\<lparr>numReads := (numReads t)(rid := numReads t rid + 1),
                bytesRead := (bytesRead t)(rid := bytesRead t rid + n)\<rparr>
      in if inst then t\<lparr>bytesInstRead := (bytesInstRead t)(rid := bytesInstRead t rid + n)\<rparr> else t)"

definition count_write :: "16 word \<Rightarrow> nat \<Rightarrow> MemStats \<Rightarrow> MemStats" where
  "count_write rid n t =
     t\<lparr>numWrites := (numWrites t)(rid := numWrites t rid + 1),
       bytesWritten := (bytesWritten t)(rid := bytesWritten t rid + n)\<rparr>"

definition upd_stats :: "(MemStats \<Rightarrow> MemStats) \<Rightarrow> AbstractMemory \<Rightarrow> AbstractMemory" where
  "upd_stats f s = (if collectStats s then s\<lparr>stats := f (stats s)\<rparr> else s)"

text \<open>The comparison of a conditional swap: the condition is compared byte by byte with the
  store, on a little-endian host.\<close>

definition swap_condition :: "mem \<Rightarrow> nat \<Rightarrow> nat \<Rightarrow> Request \<Rightarrow> bool res" where
  "swap_condition h host_addr n r =
     (if req_isCondSwap r then
        (if n = 8 then rbind (getExtraData r) (\<lambda>v. Inr (to_le 8 v = read_bytes h host_addr 8))
         else if n = 4 then rbind (getExtraData r) (\<lambda>v. Inr (to_le 4 (ucast v :: 32 word) = read_bytes h host_addr 4))
         else Inl Panic)
      else Inr True)"

text \<open>The \<^verbatim>\<open>SwapReq\<close> branch. The value to write is kept in a local buffer: a swap is never a
  masked write, so \<^verbatim>\<open>writeData\<close> copies the whole packet there.\<close>

definition swap_access :: "mem \<Rightarrow> AbstractMemory \<Rightarrow> Packet \<Rightarrow> nat \<Rightarrow> (mem \<times> AbstractMemory \<times> Packet) res" where
  "swap_access h s p host_addr =
     (case atomicOp (req p) of
       Some amo \<Rightarrow>
         (if pmemAddr s \<noteq> 0 then
            rbind (setData h host_addr p) (\<lambda>h. rbind (getSize p) (\<lambda>n.
              Inr (write_bytes h host_addr (amo (read_bytes h host_addr n)), s, p)))
          else Inr (h, s, p))
     | None \<Rightarrow>
         ensure (pmemAddr s \<noteq> 0) Panic
         (rbind (getSize p) (\<lambda>n. rbind (getConstPtr p) (\<lambda>ptr.
           let overwrite_val = read_bytes h ptr n in
           rbind (setData h host_addr p) (\<lambda>h.
           rbind (swap_condition h host_addr n (req p)) (\<lambda>overwrite_mem.
             let h = (if overwrite_mem then write_bytes h host_addr overwrite_val else h) in
             ensure (\<not> req_isInstFetch (req p)) AssertFail
               (Inr (h, upd_stats (count_other (requestorId (req p))) s, p))))))))"

definition read_access :: "mem \<Rightarrow> AbstractMemory \<Rightarrow> Packet \<Rightarrow> nat \<Rightarrow> (mem \<times> AbstractMemory \<times> Packet) res" where
  "read_access h s p host_addr =
     ensure (\<not> isWrite (cmd p)) AssertFail
     (rbind (if isLLSC (cmd p) then ensure (\<not> fromCache (cmd p)) AssertFail (trackLoadLocked s p) else Inr s) (\<lambda>s.
      rbind (if pmemAddr s \<noteq> 0 then setData h host_addr p else Inr h) (\<lambda>h.
      rbind (getSize p) (\<lambda>n.
        Inr (h, upd_stats (count_read (requestorId (req p)) n (req_isInstFetch (req p))) s, p)))))"

definition write_access :: "mem \<Rightarrow> AbstractMemory \<Rightarrow> Packet \<Rightarrow> nat \<Rightarrow> (mem \<times> AbstractMemory \<times> Packet) res" where
  "write_access h s p host_addr =
     rbind (writeOK s p) (\<lambda>(ok, s, p).
       if ok then
         rbind (if pmemAddr s \<noteq> 0 then writeData h host_addr p else Inr h) (\<lambda>h.
           ensure (\<not> req_isInstFetch (req p)) AssertFail
             (rbind (getSize p) (\<lambda>n. Inr (h, upd_stats (count_write (requestorId (req p)) n) s, p))))
       else Inr (h, s, p))"

text \<open>The branches on the command, and the whole access.\<close>

definition access_data :: "mem \<Rightarrow> AbstractMemory \<Rightarrow> Packet \<Rightarrow> nat \<Rightarrow> (mem \<times> AbstractMemory \<times> Packet) res" where
  "access_data h s p host_addr =
     (if cmd p = SwapReq then swap_access h s p host_addr
      else if isRead (cmd p) then read_access h s p host_addr
      else if isInvalidate (cmd p) \<or> isClean (cmd p) then ensure (\<not> isWrite (cmd p)) AssertFail (Inr (h, s, p))
      else if isWrite (cmd p) then write_access h s p host_addr
      else Inl Panic)"

definition access :: "mem \<Rightarrow> AbstractMemory \<Rightarrow> Packet \<Rightarrow> (mem \<times> AbstractMemory \<times> Packet) res" where
  "access h s p =
     (if cacheResponding p then Inr (h, s, p)
      else if cmd p = CleanEvict \<or> cmd p = WritebackClean then Inr (h, s, p)
      else
        rbind (getAddrRange p) (\<lambda>r. rbind (isSubset r (mrange s)) (\<lambda>sub.
        ensure sub AssertFail
        (rbind (getAddr p) (\<lambda>a.
        rbind (access_data h s p (toHostAddr s a)) (\<lambda>(h, s, p).
          if needsResponse (cmd p) then rbind (makeResponse p) (\<lambda>p. Inr (h, s, p)) else Inr (h, s, p)))))))"

definition functionalAccess :: "mem \<Rightarrow> AbstractMemory \<Rightarrow> Packet \<Rightarrow> (mem \<times> Packet) res" where
  "functionalAccess h s p =
     rbind (getAddrRange p) (\<lambda>r. rbind (isSubset r (mrange s)) (\<lambda>sub.
     ensure sub AssertFail
     (rbind (getAddr p) (\<lambda>a. let host_addr = toHostAddr s a in
       if isRead (cmd p) then
         rbind (if pmemAddr s \<noteq> 0 then setData h host_addr p else Inr h) (\<lambda>h. rbind (makeResponse p) (\<lambda>p. Inr (h, p)))
       else if isWrite (cmd p) then
         rbind (if pmemAddr s \<noteq> 0 then writeData h host_addr p else Inr h) (\<lambda>h. rbind (makeResponse p) (\<lambda>p. Inr (h, p)))
       else if isPrint (cmd p) then ensure (senderState p \<noteq> []) AssertFail (Inr (h, p))
       else Inl Panic))))"

section \<open>Reads and writes\<close>

text \<open>What the memory holds at a simulated address, and the packets it serves.\<close>

definition mem_at :: "mem \<Rightarrow> AbstractMemory \<Rightarrow> Addr \<Rightarrow> byte" where
  "mem_at h s a = h (toHostAddr s a)"

definition in_memory :: "AbstractMemory \<Rightarrow> Packet \<Rightarrow> bool" where
  "in_memory s p \<longleftrightarrow> plain (mrange s) \<and> start_of (mrange s) \<le> addr p
     \<and> unat (addr p) + psize p \<le> unat (end_of (mrange s))"

text \<open>The packet's data lies outside the backing store.\<close>

definition apart :: "AbstractMemory \<Rightarrow> Packet \<Rightarrow> bool" where
  "apart s p \<longleftrightarrow> data p + psize p \<le> pmemAddr s
     \<or> pmemAddr s + unat (end_of (mrange s)) - unat (start_of (mrange s)) \<le> data p"

lemma subset_in_memory:
  assumes "pkt_ok p" and "in_memory s p"
  shows "getAddrRange p = Inr (RangeSize (addr p) (of_nat (psize p)))"
    and "isSubset (RangeSize (addr p) (of_nat (psize p))) (mrange s) = Inr True"
proof -
  show "getAddrRange p = Inr (RangeSize (addr p) (of_nat (psize p)))"
    by (simp add: getAddrRange_def pkt_okD [OF assms(1)])
  have p: "0 < psize p" "psize p < 2 ^ 32" using assms(1) by (simp_all add: pkt_ok_def)
  have "unat (end_of (mrange s)) < 2 ^ 64" using unsigned_less [of "end_of (mrange s)"] by simp
  then have lt: "unat (addr p) + unat (of_nat (psize p) :: Addr) < 2 ^ 64"
    using assms(2) p by (simp add: in_memory_def unat_of_nat)
  have e: "unat (addr p + of_nat (psize p)) = unat (addr p) + psize p"
    unfolding unat_add_small [OF lt] using p by (simp add: unat_of_nat)
  have "start_of (mrange s) < end_of (mrange s)"
    using assms(2) p by (simp add: in_memory_def word_le_nat_alt word_less_nat_alt)
  moreover have "addr p < addr p + of_nat (psize p)" "addr p + of_nat (psize p) \<le> end_of (mrange s)"
    using assms(2) p by (simp_all add: word_less_nat_alt word_le_nat_alt e in_memory_def)
  ultimately show "isSubset (RangeSize (addr p) (of_nat (psize p))) (mrange s) = Inr True"
    using assms(2) leD by (auto simp: isSubset_def RangeSize_def in_memory_def plain_def)
qed

text \<open>Host addresses of the bytes of a packet, and of any address of the memory.\<close>

lemma toHostAddr_offset:
  assumes "in_memory s p" and "i < psize p"
  shows "toHostAddr s (addr p) + i = pmemAddr s + (unat (addr p) + i - unat (start_of (mrange s)))"
  using assms by (simp add: toHostAddr_def in_memory_def word_le_nat_alt)

lemma toHostAddr_inside:
  "start_of (mrange s) \<le> a \<Longrightarrow> toHostAddr s a = pmemAddr s + (unat a - unat (start_of (mrange s)))"
  by (simp add: toHostAddr_def word_le_nat_alt)

text \<open>Storing the bytes of a packet at its host address updates exactly its simulated addresses.\<close>

lemma mem_at_store:
  assumes "in_memory s p" and "contains (mrange s) a" and "length bs = psize p"
  shows "mem_at (write_bytes h (toHostAddr s (addr p)) bs) s a =
    (if unat (addr p) \<le> unat a \<and> unat a < unat (addr p) + psize p then bs ! (unat a - unat (addr p)) else mem_at h s a)"
proof -
  have a: "start_of (mrange s) \<le> a" "start_of (mrange s) \<le> addr p"
    using assms by (simp_all add: in_memory_def plain_contains)
  then have "toHostAddr s (addr p) \<le> toHostAddr s a \<longleftrightarrow> unat (addr p) \<le> unat a"
    "toHostAddr s a < toHostAddr s (addr p) + psize p \<longleftrightarrow> unat a < unat (addr p) + psize p"
    "unat (addr p) \<le> unat a \<Longrightarrow> toHostAddr s a - toHostAddr s (addr p) = unat a - unat (addr p)"
    by (auto simp: toHostAddr_inside word_le_nat_alt)
  then show ?thesis using assms(3) by (simp add: mem_at_def write_bytes_def)
qed

lemma store_outside:
  assumes "in_memory s p" and "length bs = psize p" and "j < pmemAddr s \<or> pmemAddr s + unat (end_of (mrange s)) - unat (start_of (mrange s)) \<le> j"
  shows "write_bytes h (toHostAddr s (addr p)) bs j = h j"
  using assms by (auto simp: write_bytes_def in_memory_def toHostAddr_def word_le_nat_alt)

definition locks_ok :: "LockedAddr list \<Rightarrow> bool" where
  "locks_ok ls \<longleftrightarrow> distinct (map la_contextId ls) \<and> InvalidContextID \<notin> set (map la_contextId ls)"

lemma erase_locks_ok:
  "InvalidContextID \<notin> set (map la_contextId ls) \<Longrightarrow>
    erase_locks ls paddr c = Inr (filter (\<lambda>l. la_addr l \<noteq> paddr) ls,
      map la_contextId (filter (\<lambda>l. la_addr l = paddr \<and> la_contextId l \<noteq> c) ls))"
  by (induction ls) auto

lemma writeOK_store:
  assumes "writeable s" and "locks_ok (lockedAddrList s)" and "\<not> isLLSC (cmd p)" and "hasPaddr (req p)"
  shows "\<exists>ls cl. writeOK s p = Inr (True, s\<lparr>lockedAddrList := ls, clearedExclusive := cl\<rparr>, p) \<and> locks_ok ls"
proof (cases "lockedAddrList s = []")
  case True
  then have "writeOK s p = Inr (True, s\<lparr>lockedAddrList := lockedAddrList s, clearedExclusive := clearedExclusive s\<rparr>, p)"
    using assms by (simp add: writeOK_def)
  then show ?thesis using assms(2) by blast
next
  case False
  have "(if hasContextId (req p) then contextId (req p) else Inr InvalidContextID)
      = Inr (if hasContextId (req p) then contextId_f (req p) else InvalidContextID)"
    by (simp add: contextId_def)
  then have "\<exists>b cl. writeOK s p = Inr (True, s\<lparr>lockedAddrList := filter (\<lambda>l. la_addr l \<noteq> b) (lockedAddrList s), clearedExclusive := cl\<rparr>, p)"
    using assms False by (simp add: writeOK_def checkLockedAddrList_def getPaddr_def erase_locks_ok locks_ok_def Let_def) blast
  moreover have "locks_ok (filter P (lockedAddrList s))" for P using assms(2) by (auto simp: locks_ok_def distinct_map_filter)
  ultimately show ?thesis by blast
qed

lemma upd_stats_ex: "\<exists>st. upd_stats f s = s\<lparr>stats := st\<rparr>"
  by (cases "collectStats s") (auto simp: upd_stats_def intro: exI [of _ "stats s"])

text \<open>The conditions under which a memory serves a plain read or write.\<close>

definition serves :: "AbstractMemory \<Rightarrow> Packet \<Rightarrow> bool" where
  "serves s p \<longleftrightarrow> pkt_ok p \<and> in_memory s p \<and> apart s p \<and> pmemAddr s \<noteq> 0 \<and> \<not> cacheResponding p
     \<and> \<not> req_isInstFetch (req p) \<and> hasPaddr (req p)"

lemma makeResponse_ok:
  "needsResponse (cmd p) \<Longrightarrow> isRequest (cmd p) \<Longrightarrow>
    makeResponse p = Inr (clearf EXPRESS_SNOOP (p\<lparr>cmd := responseCommand (cmd p)\<rparr>))"
  by (simp add: makeResponse_def)

lemma access_write:
  assumes "serves s p" and "cmd p = WriteReq" and "writeable s" and "locks_ok (lockedAddrList s)"
  shows "\<exists>ls cl st. access h s p = Inr (write_bytes h (toHostAddr s (addr p)) (read_bytes h (data p) (psize p)),
    s\<lparr>lockedAddrList := ls, clearedExclusive := cl, stats := st\<rparr>, clearf EXPRESS_SNOOP (p\<lparr>cmd := WriteResp\<rparr>)) \<and> locks_ok ls"
proof -
  have p: "pkt_ok p" "in_memory s p" using assms(1) by (simp_all add: serves_def)
  obtain ls cl where w: "writeOK s p = Inr (True, s\<lparr>lockedAddrList := ls, clearedExclusive := cl\<rparr>, p)" and ls: "locks_ok ls"
    using writeOK_store [OF assms(3,4), of p] assms(1,2) by (auto simp: serves_def)
  have "writeData h x p = Inr (write_bytes h x (read_bytes h (data p) (psize p)))" for x
    using p(1) by (simp add: writeData_def pkt_okD pkt_ok_def)
  then have "access h s p = Inr (write_bytes h (toHostAddr s (addr p)) (read_bytes h (data p) (psize p)),
      upd_stats (count_write (requestorId (req p)) (psize p)) (s\<lparr>lockedAddrList := ls, clearedExclusive := cl\<rparr>),
      clearf EXPRESS_SNOOP (p\<lparr>cmd := WriteResp\<rparr>))"
    using assms(1,2) by (simp add: access_def access_data_def serves_def subset_in_memory [OF p] pkt_okD [OF p(1)] write_access_def w makeResponse_ok)
  then show ?thesis
    using upd_stats_ex [of "count_write (requestorId (req p)) (psize p)" "s\<lparr>lockedAddrList := ls, clearedExclusive := cl\<rparr>"] ls
    by auto
qed

lemma setData_apart:
  assumes "pkt_ok p" and "data p + psize p \<le> x \<or> x + psize p \<le> data p"
  shows "setData h x p = Inr (write_bytes h (data p) (read_bytes h x (psize p)))"
  using assms by (auto simp: setData_def pkt_okD pkt_ok_def)

lemma apart_host:
  assumes "in_memory s p" and "apart s p"
  shows "data p + psize p \<le> toHostAddr s (addr p) \<or> toHostAddr s (addr p) + psize p \<le> data p"
  using assms by (auto simp: apart_def in_memory_def toHostAddr_def word_le_nat_alt)

lemma access_read:
  assumes "serves s p" and "cmd p = ReadReq"
  shows "\<exists>st. access h s p = Inr (write_bytes h (data p) (read_bytes h (toHostAddr s (addr p)) (psize p)),
    s\<lparr>stats := st\<rparr>, clearf EXPRESS_SNOOP (p\<lparr>cmd := ReadResp\<rparr>))"
proof -
  have p: "pkt_ok p" "in_memory s p" "apart s p" using assms(1) by (simp_all add: serves_def)
  have "access h s p = Inr (write_bytes h (data p) (read_bytes h (toHostAddr s (addr p)) (psize p)),
      upd_stats (count_read (requestorId (req p)) (psize p) (req_isInstFetch (req p))) s,
      clearf EXPRESS_SNOOP (p\<lparr>cmd := ReadResp\<rparr>))"
    using assms setData_apart [OF p(1) apart_host [OF p(2,3)]]
    by (simp add: access_def access_data_def serves_def subset_in_memory [OF p(1,2)] pkt_okD [OF p(1)] read_access_def makeResponse_ok)
  then show ?thesis
    using upd_stats_ex [of "count_read (requestorId (req p)) (psize p) (req_isInstFetch (req p))" s] by auto
qed

lemma access_write_read:
  assumes "serves s w" and "cmd w = WriteReq" and "writeable s" and "locks_ok (lockedAddrList s)"
    and "serves s r" and "cmd r = ReadReq"
  shows "\<exists>h1 s1 w' h2 s2 r'. access h s w = Inr (h1, s1, w') \<and> access h1 s1 r = Inr (h2, s2, r')
    \<and> cmd w' = WriteResp \<and> cmd r' = ReadResp
    \<and> (\<forall>i < psize r. let a = addr r + of_nat i in h2 (data r + i) =
        (if unat (addr w) \<le> unat a \<and> unat a < unat (addr w) + psize w then h (data w + (unat a - unat (addr w)))
         else mem_at h s a))
    \<and> (\<forall>j. j < pmemAddr s \<or> pmemAddr s + unat (end_of (mrange s)) - unat (start_of (mrange s)) \<le> j \<longrightarrow> h1 j = h j)"
proof -
  let ?bs = "read_bytes h (data w) (psize w)"
  obtain ls cl st where w: "access h s w = Inr (write_bytes h (toHostAddr s (addr w)) ?bs,
      s\<lparr>lockedAddrList := ls, clearedExclusive := cl, stats := st\<rparr>, clearf EXPRESS_SNOOP (w\<lparr>cmd := WriteResp\<rparr>))"
    (is "_ = Inr (?h1, ?s1, ?w)") using access_write [OF assms(1-4)] by blast
  have t: "toHostAddr ?s1 = toHostAddr s" by (rule ext) (simp add: toHostAddr_def)
  have "serves ?s1 r" using assms(5) by (simp add: serves_def in_memory_def apart_def)
  from access_read [OF this assms(6), of ?h1] obtain st2 where r: "access ?h1 ?s1 r = Inr
      (write_bytes ?h1 (data r) (read_bytes ?h1 (toHostAddr s (addr r)) (psize r)),
       ?s1\<lparr>stats := st2\<rparr>, clearf EXPRESS_SNOOP (r\<lparr>cmd := ReadResp\<rparr>))"
    (is "_ = Inr (?h2, ?s2, ?r)") unfolding t by blast
  have m: "in_memory s w" "in_memory s r" "pkt_ok r" using assms(1,5) by (simp_all add: serves_def)
  have "?h2 (data r + i) = (let a = addr r + of_nat i in
      if unat (addr w) \<le> unat a \<and> unat a < unat (addr w) + psize w then h (data w + (unat a - unat (addr w)))
      else mem_at h s a)" if i: "i < psize r" for i
  proof -
    let ?a = "addr r + of_nat i"
    have b: "unat (end_of (mrange s)) < 2 ^ 64" using unsigned_less [of "end_of (mrange s)"] by simp
    have n: "unat (of_nat i :: Addr) = i" using i m(3) by (simp add: pkt_ok_def unat_of_nat)
    have a: "unat ?a = unat (addr r) + i"
      using i m(2) b unat_add_small [of "addr r" "of_nat i"] by (simp add: in_memory_def n)
    have c: "contains (mrange s) ?a"
      using m(2) i a by (simp add: in_memory_def plain_contains word_le_nat_alt word_less_nat_alt)
    have "?h2 (data r + i) = ?h1 (toHostAddr s (addr r) + i)" using i by (simp add: write_bytes_inside)
    also have "toHostAddr s (addr r) + i = toHostAddr s ?a"
      using m(2) a by (simp add: toHostAddr_def in_memory_def word_le_nat_alt)
    also have "?h1 (toHostAddr s ?a) = mem_at ?h1 s ?a" by (simp add: mem_at_def)
    also have "\<dots> = (if unat (addr w) \<le> unat ?a \<and> unat ?a < unat (addr w) + psize w
        then ?bs ! (unat ?a - unat (addr w)) else mem_at h s ?a)"
      by (rule mem_at_store [OF m(1) c]) simp
    finally show ?thesis by (auto simp: Let_def)
  qed
  moreover have "?h1 j = h j" if "j < pmemAddr s \<or> pmemAddr s + unat (end_of (mrange s)) - unat (start_of (mrange s)) \<le> j" for j
    by (rule store_outside [OF m(1) _ that]) simp
  ultimately show ?thesis using w r by simp
qed

text \<open>
  C28: a memory behaves as an array of bytes. After a write to it, a read returns for each byte the
  value written if the write covers its address and what the memory held before otherwise; both
  requests become responses, and the write leaves everything outside the backing store unchanged.
\<close>

theorem memory_read_after_write:
  assumes "serves s w" and "cmd w = WriteReq" and "writeable s" and "locks_ok (lockedAddrList s)"
    and "serves s r" and "cmd r = ReadReq"
  shows "\<exists>h1 s1 w' h2 s2 r'. access h s w = Inr (h1, s1, w') \<and> access h1 s1 r = Inr (h2, s2, r')
    \<and> cmd w' = WriteResp \<and> cmd r' = ReadResp
    \<and> (\<forall>i < psize r. let a = addr r + of_nat i in h2 (data r + i) =
        (if unat (addr w) \<le> unat a \<and> unat a < unat (addr w) + psize w then h (data w + (unat a - unat (addr w)))
         else mem_at h s a))
    \<and> (\<forall>j. j < pmemAddr s \<or> pmemAddr s + unat (end_of (mrange s)) - unat (start_of (mrange s)) \<le> j \<longrightarrow> h1 j = h j)"
  by (rule access_write_read [OF assms])

definition sample_memory :: AbstractMemory where
  "sample_memory = \<lparr>mrange = mkRange 0x80000000 0x80001000, pmemAddr = 4096,
     backdoor = newMemBackdoor (mkRange 0x80000000 0x80001000) 4096 3, confTableReported = True, inAddrMap = True,
     kvmMap = True, writeable = True, collectStats = True, lockedAddrList = [], stats = zeroStats, clearedExclusive = []\<rparr>"

definition sample_packet :: "Command \<Rightarrow> Addr \<Rightarrow> nat \<Rightarrow> nat \<Rightarrow> Packet" where
  "sample_packet c a n d = (blankPacket (physRequest 0 a n 0 0) c)\<lparr>pflags := 0x1300, addr := a, psize := n, data := d\<rparr>"

lemma sample_packet_sel [simp]: "cmd (sample_packet c a n d) = c" "addr (sample_packet c a n d) = a"
  "psize (sample_packet c a n d) = n" "data (sample_packet c a n d) = d" "req (sample_packet c a n d) = physRequest 0 a n 0 0"
  "pflags (sample_packet c a n d) = 0x1300"
  by (simp_all add: sample_packet_def blankPacket_def)

lemma sample_packet_ok: "0 < n \<Longrightarrow> n < 2 ^ 32 \<Longrightarrow> pkt_ok (sample_packet c a n d)"
  by (simp add: pkt_ok_def isMaskedWrite_def isMasked_def physRequest_def isSet_def)

lemma sample_serves:
  assumes "0 < n" "n < 100" "0x80000000 \<le> a" "unat a + n \<le> 0x80001000" "d + n \<le> 4096"
  shows "serves sample_memory (sample_packet c a n d)"
  using assms sample_packet_ok [of n c a d]
  by (simp add: serves_def in_memory_def apart_def sample_memory_def plain_def valid_def cacheResponding_def
      req_isInstFetch_def hasPaddr_def physRequest_def emptyRequest_def isSet_def flags_set_def)

theorem memory_read_after_write_witness:
  "\<exists>h1 s1 w' h2 s2 r'. access (\<lambda>i. of_nat i) sample_memory (sample_packet WriteReq 0x80000010 8 100) = Inr (h1, s1, w')
    \<and> access h1 s1 (sample_packet ReadReq 0x80000014 8 200) = Inr (h2, s2, r')
    \<and> h2 200 = of_nat 104 \<and> h2 204 = of_nat 4120 \<and> h1 104 = of_nat 104"
proof -
  let ?h = "(\<lambda>i. of_nat i) :: mem" and ?w = "sample_packet WriteReq 0x80000010 8 100" and ?r = "sample_packet ReadReq 0x80000014 8 200"
  have "serves sample_memory ?w" "serves sample_memory ?r" by (simp_all add: sample_serves)
  moreover have "writeable sample_memory" "locks_ok (lockedAddrList sample_memory)" by (simp_all add: sample_memory_def locks_ok_def)
  ultimately obtain h1 s1 w' h2 s2 r' where *: "access ?h sample_memory ?w = Inr (h1, s1, w')" "access h1 s1 ?r = Inr (h2, s2, r')"
    and b: "\<forall>i < psize ?r. let a = addr ?r + of_nat i in h2 (data ?r + i) =
        (if unat (addr ?w) \<le> unat a \<and> unat a < unat (addr ?w) + psize ?w then ?h (data ?w + (unat a - unat (addr ?w)))
         else mem_at ?h sample_memory a)"
    and f: "\<forall>j. j < pmemAddr sample_memory \<or> pmemAddr sample_memory + unat (end_of (mrange sample_memory))
        - unat (start_of (mrange sample_memory)) \<le> j \<longrightarrow> h1 j = ?h j"
    using memory_read_after_write [of sample_memory ?w ?r ?h] by auto
  have "h2 (200 + 0) = of_nat 104" "h2 (200 + 4) = of_nat 4120"
    using b [rule_format, of 0] b [rule_format, of 4]
    by (simp_all add: mem_at_def toHostAddr_def sample_memory_def Let_def)
  moreover have "h1 104 = of_nat 104" using f [rule_format, of 104] by (simp add: sample_memory_def)
  ultimately show ?thesis using * by auto
qed

section \<open>Load-locked and store-conditional\<close>

text \<open>The abstract state of the reservations: the block each context has reserved.\<close>

definition reservation :: "LockedAddr list \<Rightarrow> int \<Rightarrow> Addr option" where
  "reservation ls c = map_option la_addr (find (\<lambda>l. la_contextId l = c) ls)"

lemma reservation_Nil [simp]: "reservation [] c = None"
  by (simp add: reservation_def)

lemma reservation_Cons [simp]:
  "reservation (l # ls) c = (if la_contextId l = c then Some (la_addr l) else reservation ls c)"
  by (simp add: reservation_def)

lemma reservation_None: "c \<notin> la_contextId ` set ls \<Longrightarrow> reservation ls c = None"
  by (induction ls) auto

lemma reservation_filter:
  "distinct (map la_contextId ls) \<Longrightarrow>
    reservation (filter (\<lambda>l. la_addr l \<noteq> b) ls) c = (if reservation ls c = Some b then None else reservation ls c)"
proof (induction ls)
  case (Cons l ls)
  have "reservation (filter (\<lambda>l. la_addr l \<noteq> b) ls) c = None" if "c = la_contextId l"
    using Cons.prems that by (intro reservation_None) auto
  then show ?case using Cons by auto
qed simp

lemma matchesContext_ok:
  "la_contextId l \<noteq> - 1 \<Longrightarrow> hasContextId r \<Longrightarrow> matchesContext l r = Inr (la_contextId l = contextId_f r)"
  by (simp add: matchesContext_def contextId_def)

lemma lock_update_ok:
  assumes "locks_ok ls" and "hasContextId r"
  shows "\<exists>res. lock_update ls r b = Inr res \<and>
    (case res of None \<Rightarrow> contextId_f r \<notin> la_contextId ` set ls
     | Some ls' \<Rightarrow> map la_contextId ls' = map la_contextId ls \<and> reservation ls' = (reservation ls)(contextId_f r \<mapsto> b))"
  using assms(1)
proof (induction ls)
  case (Cons l ls)
  then obtain res where res: "lock_update ls r b = Inr res" and
    "case res of None \<Rightarrow> contextId_f r \<notin> la_contextId ` set ls
     | Some ls' \<Rightarrow> map la_contextId ls' = map la_contextId ls \<and> reservation ls' = (reservation ls)(contextId_f r \<mapsto> b)"
    by (auto simp: locks_ok_def)
  moreover have "matchesContext l r = Inr (la_contextId l = contextId_f r)"
    using Cons.prems assms(2) by (intro matchesContext_ok) (auto simp: locks_ok_def)
  ultimately show ?case by (cases res) (auto simp: fun_eq_iff)
qed simp

lemma sc_search_ok:
  assumes "locks_ok ls" and "hasContextId r"
  shows "sc_search ls r b = Inr (reservation ls (contextId_f r) = Some b)"
  using assms(1)
proof (induction ls)
  case (Cons l ls)
  have "reservation ls (contextId_f r) = None" if "la_contextId l = contextId_f r"
    using Cons.prems that by (intro reservation_None) (auto simp: locks_ok_def)
  moreover have "sc_search ls r b = Inr (reservation ls (contextId_f r) = Some b)"
    using Cons by (simp add: locks_ok_def)
  moreover have "matchesContext l r = Inr (la_contextId l = contextId_f r)"
    using Cons.prems assms(2) by (intro matchesContext_ok) (auto simp: locks_ok_def)
  ultimately show ?case by auto
qed simp

lemma cleared_set:
  "locks_ok ls \<Longrightarrow> set (map la_contextId (filter (\<lambda>l. la_addr l = b \<and> la_contextId l \<noteq> c) ls))
    = {d. d \<noteq> c \<and> reservation ls d = Some b}"
proof (induction ls)
  case (Cons l ls)
  have "reservation ls (la_contextId l) = None"
    using Cons.prems by (intro reservation_None) (auto simp: locks_ok_def)
  moreover have "locks_ok ls" using Cons.prems by (simp add: locks_ok_def)
  ultimately show ?case using Cons.IH by auto
qed simp

lemma trackLoadLocked_ok:
  assumes "locks_ok (lockedAddrList s)" and "hasPaddr (req p)" and "hasContextId (req p)" and "contextId_f (req p) \<noteq> - 1"
  shows "\<exists>s'. trackLoadLocked s p = Inr s' \<and> locks_ok (lockedAddrList s') \<and> writeable s' = writeable s
    \<and> reservation (lockedAddrList s') = (reservation (lockedAddrList s))(contextId_f (req p) \<mapsto> lock_mask (r_paddr (req p)))"
proof -
  let ?b = "lock_mask (r_paddr (req p))"
  obtain res where res: "lock_update (lockedAddrList s) (req p) ?b = Inr res" and c:
    "case res of None \<Rightarrow> contextId_f (req p) \<notin> la_contextId ` set (lockedAddrList s)
     | Some ls' \<Rightarrow> map la_contextId ls' = map la_contextId (lockedAddrList s)
         \<and> reservation ls' = (reservation (lockedAddrList s))(contextId_f (req p) \<mapsto> ?b)"
    using lock_update_ok [OF assms(1,3)] by blast
  show ?thesis
  proof (cases res)
    case None
    then show ?thesis using c res assms
      by (auto simp: trackLoadLocked_def getPaddr_def newLockedAddr_def contextId_def locks_ok_def fun_eq_iff)
  next
    case (Some ls')
    then have "locks_ok ls'" using c assms(1) unfolding locks_ok_def by simp
    then show ?thesis using Some c res assms(2) by (simp add: trackLoadLocked_def getPaddr_def)
  qed
qed

text \<open>A store to a block, conditional or not, when it is allowed.\<close>

definition drop_block :: "Addr \<Rightarrow> (int \<Rightarrow> Addr option) \<Rightarrow> int \<Rightarrow> Addr option" where
  "drop_block b R = (\<lambda>d. if R d = Some b then None else R d)"

lemma writeOK_ok:
  assumes "locks_ok (lockedAddrList s)" and "hasPaddr (req p)" and "hasContextId (req p)" and "writeable s"
  defines "R \<equiv> reservation (lockedAddrList s)" and "b \<equiv> lock_mask (r_paddr (req p))" and "c \<equiv> contextId_f (req p)"
  defines "ok \<equiv> (isLLSC (cmd p) \<longrightarrow> R c = Some b)"
  shows "\<exists>s' p' cleared. writeOK s p = Inr (ok, s', p') \<and> locks_ok (lockedAddrList s') \<and> writeable s'
    \<and> reservation (lockedAddrList s') = (if ok then drop_block b R else R)
    \<and> clearedExclusive s' = clearedExclusive s @ cleared \<and> set cleared = (if ok then {d. d \<noteq> c \<and> R d = Some b} else {})
    \<and> (isLLSC (cmd p) \<longrightarrow> getExtraData (req p') = Inr (if ok then 1 else 0))"
proof (cases "lockedAddrList s = []")
  case True
  then show ?thesis using assms(1,4)
    by (auto simp: writeOK_def R_def ok_def drop_block_def fun_eq_iff getExtraData_def setExtraData_def extraDataValid_def isSet_set)
next
  case False
  let ?p = "if isLLSC (cmd p) then p\<lparr>req := setExtraData (req p) (if ok then 1 else 0)\<rparr> else p"
  have ctx: "hasContextId (req ?p)" "contextId (req ?p) = Inr c"
    using assms(3) by (simp_all add: c_def contextId_def hasContextId_def setExtraData_def isSet_set_other)
  have s: "(if isLLSC (cmd p) then sc_search (lockedAddrList s) (req p) b else Inr True) = Inr ok"
    using sc_search_ok [OF assms(1,3)] by (simp add: ok_def R_def c_def)
  have e: "erase_locks (lockedAddrList s) b c = Inr (filter (\<lambda>l. la_addr l \<noteq> b) (lockedAddrList s),
      map la_contextId (filter (\<lambda>l. la_addr l = b \<and> la_contextId l \<noteq> c) (lockedAddrList s)))"
    using assms(1) by (intro erase_locks_ok) (simp add: locks_ok_def)
  have w: "writeOK s p = (if ok then Inr (True, s\<lparr>lockedAddrList := filter (\<lambda>l. la_addr l \<noteq> b) (lockedAddrList s),
        clearedExclusive := clearedExclusive s @ map la_contextId (filter (\<lambda>l. la_addr l = b \<and> la_contextId l \<noteq> c) (lockedAddrList s))\<rparr>, ?p)
      else Inr (False, s, ?p))"
  proof -
    have a: "getPaddr (req p) = Inr (r_paddr (req p))" using assms(2) by (simp add: getPaddr_def)
    have "checkLockedAddrList s p = (if ok then Inr (True, s\<lparr>lockedAddrList := filter (\<lambda>l. la_addr l \<noteq> b) (lockedAddrList s),
        clearedExclusive := clearedExclusive s @ map la_contextId (filter (\<lambda>l. la_addr l = b \<and> la_contextId l \<noteq> c) (lockedAddrList s))\<rparr>, ?p)
      else Inr (False, s, ?p))"
      unfolding checkLockedAddrList_def a rbind.simps Let_def b_def [symmetric] s
      using ctx e by (simp only: if_True rbind.simps prod.case split_beta fst_conv snd_conv)
    then show ?thesis using False assms(4) by (simp add: writeOK_def)
  qed
  have x: "getExtraData (req ?p) = Inr (if ok then 1 else 0)" if "isLLSC (cmd p)"
    using that by (simp add: getExtraData_def setExtraData_def extraDataValid_def isSet_set)
  have l: "locks_ok (filter (\<lambda>l. la_addr l \<noteq> b) (lockedAddrList s))"
    using assms(1) by (auto simp: locks_ok_def distinct_map_filter)
  have r: "reservation (filter (\<lambda>l. la_addr l \<noteq> b) (lockedAddrList s)) = drop_block b R"
    using assms(1) by (auto simp: drop_block_def R_def reservation_filter locks_ok_def)
  show ?thesis
  proof (cases ok)
    case True
    then show ?thesis using w l r x assms(4) cleared_set [OF assms(1), of b c] by (simp add: R_def)
  next
    case False
    then show ?thesis using w x assms(1,4) by (simp add: R_def)
  qed
qed

text \<open>
  C29: the list of locked addresses implements one reservation per context. A load-locked access
  moves the reservation of its context; a store-conditional succeeds exactly when its context
  holds the block it writes, and reports so in its extra data; every store that is allowed drops
  all reservations of the block and clears the monitors of the other contexts that held it, and a
  failed one drops none.
\<close>

theorem reservations_refine:
  assumes "locks_ok (lockedAddrList s)" and "hasPaddr (req p)" and "hasContextId (req p)" and "contextId_f (req p) \<noteq> - 1"
    and "writeable s"
  shows "let R = reservation (lockedAddrList s); b = lock_mask (r_paddr (req p)); c = contextId_f (req p);
      ok = (isLLSC (cmd p) \<longrightarrow> R c = Some b) in
    (\<exists>s'. trackLoadLocked s p = Inr s' \<and> locks_ok (lockedAddrList s') \<and> reservation (lockedAddrList s') = R(c \<mapsto> b))
    \<and> (\<exists>s' p' cleared. writeOK s p = Inr (ok, s', p') \<and> locks_ok (lockedAddrList s')
      \<and> reservation (lockedAddrList s') = (if ok then drop_block b R else R)
      \<and> clearedExclusive s' = clearedExclusive s @ cleared \<and> set cleared = (if ok then {d. d \<noteq> c \<and> R d = Some b} else {})
      \<and> (isLLSC (cmd p) \<longrightarrow> getExtraData (req p') = Inr (if ok then 1 else 0)))"
  using trackLoadLocked_ok [OF assms(1-4)] writeOK_ok [OF assms(1-3,5)] unfolding Let_def by blast

definition sample_sc :: "Command \<Rightarrow> int \<Rightarrow> Packet" where
  "sample_sc c ctx = (sample_packet c 0x80000014 4 100)\<lparr>req := setContext (physRequest 0 0x80000014 4 0 0) ctx\<rparr>"

lemma sample_sc_sel [simp]: "cmd (sample_sc c ctx) = c" "hasPaddr (req (sample_sc c ctx))" "hasContextId (req (sample_sc c ctx))"
  "contextId_f (req (sample_sc c ctx)) = ctx" "lock_mask (r_paddr (req (sample_sc c ctx))) = 0x80000010"
  by (simp_all add: sample_sc_def setContext_def physRequest_def emptyRequest_def hasPaddr_def hasContextId_def
      flags_set_def isSet_def lock_mask_def)

theorem reservations_refine_witness:
  "\<exists>s' p' cleared. writeOK (sample_memory\<lparr>lockedAddrList := [\<lparr>la_addr = 0x80000010, la_contextId = 3\<rparr>,
      \<lparr>la_addr = 0x80000010, la_contextId = 5\<rparr>]\<rparr>) (sample_sc StoreCondReq 5) = Inr (True, s', p')
    \<and> reservation (lockedAddrList s') 3 = None \<and> reservation (lockedAddrList s') 5 = None
    \<and> clearedExclusive s' = cleared \<and> 3 \<in> set cleared"
proof -
  let ?s = "sample_memory\<lparr>lockedAddrList := [\<lparr>la_addr = 0x80000010, la_contextId = 3\<rparr>, \<lparr>la_addr = 0x80000010, la_contextId = 5\<rparr>]\<rparr>"
  have "locks_ok (lockedAddrList ?s)" "writeable ?s" "clearedExclusive ?s = []" by (simp_all add: locks_ok_def sample_memory_def)
  moreover have "isLLSC StoreCondReq" by code_simp
  ultimately show ?thesis
    using reservations_refine [of ?s "sample_sc StoreCondReq 5"] by (auto simp: Let_def drop_block_def)
qed

text \<open>Sequences of accesses of several contexts; the results tell which stores were allowed.\<close>

datatype lock_op = LoadLocked Packet | Store Packet

fun run_locks :: "AbstractMemory \<Rightarrow> lock_op list \<Rightarrow> (AbstractMemory \<times> bool list) res" where
  "run_locks s [] = Inr (s, [])"
| "run_locks s (LoadLocked p # ops) =
     rbind (trackLoadLocked s p) (\<lambda>s. rbind (run_locks s ops) (\<lambda>(s, rs). Inr (s, False # rs)))"
| "run_locks s (Store p # ops) =
     rbind (writeOK s p) (\<lambda>(ok, s, _). rbind (run_locks s ops) (\<lambda>(s, rs). Inr (s, ok # rs)))"

fun op_pkt :: "lock_op \<Rightarrow> Packet" where
  "op_pkt (LoadLocked p) = p"
| "op_pkt (Store p) = p"

definition op_ok :: "lock_op \<Rightarrow> bool" where
  "op_ok x \<longleftrightarrow> hasPaddr (req (op_pkt x)) \<and> hasContextId (req (op_pkt x)) \<and> contextId_f (req (op_pkt x)) \<noteq> - 1"

definition op_block :: "lock_op \<Rightarrow> Addr" where
  "op_block x = lock_mask (r_paddr (req (op_pkt x)))"

definition op_context :: "lock_op \<Rightarrow> int" where
  "op_context x = contextId_f (req (op_pkt x))"

lemma run_locks_append:
  "run_locks s (xs @ ys) = rbind (run_locks s xs) (\<lambda>(s', rs). rbind (run_locks s' ys) (\<lambda>(s'', rs'). Inr (s'', rs @ rs')))"
proof (induction xs arbitrary: s)
  case Nil
  show ?case by (cases "run_locks s ys") auto
next
  case (Cons x xs)
  have r: "rbind (rbind m f) g = rbind m (\<lambda>y. rbind (f y) g)" for m :: "'a res" and f :: "'a \<Rightarrow> 'b res" and g :: "'b \<Rightarrow> 'c res"
    by (cases m) auto
  have a: "rbind (case q of (s', rs) \<Rightarrow> F s' rs) k = (case q of (s', rs) \<Rightarrow> rbind (F s' rs) k)"
    for q :: "'a \<times> 'b" and F :: "'a \<Rightarrow> 'b \<Rightarrow> 'c res" and k :: "'c \<Rightarrow> 'd res"
    by (cases q) auto
  show ?case
    by (cases x) (auto simp: Cons.IH r a split_beta intro!: arg_cong2 [where f = rbind] ext)
qed

definition hits :: "Addr \<Rightarrow> lock_op list \<Rightarrow> bool list \<Rightarrow> bool" where
  "hits b ops rs \<longleftrightarrow> (\<exists>(x, ok) \<in> set (zip ops rs). op_block x = b \<and> ok)"

lemma run_locks_reservation:
  assumes "locks_ok (lockedAddrList s)" and "writeable s" and "\<forall>x \<in> set ops. op_ok x"
    and "\<forall>p. LoadLocked p \<in> set ops \<longrightarrow> op_context (LoadLocked p) \<noteq> c"
  shows "\<exists>s' rs. run_locks s ops = Inr (s', rs) \<and> locks_ok (lockedAddrList s') \<and> writeable s' \<and> length rs = length ops
    \<and> (reservation (lockedAddrList s') c = Some b \<longleftrightarrow> reservation (lockedAddrList s) c = Some b \<and> \<not> hits b ops rs)"
  using assms
proof (induction ops arbitrary: s)
  case Nil
  then show ?case by (simp add: hits_def)
next
  case (Cons x ops)
  show ?case
  proof (cases x)
    case (LoadLocked p)
    with Cons.prems have p: "hasPaddr (req p)" "hasContextId (req p)" "contextId_f (req p) \<noteq> - 1" "contextId_f (req p) \<noteq> c"
      by (auto simp: op_ok_def op_context_def)
    obtain s1 where s1: "trackLoadLocked s p = Inr s1" "locks_ok (lockedAddrList s1)" "writeable s1 = writeable s"
      "reservation (lockedAddrList s1) = (reservation (lockedAddrList s))(contextId_f (req p) \<mapsto> lock_mask (r_paddr (req p)))"
      using trackLoadLocked_ok [OF Cons.prems(1) p(1-3)] by blast
    obtain s' rs where "run_locks s1 ops = Inr (s', rs) \<and> locks_ok (lockedAddrList s') \<and> writeable s' \<and> length rs = length ops
      \<and> (reservation (lockedAddrList s') c = Some b \<longleftrightarrow> reservation (lockedAddrList s1) c = Some b \<and> \<not> hits b ops rs)"
      using Cons.IH [of s1] Cons.prems s1(2,3) by auto
    then show ?thesis using LoadLocked s1(1) p(4) by (auto simp: s1(4) hits_def)
  next
    case (Store p)
    with Cons.prems have p: "hasPaddr (req p)" "hasContextId (req p)" by (auto simp: op_ok_def)
    let ?R = "reservation (lockedAddrList s)" and ?b = "lock_mask (r_paddr (req p))"
    obtain ok s1 p1 where s1: "writeOK s p = Inr (ok, s1, p1)" "locks_ok (lockedAddrList s1)" "writeable s1"
      "reservation (lockedAddrList s1) = (if ok then drop_block ?b ?R else ?R)"
      using writeOK_ok [OF Cons.prems(1) p Cons.prems(2)] by blast
    obtain s' rs where "run_locks s1 ops = Inr (s', rs) \<and> locks_ok (lockedAddrList s') \<and> writeable s' \<and> length rs = length ops
      \<and> (reservation (lockedAddrList s') c = Some b \<longleftrightarrow> reservation (lockedAddrList s1) c = Some b \<and> \<not> hits b ops rs)"
      using Cons.IH [of s1] Cons.prems s1(2,3) by auto
    then show ?thesis using Store s1(1) by (auto simp: s1(4) hits_def drop_block_def op_block_def)
  qed
qed



section \<open>The memory as the peer of a device\<close>

text \<open>The simulated addresses of the memory and the regions and buffers it serves.\<close>

definition am_view :: "mem \<Rightarrow> AbstractMemory \<Rightarrow> Addr \<Rightarrow> byte" where
  "am_view h s a = (if contains (mrange s) a then mem_at h s a else 0)"

definition am_reach :: "AbstractMemory \<Rightarrow> Addr \<Rightarrow> nat \<Rightarrow> nat \<Rightarrow> bool" where
  "am_reach s a n d \<longleftrightarrow> plain (mrange s) \<and> start_of (mrange s) \<le> a \<and> unat a + n \<le> unat (end_of (mrange s))
     \<and> (d + n \<le> pmemAddr s \<or> pmemAddr s + unat (end_of (mrange s)) - unat (start_of (mrange s)) \<le> d)
     \<and> pmemAddr s \<noteq> 0 \<and> writeable s \<and> locks_ok (lockedAddrList s)"

lemma am_reach_serves: "am_reach s (addr p) (psize p) (data p) \<Longrightarrow> plain_request p \<Longrightarrow> serves s p"
  by (simp add: am_reach_def plain_request_def serves_def in_memory_def apart_def)

lemma am_reach_fits: "am_reach s a n d \<Longrightarrow> unat a + n < 2 ^ 64"
  using unsigned_less [of "end_of (mrange s)", where 'a = nat] by (simp add: am_reach_def)

lemma am_reach_part:
  assumes "am_reach s a n d" and "i + m \<le> n"
  shows "am_reach s (a + of_nat i) m (d + i)"
proof -
  have "unat a + i < 2 ^ 64" using am_reach_fits [OF assms(1)] assms(2) by simp
  then have "unat (a + of_nat i) = unat a + i" by (simp add: unat_add_small unat_of_nat)
  then show ?thesis using assms by (auto simp: am_reach_def word_le_nat_alt)
qed

lemma am_view_frame:
  assumes "am_reach s a n d" and "length bs \<le> n"
  shows "am_view (write_bytes h d bs) s = am_view h s"
proof
  fix x
  show "am_view (write_bytes h d bs) s x = am_view h s x"
  proof (cases "contains (mrange s) x")
    case True
    then have "start_of (mrange s) \<le> x" "x < end_of (mrange s)" using assms(1) by (simp_all add: am_reach_def plain_contains)
    then have "pmemAddr s \<le> toHostAddr s x" "toHostAddr s x < pmemAddr s + unat (end_of (mrange s)) - unat (start_of (mrange s))"
      by (auto simp: toHostAddr_inside word_le_nat_alt word_less_nat_alt)
    then show ?thesis using assms by (auto simp: am_view_def mem_at_def write_bytes_def am_reach_def)
  qed (simp add: am_view_def)
qed

lemma am_stats [simp]: "am_reach (s\<lparr>stats := st\<rparr>) = am_reach s" "am_view h (s\<lparr>stats := st\<rparr>) = am_view h s"
  by (auto simp: fun_eq_iff am_reach_def am_view_def mem_at_def toHostAddr_def)

lemma answers_read: "pkt_ok p \<Longrightarrow> isResponse c \<Longrightarrow> answers p (clearf EXPRESS_SNOOP (p\<lparr>cmd := c\<rparr>))"
  by (simp add: answers_def pkt_ok_def isSet_def flags_clear_def and.assoc)

lemma peer_read:
  assumes "am_reach s (addr p) (psize p) (data p)" and "plain_request p" and "cmd p = ReadReq"
  shows "\<exists>st q. access h s p = Inr (write_bytes h (data p) (map (\<lambda>i. am_view h s (addr p + of_nat i)) [0..<psize p]), s\<lparr>stats := st\<rparr>, q)
    \<and> answers p q"
proof -
  have sv: "serves s p" using am_reach_serves [OF assms(1,2)] .
  have m: "in_memory s p" "pkt_ok p" using sv by (simp_all add: serves_def)
  have "read_bytes h (toHostAddr s (addr p)) (psize p) = map (\<lambda>i. am_view h s (addr p + of_nat i)) [0..<psize p]"
  proof (rule nth_equalityI)
    fix i assume "i < length (read_bytes h (toHostAddr s (addr p)) (psize p))"
    then have i: "i < psize p" by simp
    have u: "unat (addr p + of_nat i) = unat (addr p) + i"
      using am_reach_fits [OF assms(1)] i by (simp add: unat_add_small unat_of_nat)
    then have "contains (mrange s) (addr p + of_nat i)"
      using assms(1) i by (simp add: am_reach_def plain_contains word_le_nat_alt word_less_nat_alt)
    moreover have "start_of (mrange s) \<le> addr p + of_nat i" using u assms(1) by (simp add: am_reach_def word_le_nat_alt)
    ultimately show "read_bytes h (toHostAddr s (addr p)) (psize p) ! i = map (\<lambda>i. am_view h s (addr p + of_nat i)) [0..<psize p] ! i"
      using i u toHostAddr_offset [OF m(1) i] by (simp add: read_bytes_def am_view_def mem_at_def toHostAddr_inside)
  qed simp
  then show ?thesis using access_read [OF sv assms(3), of h] answers_read [OF m(2), of ReadResp] by auto
qed

lemma peer_write:
  assumes "am_reach s (addr p) (psize p) (data p)" and "plain_request p" and "cmd p = WriteReq"
  shows "\<exists>h' s' q. access h s p = Inr (h', s', q) \<and> answers p q \<and> am_reach s' = am_reach s
    \<and> (\<forall>x. am_view h' s' x = (if unat (addr p) \<le> unat x \<and> unat x < unat (addr p) + psize p
          then h (data p + (unat x - unat (addr p))) else am_view h s x))
    \<and> (\<forall>a n d j. am_reach s a n d \<and> d \<le> j \<and> j < d + n \<longrightarrow> h' j = h j)"
proof -
  have sv: "serves s p" using am_reach_serves [OF assms(1,2)] .
  have m: "in_memory s p" "pkt_ok p" "writeable s" "locks_ok (lockedAddrList s)" using sv assms(1) by (simp_all add: serves_def am_reach_def)
  let ?h = "write_bytes h (toHostAddr s (addr p)) (read_bytes h (data p) (psize p))"
  obtain ls cl st where a: "access h s p = Inr (?h, s\<lparr>lockedAddrList := ls, clearedExclusive := cl, stats := st\<rparr>, clearf EXPRESS_SNOOP (p\<lparr>cmd := WriteResp\<rparr>))"
    (is "_ = Inr (_, ?s, _)") and ls: "locks_ok ls"
    using access_write [OF sv assms(3) m(3,4), of h] by blast
  have "am_reach ?s = am_reach s" using ls m(4) by (auto simp: fun_eq_iff am_reach_def)
  moreover have "am_view ?h ?s x = (if unat (addr p) \<le> unat x \<and> unat x < unat (addr p) + psize p
      then h (data p + (unat x - unat (addr p))) else am_view h s x)" for x
  proof (cases "contains (mrange s) x")
    case True
    then show ?thesis using mem_at_store [OF m(1) True, of "read_bytes h (data p) (psize p)" h]
      by (auto simp: am_view_def mem_at_def toHostAddr_def read_bytes_def)
  next
    case False
    then have "\<not> (unat (addr p) \<le> unat x \<and> unat x < unat (addr p) + psize p)"
      using assms(1) by (auto simp: am_reach_def plain_contains word_le_nat_alt word_less_nat_alt)
    then show ?thesis using False by (auto simp: am_view_def)
  qed
  moreover have "?h j = h j" if "am_reach s x n d" "d \<le> j" "j < d + n" for x n d j
    using that store_outside [OF m(1), of "read_bytes h (data p) (psize p)" j h] by (auto simp: am_reach_def)
  ultimately show ?thesis using a answers_read [OF m(2), of WriteResp]
    by (intro exI [of _ ?h] exI [of _ ?s] exI) auto
qed

end
