(* ===== verification/Event_Queue.thy ===== *)
theory Event_Queue
  imports Mem_Request "HOL-Library.Product_Lexorder"
begin

text \<open>
  The event queue of \<^verbatim>\<open>sim/eventq.hh\<close> and \<^verbatim>\<open>sim/eventq.cc\<close>. Events are heap objects linked by two
  pointers: \<^verbatim>\<open>nextBin\<close> leads to the first event of the next time, \<^verbatim>\<open>nextInBin\<close> to the next event of the
  same time and priority; only the first event of a bin has a valid \<^verbatim>\<open>nextBin\<close>. The model keeps the
  heap as a function from host pointers to events (0 is \<^verbatim>\<open>NULL\<close>), so that stale pointers and
  aliasing are there as in the code. The loops over the lists are partial functions: \<open>None\<close> is a
  loop that does not end. One queue is modelled, outside parallel mode; the events that a release
  deletes are collected in \<open>freed\<close>.
\<close>

unbundle bit_operations_syntax

section \<open>Events\<close>

abbreviation (input) Squashed :: "16 word" where "Squashed \<equiv> 0x0001"
abbreviation (input) Scheduled :: "16 word" where "Scheduled \<equiv> 0x0002"
abbreviation (input) Managed :: "16 word" where "Managed \<equiv> 0x0004"
abbreviation (input) IsExitEvent :: "16 word" where "IsExitEvent \<equiv> 0x0010"
abbreviation (input) IsMainQueue :: "16 word" where "IsMainQueue \<equiv> 0x0020"
abbreviation (input) Initialized :: "16 word" where "Initialized \<equiv> 0x7a40"
abbreviation (input) InitMask :: "16 word" where "InitMask \<equiv> 0xffc0"
abbreviation (input) PublicWrite :: "16 word" where "PublicWrite \<equiv> 0x001d"

record Event =
  nextBin :: nat
  nextInBin :: nat
  e_when :: Tick
  e_priority :: int
  e_flags :: "16 word"

type_synonym heap = "nat \<Rightarrow> Event"

definition newEvent :: "int \<Rightarrow> 16 word \<Rightarrow> Event res" where
  "newEvent p f = ensure (noneSet f (NOT PublicWrite)) AssertFail
     (Inr \<lparr>nextBin = 0, nextInBin = 0, e_when = 0, e_priority = p, e_flags = Initialized OR f\<rparr>)"

definition setWhen :: "Tick \<Rightarrow> Event \<Rightarrow> Event" where
  "setWhen w e = e\<lparr>e_when := w\<rparr>"

definition initialized :: "Event \<Rightarrow> bool" where
  "initialized e \<longleftrightarrow> e_flags e AND InitMask = Initialized"

definition scheduled :: "Event \<Rightarrow> bool" where
  "scheduled e \<longleftrightarrow> isSet (e_flags e) Scheduled"

definition squash :: "Event \<Rightarrow> Event" where
  "squash e = e\<lparr>e_flags := flags_set (e_flags e) Squashed\<rparr>"

definition squashed :: "Event \<Rightarrow> bool" where
  "squashed e \<longleftrightarrow> isSet (e_flags e) Squashed"

definition isExitEvent :: "Event \<Rightarrow> bool" where
  "isExitEvent e \<longleftrightarrow> isSet (e_flags e) IsExitEvent"

definition ev_less :: "Event \<Rightarrow> Event \<Rightarrow> bool" where
  "ev_less l r \<longleftrightarrow> e_when l < e_when r \<or> (e_when l = e_when r \<and> e_priority l < e_priority r)"

definition ev_le :: "Event \<Rightarrow> Event \<Rightarrow> bool" where
  "ev_le l r \<longleftrightarrow> e_when l < e_when r \<or> (e_when l = e_when r \<and> e_priority l \<le> e_priority r)"

definition ev_eq :: "Event \<Rightarrow> Event \<Rightarrow> bool" where
  "ev_eq l r \<longleftrightarrow> e_when l = e_when r \<and> e_priority l = e_priority r"

section \<open>The queue\<close>

record EventQueue =
  events :: heap
  head :: nat
  curTick :: Tick
  freed :: "nat list"

definition upd_event :: "nat \<Rightarrow> (Event \<Rightarrow> Event) \<Rightarrow> EventQueue \<Rightarrow> EventQueue" where
  "upd_event e f q = q\<lparr>events := (events q)(e := f (events q e))\<rparr>"

definition set_flag :: "16 word \<Rightarrow> Event \<Rightarrow> Event" where
  "set_flag f e = e\<lparr>e_flags := flags_set (e_flags e) f\<rparr>"

definition clear_flag :: "16 word \<Rightarrow> Event \<Rightarrow> Event" where
  "clear_flag f e = e\<lparr>e_flags := flags_clear (e_flags e) f\<rparr>"

definition insertBefore :: "heap \<Rightarrow> nat \<Rightarrow> nat \<Rightarrow> heap" where
  "insertBefore hp event cur =
     (if cur = 0 \<or> ev_less (hp event) (hp cur)
      then hp(event := (hp event)\<lparr>nextBin := cur, nextInBin := 0\<rparr>)
      else hp(event := (hp event)\<lparr>nextBin := nextBin (hp cur), nextInBin := cur\<rparr>))"

partial_function (option) find_bin :: "heap \<Rightarrow> Event \<Rightarrow> nat \<Rightarrow> nat \<Rightarrow> (nat \<times> nat) option" where
  [code]: "find_bin hp event prev cur =
     (if cur \<noteq> 0 \<and> ev_less (hp cur) event then find_bin hp event cur (nextBin (hp cur))
      else Some (prev, cur))"

definition queue_insert :: "EventQueue \<Rightarrow> nat \<Rightarrow> EventQueue option" where
  "queue_insert q event =
     (let hp = events q in
      if head q = 0 \<or> ev_le (hp event) (hp (head q)) then
        Some (q\<lparr>events := insertBefore hp event (head q), head := event\<rparr>)
      else Option.bind (find_bin hp (hp event) (head q) (nextBin (hp (head q)))) (\<lambda>(prev, cur).
        let hp = insertBefore hp event cur
        in Some (q\<lparr>events := hp(prev := (hp prev)\<lparr>nextBin := event\<rparr>)\<rparr>)))"

text \<open>\<^verbatim>\<open>removeItem\<close>: the loop returns the event before the one to remove, or panics.\<close>

partial_function (option) find_item :: "heap \<Rightarrow> nat \<Rightarrow> nat \<Rightarrow> nat \<Rightarrow> nat res option" where
  [code]: "find_item hp event cur nxt =
     (if event = nxt then Some (Inr cur)
      else if nxt = 0 then Some (Inl Panic)
      else find_item hp event nxt (nextInBin (hp nxt)))"

definition removeItem :: "heap \<Rightarrow> nat \<Rightarrow> nat \<Rightarrow> (heap \<times> nat) res option" where
  "removeItem hp event first =
     (let nxt = nextInBin (hp first) in
      if event = first then
        (if nxt = 0 then Some (Inr (hp, nextBin (hp first)))
         else Some (Inr (hp(nxt := (hp nxt)\<lparr>nextBin := nextBin (hp first)\<rparr>), nxt)))
      else Option.bind (find_item hp event first nxt) (\<lambda>r. Some (rbind r (\<lambda>cur.
        Inr (hp(cur := (hp cur)\<lparr>nextInBin := nextInBin (hp event)\<rparr>), first)))))"

definition queue_remove :: "EventQueue \<Rightarrow> nat \<Rightarrow> EventQueue res option" where
  "queue_remove q event =
     (let hp = events q in
      if head q = 0 then Some (Inl Panic)
      else if ev_eq (hp (head q)) (hp event) then
        Option.bind (removeItem hp event (head q)) (\<lambda>r. Some (rbind r (\<lambda>(hp, first). Inr (q\<lparr>events := hp, head := first\<rparr>))))
      else Option.bind (find_bin hp (hp event) (head q) (nextBin (hp (head q)))) (\<lambda>(prev, cur).
        if cur = 0 \<or> \<not> ev_eq (hp cur) (hp event) then Some (Inl Panic)
        else Option.bind (removeItem hp event cur) (\<lambda>r. Some (rbind r (\<lambda>(hp, first).
          Inr (q\<lparr>events := hp(prev := (hp prev)\<lparr>nextBin := first\<rparr>)\<rparr>))))))"

text \<open>\<^verbatim>\<open>release\<close> deletes a managed event that is not scheduled; \<^verbatim>\<open>acquire\<close> does nothing.\<close>

definition release :: "nat \<Rightarrow> EventQueue \<Rightarrow> EventQueue" where
  "release event q =
     (if isSet (e_flags (events q event)) Managed \<and> \<not> scheduled (events q event)
      then q\<lparr>freed := event # freed q\<rparr> else q)"

definition schedule :: "EventQueue \<Rightarrow> nat \<Rightarrow> Tick \<Rightarrow> EventQueue res option" where
  "schedule q event w =
     (if \<not> (curTick q \<le> w \<and> \<not> scheduled (events q event) \<and> initialized (events q event)) then Some (Inl AssertFail)
      else Option.bind (queue_insert (upd_event event (setWhen w) q) event) (\<lambda>q.
        Some (Inr (upd_event event (set_flag Scheduled) q))))"

definition deschedule :: "EventQueue \<Rightarrow> nat \<Rightarrow> EventQueue res option" where
  "deschedule q event =
     (if \<not> (scheduled (events q event) \<and> initialized (events q event)) then Some (Inl AssertFail)
      else Option.bind (queue_remove q event) (\<lambda>r. Some (rbind r (\<lambda>q.
        Inr (release event (upd_event event (\<lambda>e. clear_flag Scheduled (clear_flag Squashed e)) q))))))"

definition reschedule :: "EventQueue \<Rightarrow> nat \<Rightarrow> Tick \<Rightarrow> bool \<Rightarrow> EventQueue res option" where
  "reschedule q event w always =
     (if \<not> (curTick q \<le> w \<and> (always \<or> scheduled (events q event)) \<and> initialized (events q event)) then Some (Inl AssertFail)
      else Option.bind (if scheduled (events q event) then queue_remove q event else Some (Inr q)) (\<lambda>r.
        case r of
          Inl e \<Rightarrow> Some (Inl e)
        | Inr q \<Rightarrow> Option.bind (queue_insert (upd_event event (setWhen w) q) event) (\<lambda>q.
            Some (Inr (upd_event event (\<lambda>e. set_flag Scheduled (clear_flag Squashed e)) q)))))"

text \<open>\<^verbatim>\<open>serviceOne\<close> on a queue that is not empty: it takes the first event out of its list and runs
  its action, which is the parameter \<open>process\<close>. The result is the exit event, or 0.\<close>

definition service_pop :: "EventQueue \<Rightarrow> EventQueue" where
  "service_pop q =
     (let event = head q;
          nxt = nextInBin (events q event);
          q = upd_event event (clear_flag Scheduled) q
      in if nxt \<noteq> 0 then (upd_event nxt (\<lambda>e. e\<lparr>nextBin := nextBin (events q event)\<rparr>) q)\<lparr>head := nxt\<rparr>
         else q\<lparr>head := nextBin (events q event)\<rparr>)"

definition serviceOne :: "(nat \<Rightarrow> EventQueue \<Rightarrow> EventQueue) \<Rightarrow> EventQueue \<Rightarrow> (EventQueue \<times> nat) res" where
  "serviceOne process q =
     (let event = head q;
          q = service_pop q
      in if \<not> squashed (events q event) then
           (let q = process event (q\<lparr>curTick := e_when (events q event)\<rparr>) in
            if isExitEvent (events q event) then
              ensure (\<not> isSet (e_flags (events q event)) Managed \<or> \<not> isSet (e_flags (events q event)) IsMainQueue)
                AssertFail (Inr (q, event))
            else Inr (release event q, 0))
         else Inr (release event (upd_event event (clear_flag Squashed) q), 0))"

partial_function (option) service_loop ::
  "(nat \<Rightarrow> EventQueue \<Rightarrow> EventQueue) \<Rightarrow> EventQueue \<Rightarrow> Tick \<Rightarrow> EventQueue res option" where
  [code]: "service_loop process q w =
     (if head q = 0 \<or> e_when (events q (head q)) > w then Some (Inr q)
      else case serviceOne process q of
        Inl e \<Rightarrow> Some (Inl e)
      | Inr (q, _) \<Rightarrow> service_loop process q w)"

definition serviceEvents :: "(nat \<Rightarrow> EventQueue \<Rightarrow> EventQueue) \<Rightarrow> EventQueue \<Rightarrow> Tick \<Rightarrow> EventQueue res option" where
  "serviceEvents process q w =
     Option.bind (service_loop process q w) (\<lambda>r. Some (rbind r (\<lambda>q. Inr (q\<lparr>curTick := w\<rparr>))))"

definition checkpointReschedule :: "EventQueue \<Rightarrow> nat \<Rightarrow> EventQueue option" where
  "checkpointReschedule q event =
     (if isSet (e_flags (events q event)) Scheduled then queue_insert q event else Some q)"

definition replaceHead :: "EventQueue \<Rightarrow> nat \<Rightarrow> EventQueue \<times> nat" where
  "replaceHead q s = (q\<lparr>head := s\<rparr>, head q)"

section \<open>The abstract queue: bins of events\<close>

text \<open>The contents of a queue as a list of bins, the earliest first; within a bin, all events have
  the same time and priority, and the one inserted last comes first.\<close>

type_synonym key = "Tick \<times> int"

definition key :: "Event \<Rightarrow> key" where
  "key e = (e_when e, e_priority e)"

lemma key_order: "ev_less l r \<longleftrightarrow> key l < key r" "ev_le l r \<longleftrightarrow> key l \<le> key r" "ev_eq l r \<longleftrightarrow> key l = key r"
  by (auto simp: ev_less_def ev_le_def ev_eq_def key_def less_prod_simp less_eq_prod_simp)

fun bins_insert :: "(nat \<Rightarrow> key) \<Rightarrow> nat \<Rightarrow> nat list list \<Rightarrow> nat list list" where
  "bins_insert k e [] = [[e]]"
| "bins_insert k e (b # bs) =
     (if k e < k (hd b) then [e] # b # bs else if k e = k (hd b) then (e # b) # bs else b # bins_insert k e bs)"

definition bins_remove :: "nat \<Rightarrow> nat list list \<Rightarrow> nat list list" where
  "bins_remove e bs = filter (\<lambda>b. b \<noteq> []) (map (remove1 e) bs)"

definition same_key :: "(nat \<Rightarrow> key) \<Rightarrow> nat list \<Rightarrow> bool" where
  "same_key k b \<longleftrightarrow> (\<forall>e \<in> set b. k e = k (hd b))"

definition bins_ok :: "(nat \<Rightarrow> key) \<Rightarrow> nat list list \<Rightarrow> bool" where
  "bins_ok k bs \<longleftrightarrow> distinct (concat bs) \<and> (\<forall>b \<in> set bs. b \<noteq> [] \<and> same_key k b)
     \<and> sorted_wrt (<) (map (\<lambda>b. k (hd b)) bs)"

lemma same_keyD: "same_key k b \<Longrightarrow> e \<in> set b \<Longrightarrow> k e = k (hd b)"
  by (simp add: same_key_def)

lemma same_key_single [simp]: "same_key k [e]"
  by (simp add: same_key_def)

lemma same_key_Cons: "b \<noteq> [] \<Longrightarrow> same_key k b \<Longrightarrow> k e = k (hd b) \<Longrightarrow> same_key k (e # b)"
  unfolding same_key_def by (metis list.sel(1) set_ConsD)

lemma same_key_subset: "same_key k b \<Longrightarrow> set c \<subseteq> set b \<Longrightarrow> same_key k c"
  unfolding same_key_def by (metis empty_iff hd_in_set list.set(1) subsetD)

lemma bins_ok_Nil [simp]: "bins_ok k []"
  by (simp add: bins_ok_def)

lemma bins_ok_Cons:
  "bins_ok k (b # bs) \<longleftrightarrow> b \<noteq> [] \<and> distinct b \<and> set b \<inter> set (concat bs) = {} \<and> same_key k b
     \<and> (\<forall>c \<in> set bs. k (hd b) < k (hd c)) \<and> bins_ok k bs"
  by (auto simp: bins_ok_def)

lemma set_bins_insert: "set (concat (bins_insert k e bs)) = insert e (set (concat bs))"
  by (induction bs) auto

lemma bins_insert_heads: "c \<in> set (bins_insert k e bs) \<Longrightarrow> (\<forall>b \<in> set bs. b \<noteq> []) \<Longrightarrow>
    hd c = e \<or> (\<exists>b \<in> set bs. k (hd c) = k (hd b))"
  by (induction bs) (auto split: if_splits)

lemma bins_insert_ok: "bins_ok k bs \<Longrightarrow> e \<notin> set (concat bs) \<Longrightarrow> bins_ok k (bins_insert k e bs)"
proof (induction bs)
  case Nil
  then show ?case by (simp add: bins_ok_def)
next
  case (Cons b bs)
  have b: "b \<noteq> []" "distinct b" "set b \<inter> set (concat bs) = {}" "same_key k b"
    "\<forall>c \<in> set bs. k (hd b) < k (hd c)" "bins_ok k bs" "e \<notin> set b" "e \<notin> set (concat bs)"
    using Cons.prems unfolding bins_ok_Cons by simp_all
  consider "k e < k (hd b)" | "k e = k (hd b)" | "k (hd b) < k e" by (rule linorder_cases)
  then show ?case
  proof cases
    case 1
    then have "\<forall>c \<in> set bs. k e < k (hd c)" using b(5) less_trans by blast
    then show ?thesis using 1 b Cons.prems(1) by (simp add: bins_ok_Cons)
  next
    case 2
    then have "same_key k (e # b)" using b(1,4) by (simp add: same_key_Cons)
    then show ?thesis using 2 b by (simp add: bins_ok_Cons)
  next
    case 3
    have "\<forall>c \<in> set bs. c \<noteq> []" using b(6) by (simp add: bins_ok_def)
    then have h: "k (hd b) < k (hd c)" if "c \<in> set (bins_insert k e bs)" for c
      using bins_insert_heads [OF that] b(5) 3 by auto
    have "bins_insert k e (b # bs) = b # bins_insert k e bs" using 3 by auto
    moreover have "set b \<inter> set (concat (bins_insert k e bs)) = {}" unfolding set_bins_insert using b(3,7) by blast
    ultimately show ?thesis using b h Cons.IH by (simp only: bins_ok_Cons) blast
  qed
qed

lemma bins_insert_skip:
  "\<forall>c \<in> set cs. k (hd c) < k e \<Longrightarrow> bins_insert k e (cs @ ds) = cs @ bins_insert k e ds"
  by (induction cs) auto

lemma bins_remove_Cons: "bins_remove e (b # bs) = (if remove1 e b = [] then [] else [remove1 e b]) @ bins_remove e bs"
  by (simp add: bins_remove_def)

lemma bins_remove_notin: "e \<notin> set (concat bs) \<Longrightarrow> \<forall>b \<in> set bs. b \<noteq> [] \<Longrightarrow> bins_remove e bs = bs"
  by (induction bs) (auto simp: bins_remove_def remove1_idem)

lemma bins_remove_append: "bins_remove e (bs @ cs) = bins_remove e bs @ bins_remove e cs"
  by (simp add: bins_remove_def)

lemma set_bins_remove: "distinct (concat bs) \<Longrightarrow> set (concat (bins_remove e bs)) = set (concat bs) - {e}"
proof (induction bs)
  case (Cons b bs)
  have "set (concat (bins_remove e (b # bs))) = set (remove1 e b) \<union> set (concat (bins_remove e bs))"
    by (simp add: bins_remove_Cons)
  then show ?case using Cons by (auto simp: set_remove1_eq)
qed (simp add: bins_remove_def)

lemma bins_remove_ok: "bins_ok k bs \<Longrightarrow> bins_ok k (bins_remove e bs)"
proof (induction bs)
  case Nil
  then show ?case by (simp add: bins_remove_def)
next
  case (Cons b bs)
  have b: "b \<noteq> []" "distinct b" "set b \<inter> set (concat bs) = {}" "same_key k b"
    "\<forall>c \<in> set bs. k (hd b) < k (hd c)" "bins_ok k bs"
    using Cons.prems unfolding bins_ok_Cons by simp_all
  have dist: "distinct (concat bs)" using b(6) by (simp add: bins_ok_def)
  have sub: "set (remove1 e b) \<subseteq> set b" by (rule set_remove1_subset)
  have h: "k (hd b) < k (hd c)" if c: "c \<in> set (bins_remove e bs)" for c
  proof -
    obtain d where d: "d \<in> set bs" "c = remove1 e d" "c \<noteq> []" using c by (auto simp: bins_remove_def)
    have "hd c \<in> set d" using d(2) hd_in_set [OF d(3)] set_remove1_subset [of e d] by blast
    moreover have "same_key k d" using b(6) d(1) by (simp add: bins_ok_def)
    ultimately have "k (hd c) = k (hd d)" by (simp add: same_keyD)
    then show ?thesis using b(5) d(1) by simp
  qed
  have k: "remove1 e b \<noteq> [] \<Longrightarrow> k (hd (remove1 e b)) = k (hd b)"
    using same_keyD [OF b(4)] sub hd_in_set by blast
  have "set (concat (bins_remove e bs)) \<subseteq> set (concat bs)"
    unfolding set_bins_remove [OF dist] by (rule Diff_subset)
  then have disj: "set (remove1 e b) \<inter> set (concat (bins_remove e bs)) = {}" using b(3) sub by blast
  show ?case
  proof (cases "remove1 e b = []")
    case True
    then show ?thesis using Cons.IH b(6) by (simp add: bins_remove_Cons)
  next
    case False
    then have "bins_ok k (remove1 e b # bins_remove e bs)"
      unfolding bins_ok_Cons using Cons.IH b(2,6) same_key_subset [OF b(4) sub] disj k h by simp
    then show ?thesis using False by (simp add: bins_remove_Cons)
  qed
qed

section \<open>The pointer structure implements the bins\<close>

primrec item_seg :: "heap \<Rightarrow> nat \<Rightarrow> nat list \<Rightarrow> nat \<Rightarrow> bool" where
  "item_seg hp p [] r \<longleftrightarrow> p = r"
| "item_seg hp p (e # es) r \<longleftrightarrow> p = e \<and> e \<noteq> 0 \<and> item_seg hp (nextInBin (hp e)) es r"

primrec bin_seg :: "heap \<Rightarrow> nat \<Rightarrow> nat list list \<Rightarrow> nat \<Rightarrow> bool" where
  "bin_seg hp p [] r \<longleftrightarrow> p = r"
| "bin_seg hp p (b # bs) r \<longleftrightarrow> b \<noteq> [] \<and> item_seg hp p b 0 \<and> bin_seg hp (nextBin (hp p)) bs r"

lemma item_seg_append: "item_seg hp p (xs @ ys) r \<longleftrightarrow> (\<exists>q. item_seg hp p xs q \<and> item_seg hp q ys r)"
  by (induction xs arbitrary: p) auto

lemma bin_seg_append: "bin_seg hp p (xs @ ys) r \<longleftrightarrow> (\<exists>q. bin_seg hp p xs q \<and> bin_seg hp q ys r)"
  by (induction xs arbitrary: p) auto

lemma item_seg_hd: "item_seg hp p b r \<Longrightarrow> b \<noteq> [] \<Longrightarrow> p = hd b \<and> p \<noteq> 0"
  by (cases b) auto

lemma item_seg_cong:
  "\<forall>e \<in> set es. nextInBin (hp' e) = nextInBin (hp e) \<Longrightarrow> item_seg hp' p es r = item_seg hp p es r"
  by (induction es arbitrary: p) auto

lemma bin_seg_cong:
  assumes "\<forall>e \<in> set (concat bs). nextInBin (hp' e) = nextInBin (hp e) \<and> nextBin (hp' e) = nextBin (hp e)"
  shows "bin_seg hp' p bs r = bin_seg hp p bs r"
  using assms
proof (induction bs arbitrary: p)
  case (Cons b bs)
  have i: "item_seg hp' p b 0 = item_seg hp p b 0" using Cons.prems by (intro item_seg_cong) auto
  have "nextBin (hp' p) = nextBin (hp p)" if "item_seg hp p b 0" "b \<noteq> []"
    using item_seg_hd [OF that] that(2) Cons.prems by auto
  then show ?case using Cons i by auto
qed simp

text \<open>Only the time, the priority and the flags of events matter outside the links.\<close>

definition same_data :: "heap \<Rightarrow> heap \<Rightarrow> bool" where
  "same_data hp hp' \<longleftrightarrow> (\<forall>e. e_when (hp' e) = e_when (hp e) \<and> e_priority (hp' e) = e_priority (hp e) \<and> e_flags (hp' e) = e_flags (hp e))"

lemma same_data_key: "same_data hp hp' \<Longrightarrow> key (hp' e) = key (hp e)"
  by (simp add: same_data_def key_def)

definition rep :: "heap \<Rightarrow> nat \<Rightarrow> nat list list \<Rightarrow> bool" where
  "rep hp p bs \<longleftrightarrow> bin_seg hp p bs 0 \<and> bins_ok (\<lambda>e. key (hp e)) bs"

lemma find_bin_spec:
  assumes "bin_seg hp p (b # bs) 0" and "key (hp (hd b)) < key ev"
  shows "\<exists>bs1 b' bs2 c. b # bs = bs1 @ b' # bs2 \<and> find_bin hp ev p (nextBin (hp p)) = Some (hd b', c)
    \<and> nextBin (hp (hd b')) = c \<and> bin_seg hp c bs2 0 \<and> (\<forall>x \<in> set (bs1 @ [b']). key (hp (hd x)) < key ev)
    \<and> (bs2 = [] \<or> \<not> key (hp (hd (hd bs2))) < key ev)"
  using assms
proof (induction bs arbitrary: p b)
  case Nil
  then have "nextBin (hp p) = 0" "p = hd b" using item_seg_hd [of hp p b 0] by auto
  then show ?case using Nil by (intro exI [of _ "[]"] exI [of _ b]) (simp add: find_bin.simps)
next
  case (Cons d ds)
  have p: "p = hd b" "bin_seg hp (nextBin (hp p)) (d # ds) 0" using Cons.prems(1) item_seg_hd [of hp p b 0] by auto
  then have d: "nextBin (hp p) = hd d" "nextBin (hp p) \<noteq> 0" using item_seg_hd [of hp "nextBin (hp p)" d 0] by auto
  show ?case
  proof (cases "key (hp (hd d)) < key ev")
    case True
    have step: "find_bin hp ev p (nextBin (hp p)) = find_bin hp ev (hd d) (nextBin (hp (hd d)))"
      using True d by (subst find_bin.simps) (simp add: key_order)
    obtain bs1 b' bs2 c where r: "d # ds = bs1 @ b' # bs2" "find_bin hp ev (hd d) (nextBin (hp (hd d))) = Some (hd b', c)"
      "nextBin (hp (hd b')) = c" "bin_seg hp c bs2 0" "\<forall>x \<in> set (bs1 @ [b']). key (hp (hd x)) < key ev"
      "bs2 = [] \<or> \<not> key (hp (hd (hd bs2))) < key ev"
      using Cons.IH [of "hd d" d] p(2) True unfolding d(1) by blast
    show ?thesis using r Cons.prems(2) unfolding step
      by (intro exI [of _ "b # bs1"] exI [of _ b'] exI [of _ bs2] exI [of _ c]) simp
  next
    case False
    then have "find_bin hp ev p (nextBin (hp p)) = Some (p, hd d)"
      using d by (subst find_bin.simps) (simp add: key_order)
    then show ?thesis using False p d Cons.prems
      by (intro exI [of _ "[]"] exI [of _ b] exI [of _ "d # ds"] exI [of _ "hd d"]) simp
  qed
qed

lemma insertBefore_data: "same_data hp (insertBefore hp e c)"
  by (simp add: insertBefore_def same_data_def)

lemma insertBefore_other: "x \<noteq> e \<Longrightarrow> insertBefore hp e c x = hp x"
  by (simp add: insertBefore_def)

lemma insertBefore_fresh: "e \<notin> set (concat bs) \<Longrightarrow> bin_seg (insertBefore hp e c) p bs r = bin_seg hp p bs r"
  by (rule bin_seg_cong) (metis insertBefore_other)

lemma insertBefore_spec:
  assumes "bin_seg hp c bs 0" and "e \<notin> set (concat bs)" and "e \<noteq> 0"
    and "bs = [] \<or> \<not> key (hp (hd (hd bs))) < key (hp e)"
  shows "bin_seg (insertBefore hp e c) e (bins_insert (\<lambda>x. key (hp x)) e bs) 0"
proof (cases bs)
  case Nil
  then show ?thesis using assms by (simp add: insertBefore_def)
next
  case (Cons b ds)
  have c: "c = hd b" "c \<noteq> 0" "b \<noteq> []" "item_seg hp c b 0" "bin_seg hp (nextBin (hp c)) ds 0"
    using assms(1) Cons item_seg_hd [of hp c b 0] by auto
  have same: "insertBefore hp e c x = hp x" if "x \<in> set (concat bs)" for x
    using that assms(2) by (metis insertBefore_other)
  have fr: "item_seg (insertBefore hp e c) q b 0 = item_seg hp q b 0"
    "bin_seg (insertBefore hp e c) q ds 0 = bin_seg hp q ds 0" for q
    using same Cons by (auto intro!: item_seg_cong bin_seg_cong)
  have fr2: "insertBefore hp e c c = hp c" using same c(1,3) Cons by simp
  show ?thesis
  proof (cases "key (hp e) < key (hp (hd b))")
    case True
    then have "bins_insert (\<lambda>x. key (hp x)) e bs = [e] # b # ds" using Cons by simp
    moreover have "insertBefore hp e c e = (hp e)\<lparr>nextBin := c, nextInBin := 0\<rparr>"
      using True c(1) by (simp add: insertBefore_def key_order)
    ultimately show ?thesis using c(3-5) assms(3) fr fr2 by simp
  next
    case False
    have "\<not> key (hp (hd b)) < key (hp e)" using assms(4) Cons by simp
    with False have eq: "key (hp e) = key (hp (hd b))" using linorder_cases by blast
    then have "bins_insert (\<lambda>x. key (hp x)) e bs = (e # b) # ds" using Cons by simp
    moreover have "insertBefore hp e c e = (hp e)\<lparr>nextBin := nextBin (hp c), nextInBin := c\<rparr>"
      using eq c(1,2) by (simp add: insertBefore_def key_order)
    ultimately show ?thesis using c(4,5) assms(3) fr by simp
  qed
qed

lemma bin_seg_nextBin_upd:
  assumes "bin_seg hp p (bs1 @ [b]) q" and "distinct (concat (bs1 @ [b]))"
  shows "bin_seg (hp(hd b := (hp (hd b))\<lparr>nextBin := r\<rparr>)) p (bs1 @ [b]) r"
proof -
  let ?hp = "hp(hd b := (hp (hd b))\<lparr>nextBin := r\<rparr>)"
  obtain m where m: "bin_seg hp p bs1 m" "b \<noteq> []" "item_seg hp m b 0" using assms(1) by (auto simp: bin_seg_append)
  have "hd b \<notin> set (concat bs1)" using assms(2) hd_in_set [OF m(2)] by auto
  then have "bin_seg ?hp p bs1 m = bin_seg hp p bs1 m" by (intro bin_seg_cong) auto
  moreover have "item_seg ?hp m b 0 = item_seg hp m b 0" by (intro item_seg_cong) auto
  ultimately show ?thesis using m item_seg_hd [OF m(3,2)] by (auto simp: bin_seg_append)
qed

lemma rep_key_cong: "rep hp p bs \<Longrightarrow> (\<And>e. key (hp' e) = key (hp e)) \<Longrightarrow> bin_seg hp' p bs 0 \<Longrightarrow> rep hp' p bs"
  by (simp add: rep_def)

lemma queue_insert_spec:
  assumes "rep (events q) (head q) bs" and "e \<notin> set (concat bs)" and "e \<noteq> 0"
  shows "\<exists>q'. queue_insert q e = Some q' \<and> rep (events q') (head q') (bins_insert (\<lambda>x. key (events q x)) e bs)
    \<and> same_data (events q) (events q') \<and> curTick q' = curTick q \<and> freed q' = freed q"
proof -
  let ?hp = "events q" and ?k = "\<lambda>x. key (events q x)"
  have seg: "bin_seg ?hp (head q) bs 0" and ok: "bins_ok ?k bs" using assms(1) by (simp_all add: rep_def)
  have ok': "bins_ok ?k (bins_insert ?k e bs)" by (rule bins_insert_ok [OF ok assms(2)])
  have lift: "bins_ok (\<lambda>x. key (hp x)) (bins_insert ?k e bs)" if "same_data ?hp hp" for hp
    using ok' same_data_key [OF that] by simp
  show ?thesis
  proof (cases "head q = 0 \<or> ev_le (?hp e) (?hp (head q))")
    case True
    have "bs = [] \<or> \<not> key (?hp (hd (hd bs))) < key (?hp e)"
    proof (cases bs)
      case (Cons b ds)
      then have "head q = hd b" "head q \<noteq> 0" using seg item_seg_hd [of ?hp "head q" b 0] by auto
      then show ?thesis using True Cons by (simp add: key_order not_less)
    qed simp
    then have "bin_seg (insertBefore ?hp e (head q)) e (bins_insert ?k e bs) 0"
      by (rule insertBefore_spec [OF seg assms(2,3)])
    moreover have "queue_insert q e = Some (q\<lparr>events := insertBefore ?hp e (head q), head := e\<rparr>)"
      using True by (simp add: queue_insert_def)
    ultimately show ?thesis using lift [OF insertBefore_data] by (simp add: insertBefore_data rep_def)
  next
    case False
    obtain b ds where bs: "bs = b # ds" using seg False by (cases bs) auto
    have h: "head q = hd b" using seg bs item_seg_hd [of ?hp "head q" b 0] by auto
    then have "key (?hp (hd b)) < key (?hp e)" using False by (simp add: key_order not_le)
    from find_bin_spec [OF seg [unfolded bs] this] obtain bs1 b' bs2 c where
      r: "b # ds = bs1 @ b' # bs2" "find_bin ?hp (?hp e) (head q) (nextBin (?hp (head q))) = Some (hd b', c)"
      "nextBin (?hp (hd b')) = c" "bin_seg ?hp c bs2 0" "\<forall>x \<in> set (bs1 @ [b']). key (?hp (hd x)) < key (?hp e)"
      "bs2 = [] \<or> \<not> key (?hp (hd (hd bs2))) < key (?hp e)" by blast
    have split: "bs = (bs1 @ [b']) @ bs2" using bs r(1) by simp
    define hp1 where "hp1 = insertBefore ?hp e c"
    define hp2 where "hp2 = hp1(hd b' := (hp1 (hd b'))\<lparr>nextBin := e\<rparr>)"
    have d: "distinct (concat (bs1 @ [b']))" "set (concat (bs1 @ [b'])) \<inter> set (concat bs2) = {}" "b' \<noteq> []"
      using ok split by (auto simp: bins_ok_def)
    have e: "e \<notin> set (concat (bs1 @ [b']))" "e \<notin> set (concat bs2)" using assms(2) split by auto
    have ins: "bins_insert ?k e bs = (bs1 @ [b']) @ bins_insert ?k e bs2"
      unfolding split by (rule bins_insert_skip) (use r(5) in simp)
    obtain c' where c': "bin_seg ?hp (head q) (bs1 @ [b']) c'"
      using seg unfolding split bin_seg_append [of _ _ _ bs2] by blast
    have "bin_seg hp1 (head q) (bs1 @ [b']) c' = bin_seg ?hp (head q) (bs1 @ [b']) c'"
      unfolding hp1_def by (rule insertBefore_fresh [OF e(1)])
    then have "bin_seg hp2 (head q) (bs1 @ [b']) e"
      unfolding hp2_def using c' d(1) by (intro bin_seg_nextBin_upd) simp_all
    moreover have "bin_seg hp1 e (bins_insert ?k e bs2) 0"
      unfolding hp1_def by (rule insertBefore_spec [OF r(4) e(2) assms(3) r(6)])
    moreover have "hd b' \<notin> set (concat (bins_insert ?k e bs2))"
      unfolding set_bins_insert using e(1) d(2) hd_in_set [OF d(3)] by auto
    then have "bin_seg hp2 e (bins_insert ?k e bs2) 0 = bin_seg hp1 e (bins_insert ?k e bs2) 0"
      by (intro bin_seg_cong) (auto simp: hp2_def)
    ultimately have "bin_seg hp2 (head q) (bins_insert ?k e bs) 0" unfolding ins bin_seg_append by blast
    moreover have "same_data ?hp hp2"
      using insertBefore_data [of ?hp e c] by (simp add: hp2_def hp1_def [symmetric] same_data_def)
    moreover have "queue_insert q e = Some (q\<lparr>events := hp2\<rparr>)"
      using False r(2) by (simp add: queue_insert_def hp2_def hp1_def Let_def)
    ultimately show ?thesis using lift by (simp add: rep_def)
  qed
qed

lemma find_item_spec:
  assumes "item_seg hp x (x # xs) 0" and "e \<in> set xs"
  shows "\<exists>ys y zs. x # xs = ys @ y # e # zs \<and> find_item hp e x (nextInBin (hp x)) = Some (Inr y)"
  using assms
proof (induction xs arbitrary: x)
  case (Cons z zs)
  have z: "nextInBin (hp x) = z" "z \<noteq> 0" "item_seg hp z (z # zs) 0" using Cons.prems(1) by auto
  show ?case
  proof (cases "e = z")
    case True
    then have "find_item hp e x (nextInBin (hp x)) = Some (Inr x)" using z(1) by (simp add: find_item.simps)
    then show ?thesis using True by (intro exI [of _ "[]"]) simp
  next
    case False
    then obtain ys y ws where r: "z # zs = ys @ y # e # ws" "find_item hp e z (nextInBin (hp z)) = Some (Inr y)"
      using Cons.IH [OF z(3)] Cons.prems(2) by auto
    have "find_item hp e x (nextInBin (hp x)) = Some (Inr y)"
      using False z r(2) by (subst find_item.simps) simp
    then show ?thesis using r(1) by (intro exI [of _ "x # ys"]) simp
  qed
qed simp

lemma bin_seg_nonempty: "bin_seg hp p bs r \<Longrightarrow> \<forall>b \<in> set bs. b \<noteq> []"
  by (induction bs arbitrary: p) auto

lemma removeItem_spec:
  assumes "bin_seg hp p (b # bs) 0" and "e \<in> set b" and "distinct (concat (b # bs))"
  shows "\<exists>hp' t. removeItem hp e p = Some (Inr (hp', t)) \<and> bin_seg hp' t (bins_remove e (b # bs)) 0
    \<and> same_data hp hp' \<and> (\<forall>x. x \<notin> set b \<longrightarrow> hp' x = hp x)"
proof -
  have b: "b \<noteq> []" "item_seg hp p b 0" "bin_seg hp (nextBin (hp p)) bs 0" "p = hd b"
    using assms(1) item_seg_hd [of hp p b 0] by auto
  have rest: "bins_remove e bs = bs"
    using bins_remove_notin [of e bs] bin_seg_nonempty [OF b(3)] assms(2,3) by auto
  obtain x xs where bx: "b = x # xs" using b(1) by (cases b) auto
  show ?thesis
  proof (cases "e = x")
    case True
    show ?thesis
    proof (cases xs)
      case Nil
      then have "removeItem hp e p = Some (Inr (hp, nextBin (hp p)))" using b bx True by (simp add: removeItem_def)
      then show ?thesis using Nil True bx b(3) rest by (simp add: bins_remove_Cons same_data_def)
    next
      case (Cons y ys)
      define hp' where "hp' = hp(y := (hp y)\<lparr>nextBin := nextBin (hp p)\<rparr>)"
      have y: "nextInBin (hp x) = y" "y \<noteq> 0" "item_seg hp y (y # ys) 0" using b(2) bx Cons by auto
      have "removeItem hp e p = Some (Inr (hp', y))" using b(4) bx True y by (simp add: removeItem_def hp'_def)
      moreover have "item_seg hp' y (y # ys) 0 = item_seg hp y (y # ys) 0" by (rule item_seg_cong) (simp add: hp'_def)
      moreover have "y \<notin> set (concat bs)" using assms(3) bx Cons by auto
      then have "bin_seg hp' (nextBin (hp p)) bs 0 = bin_seg hp (nextBin (hp p)) bs 0"
        by (intro bin_seg_cong) (auto simp: hp'_def)
      moreover have "same_data hp hp'" "\<forall>z. z \<notin> set b \<longrightarrow> hp' z = hp z" using bx Cons by (simp_all add: hp'_def same_data_def)
      moreover have "bins_remove e (b # bs) = (y # ys) # bs" using True bx Cons rest by (simp add: bins_remove_Cons)
      moreover have "nextBin (hp' y) = nextBin (hp p)" by (simp add: hp'_def)
      ultimately show ?thesis using y(3) b(3) by auto
    qed
  next
    case False
    then obtain ys y zs where r: "x # xs = ys @ y # e # zs" "find_item hp e x (nextInBin (hp x)) = Some (Inr y)"
      using find_item_spec [of hp x xs e] assms(2) b(2,4) bx by auto
    define hp' where "hp' = hp(y := (hp y)\<lparr>nextInBin := nextInBin (hp e)\<rparr>)"
    have "distinct b" using assms(3) by simp
    then have d: "distinct (ys @ y # e # zs)" unfolding bx r(1) .
    have rm: "remove1 e b = ys @ y # zs" using d bx r(1) by (simp add: remove1_append)
    obtain m where m: "item_seg hp p ys m" "m = y" "y \<noteq> 0" "item_seg hp (nextInBin (hp e)) zs 0"
      using b(2) unfolding bx r(1) item_seg_append by auto
    have "item_seg hp' p ys y = item_seg hp p ys y" "item_seg hp' q zs 0 = item_seg hp q zs 0" for q
      using d by (auto intro!: item_seg_cong simp: hp'_def)
    then have i: "item_seg hp' p (remove1 e b) 0" using m unfolding rm item_seg_append by (auto simp: hp'_def)
    have "y \<notin> set (concat bs)" using assms(3) bx r(1) by auto
    then have "bin_seg hp' q bs 0 = bin_seg hp q bs 0" for q by (intro bin_seg_cong) (auto simp: hp'_def)
    moreover have "nextBin (hp' p) = nextBin (hp p)" by (simp add: hp'_def)
    moreover have "removeItem hp e p = Some (Inr (hp', p))" using False b(4) bx r(2) by (simp add: removeItem_def hp'_def)
    moreover have "same_data hp hp'" "\<forall>z. z \<notin> set b \<longrightarrow> hp' z = hp z" using bx r(1) by (simp_all add: hp'_def same_data_def)
    moreover have "bins_remove e (b # bs) = remove1 e b # bs" using rm rest by (simp add: bins_remove_Cons)
    ultimately show ?thesis using i b(3) rm by simp
  qed
qed

lemma bins_ok_split:
  assumes "bins_ok k (bs1 @ bs2)" and "e \<in> set (concat (bs1 @ bs2))" and "\<forall>x \<in> set bs1. k (hd x) < k e"
  shows "e \<in> set (concat bs2)"
proof (rule ccontr)
  assume "e \<notin> set (concat bs2)"
  then obtain b where b: "b \<in> set bs1" "e \<in> set b" using assms(2) by auto
  then have "k e = k (hd b)" using assms(1) by (intro same_keyD) (auto simp: bins_ok_def)
  then show False using assms(3) b(1) by (metis less_irrefl)
qed

lemma bins_ok_first:
  assumes "bins_ok k (b # bs)" and "e \<in> set (concat (b # bs))" and "\<not> k (hd b) < k e"
  shows "e \<in> set b \<and> k e = k (hd b)"
proof -
  obtain c where c: "c \<in> set (b # bs)" "e \<in> set c" using assms(2) by auto
  then have k: "k e = k (hd c)" using assms(1) by (intro same_keyD) (auto simp: bins_ok_def)
  have "\<forall>d \<in> set bs. k (hd b) < k (hd d)" using assms(1) by (simp add: bins_ok_Cons)
  then have "c = b" using c(1) k assms(3) by auto
  then show ?thesis using c(2) k by simp
qed

lemma queue_remove_spec:
  assumes "rep (events q) (head q) bs" and "e \<in> set (concat bs)"
  shows "\<exists>q'. queue_remove q e = Some (Inr q') \<and> rep (events q') (head q') (bins_remove e bs)
    \<and> same_data (events q) (events q') \<and> curTick q' = curTick q \<and> freed q' = freed q"
proof -
  let ?hp = "events q" and ?k = "\<lambda>x. key (events q x)"
  have seg: "bin_seg ?hp (head q) bs 0" and ok: "bins_ok ?k bs" using assms(1) by (simp_all add: rep_def)
  obtain b ds where bs: "bs = b # ds" using assms(2) by (cases bs) auto
  have h: "head q = hd b" "head q \<noteq> 0" using seg bs item_seg_hd [of ?hp "head q" b 0] by auto
  have lift: "bins_ok (\<lambda>x. key (hp x)) (bins_remove e bs)" if "same_data ?hp hp" for hp
    using bins_remove_ok [OF ok] same_data_key [OF that] by simp
  show ?thesis
  proof (cases "ev_eq (?hp (head q)) (?hp e)")
    case True
    then have "e \<in> set b" using bins_ok_first [of ?k b ds e] ok assms(2) bs h(1) by (simp add: key_order)
    moreover have "distinct (concat (b # ds))" using ok bs by (simp add: bins_ok_def)
    ultimately obtain hp' t where r: "removeItem ?hp e (head q) = Some (Inr (hp', t))" "bin_seg hp' t (bins_remove e bs) 0"
      "same_data ?hp hp'"
      using removeItem_spec [of ?hp "head q" b ds e] seg bs by auto
    have "queue_remove q e = Some (Inr (q\<lparr>events := hp', head := t\<rparr>))"
      using True h(2) r(1) by (simp add: queue_remove_def)
    then show ?thesis using r lift by (simp add: rep_def)
  next
    case False
    have lt: "?k (hd b) < ?k e"
      using bins_ok_first [of ?k b ds e] ok assms(2) bs h(1) False by (auto simp: key_order)
    from find_bin_spec [OF seg [unfolded bs] lt] obtain bs1 b' bs2 c where
      r: "b # ds = bs1 @ b' # bs2" "find_bin ?hp (?hp e) (head q) (nextBin (?hp (head q))) = Some (hd b', c)"
      "nextBin (?hp (hd b')) = c" "bin_seg ?hp c bs2 0" "\<forall>x \<in> set (bs1 @ [b']). key (?hp (hd x)) < key (?hp e)"
      "bs2 = [] \<or> \<not> key (?hp (hd (hd bs2))) < key (?hp e)" by blast
    have split: "bs = (bs1 @ [b']) @ bs2" using bs r(1) by simp
    have in2: "e \<in> set (concat bs2)" using bins_ok_split [of ?k "bs1 @ [b']" bs2 e] ok assms(2) r(5) split by simp
    then obtain b2 ds2 where bs2: "bs2 = b2 # ds2" by (cases bs2) auto
    have ok2: "bins_ok ?k (b2 # ds2)" using ok unfolding split bs2 by (auto simp: bins_ok_def sorted_wrt_append)
    have e2: "e \<in> set b2" "?k e = ?k (hd b2)"
      using bins_ok_first [OF ok2] in2 r(6) bs2 by auto
    have c: "c = hd b2" "c \<noteq> 0" using r(4) bs2 item_seg_hd [of ?hp c b2 0] by auto
    obtain hp' t where m: "removeItem ?hp e c = Some (Inr (hp', t))" "bin_seg hp' t (bins_remove e bs2) 0"
      "same_data ?hp hp'" "\<forall>x. x \<notin> set b2 \<longrightarrow> hp' x = ?hp x"
      using removeItem_spec [of ?hp c b2 ds2 e] r(4) bs2 e2(1) ok2 by (auto simp: bins_ok_def)
    define hp2 where "hp2 = hp'(hd b' := (hp' (hd b'))\<lparr>nextBin := t\<rparr>)"
    have d: "distinct (concat (bs1 @ [b']))" "set (concat (bs1 @ [b'])) \<inter> set (concat bs2) = {}" "b' \<noteq> []" "distinct (concat bs2)"
      using ok split by (auto simp: bins_ok_def)
    have out: "\<forall>x \<in> set (concat (bs1 @ [b'])). hp' x = ?hp x" using m(4) d(2) bs2 by auto
    obtain c' where c': "bin_seg ?hp (head q) (bs1 @ [b']) c'"
      using seg unfolding split bin_seg_append [of _ _ _ bs2] by blast
    have "bin_seg hp' (head q) (bs1 @ [b']) c' = bin_seg ?hp (head q) (bs1 @ [b']) c'"
      by (rule bin_seg_cong) (use out in simp)
    then have "bin_seg hp2 (head q) (bs1 @ [b']) t"
      unfolding hp2_def using c' d(1) by (intro bin_seg_nextBin_upd) simp_all
    moreover have "hd b' \<notin> set (concat (bins_remove e bs2))"
      unfolding set_bins_remove [OF d(4)] using d(2) hd_in_set [OF d(3)] by auto
    then have "bin_seg hp2 t (bins_remove e bs2) 0 = bin_seg hp' t (bins_remove e bs2) 0"
      by (intro bin_seg_cong) (auto simp: hp2_def)
    moreover have "bins_remove e bs = (bs1 @ [b']) @ bins_remove e bs2"
    proof -
      have "e \<notin> set (concat (bs1 @ [b']))" using in2 d(2) by auto
      then have "bins_remove e (bs1 @ [b']) = bs1 @ [b']"
        by (rule bins_remove_notin) (use bin_seg_nonempty [OF c'] in simp)
      then show ?thesis unfolding split bins_remove_append [of e "bs1 @ [b']"] by simp
    qed
    ultimately have "bin_seg hp2 (head q) (bins_remove e bs) 0" using m(2) by (simp only: bin_seg_append) blast
    moreover have "same_data ?hp hp2" using m(3) by (simp add: hp2_def same_data_def)
    moreover have "queue_remove q e = Some (Inr (q\<lparr>events := hp2\<rparr>))"
      using False h(2) r(2) c e2(2) m(1) by (simp add: queue_remove_def hp2_def key_order)
    ultimately show ?thesis using lift by (simp add: rep_def)
  qed
qed

end
