(* ===== verification/Event_Schedule.thy ===== *)
theory Event_Schedule
  imports Event_Queue
begin

text \<open>
  The invariant of the event queue, and its operations seen by the simulated objects: a queue is a
  map from events to the times they are scheduled at. Scheduling, descheduling and rescheduling
  update that map, and the service loop takes the earliest event out of it.
\<close>

unbundle bit_operations_syntax

section \<open>The invariant of a queue and its operations\<close>

lemma bins_ok_cong:
  assumes "\<forall>x \<in> set (concat bs). k' x = k x" and "bins_ok k bs"
  shows "bins_ok k' bs"
  using assms
proof (induction bs)
  case (Cons b bs)
  have b: "b \<noteq> []" "same_key k b" "\<forall>c \<in> set bs. k (hd b) < k (hd c)" "bins_ok k bs" using Cons.prems(2) by (simp_all add: bins_ok_Cons)
  have ne: "\<forall>c \<in> set bs. c \<noteq> []" using b(4) by (simp add: bins_ok_def)
  have eq: "k' (hd c) = k (hd c)" if c: "c \<in> set (b # bs)" for c
  proof -
    have "hd c \<in> set c" using c ne b(1) by (intro hd_in_set) auto
    then have "hd c \<in> set (concat (b # bs))" using c by auto
    then show ?thesis using Cons.prems(1) by blast
  qed
  have "same_key k' b" unfolding same_key_def
  proof
    fix x assume x: "x \<in> set b"
    then have "k' x = k x" using Cons.prems(1) by simp
    then show "k' x = k' (hd b)" using same_keyD [OF b(2) x] eq [of b] by simp
  qed
  then show ?case using Cons b eq by (simp add: bins_ok_Cons)
qed simp

lemma rep_cong:
  assumes "rep hp p bs"
    and "\<forall>x \<in> set (concat bs). nextInBin (hp' x) = nextInBin (hp x) \<and> nextBin (hp' x) = nextBin (hp x) \<and> key (hp' x) = key (hp x)"
  shows "rep hp' p bs"
proof -
  have "bin_seg hp' p bs 0 = bin_seg hp p bs 0" using assms(2) by (intro bin_seg_cong) simp
  moreover have "bins_ok (\<lambda>x. key (hp' x)) bs"
    using assms by (intro bins_ok_cong [of bs "\<lambda>x. key (hp' x)" "\<lambda>x. key (hp x)"]) (simp_all add: rep_def)
  ultimately show ?thesis using assms(1) by (simp add: rep_def)
qed

text \<open>The times at which events are scheduled: what the rest of the simulator sees of a queue.\<close>

definition time_of :: "EventQueue \<Rightarrow> nat \<Rightarrow> Tick option" where
  "time_of q e = (if e \<noteq> 0 \<and> scheduled (events q e) then Some (e_when (events q e)) else None)"

definition queue_inv :: "EventQueue \<Rightarrow> nat list list \<Rightarrow> bool" where
  "queue_inv q bs \<longleftrightarrow> rep (events q) (head q) bs \<and> 0 \<notin> set (concat bs)
     \<and> (\<forall>e \<in> set (concat bs). curTick q \<le> e_when (events q e))
     \<and> (\<forall>e. e \<noteq> 0 \<longrightarrow> (scheduled (events q e) \<longleftrightarrow> e \<in> set (concat bs)))"

text \<open>The invariant while an operation works on the event \<open>e\<close>, whose flags may be out of date.\<close>

definition queue_inv_but :: "nat \<Rightarrow> EventQueue \<Rightarrow> nat list list \<Rightarrow> bool" where
  "queue_inv_but e q bs \<longleftrightarrow> rep (events q) (head q) bs \<and> 0 \<notin> set (concat bs)
     \<and> (\<forall>x \<in> set (concat bs). curTick q \<le> e_when (events q x))
     \<and> (\<forall>x. x \<noteq> 0 \<and> x \<noteq> e \<longrightarrow> (scheduled (events q x) \<longleftrightarrow> x \<in> set (concat bs)))"

lemma queue_inv_weaken: "queue_inv q bs \<Longrightarrow> queue_inv_but e q bs"
  by (simp add: queue_inv_def queue_inv_but_def)

definition qinv :: "EventQueue \<Rightarrow> bool" where
  "qinv q \<longleftrightarrow> (\<exists>bs. queue_inv q bs)"

definition live :: "EventQueue \<Rightarrow> nat \<Rightarrow> bool" where
  "live q e \<longleftrightarrow> e \<noteq> 0 \<and> initialized (events q e)"

lemma flag_simps [simp]:
  "scheduled (set_flag 2 e)" "\<not> scheduled (clear_flag 2 e)" "scheduled (clear_flag 1 e) = scheduled e"
  "initialized (set_flag 2 e) = initialized e" "initialized (clear_flag 2 e) = initialized e"
  "initialized (clear_flag 1 e) = initialized e" "squashed (clear_flag 2 e) = squashed e"
  "\<not> squashed (clear_flag 1 e)" "isExitEvent (clear_flag 2 e) = isExitEvent e" "isExitEvent (clear_flag 1 e) = isExitEvent e"
  by (simp_all add: scheduled_def set_flag_def clear_flag_def isSet_set isSet_clear initialized_def squashed_def isExitEvent_def
      flags_clear_def flags_set_def bit.conj_disj_distrib2 and.assoc) (simp_all add: isSet_def flags_clear_def and.assoc)

lemma flag_links [simp]:
  "nextBin (set_flag f e) = nextBin e" "nextInBin (set_flag f e) = nextInBin e" "e_when (set_flag f e) = e_when e"
  "key (set_flag f e) = key e" "nextBin (clear_flag f e) = nextBin e" "nextInBin (clear_flag f e) = nextInBin e"
  "e_when (clear_flag f e) = e_when e" "key (clear_flag f e) = key e"
  by (simp_all add: set_flag_def clear_flag_def key_def)

lemma link_flags [simp]:
  "scheduled (e\<lparr>nextBin := n\<rparr>) = scheduled e" "squashed (e\<lparr>nextBin := n\<rparr>) = squashed e"
  "isExitEvent (e\<lparr>nextBin := n\<rparr>) = isExitEvent e" "initialized (e\<lparr>nextBin := n\<rparr>) = initialized e"
  by (simp_all add: scheduled_def squashed_def isExitEvent_def initialized_def)

lemma setWhen_simps [simp]:
  "nextBin (setWhen w e) = nextBin e" "nextInBin (setWhen w e) = nextInBin e" "e_when (setWhen w e) = w"
  "e_flags (setWhen w e) = e_flags e" "initialized (setWhen w e) = initialized e" "scheduled (setWhen w e) = scheduled e"
  by (simp_all add: setWhen_def initialized_def scheduled_def)

lemma upd_event_simps [simp]:
  "events (upd_event e f q) = (events q)(e := f (events q e))" "head (upd_event e f q) = head q"
  "curTick (upd_event e f q) = curTick q" "freed (upd_event e f q) = freed q"
  by (simp_all add: upd_event_def)

lemma same_data_sel:
  assumes "same_data hp hp'"
  shows "scheduled (hp' e) = scheduled (hp e)" "initialized (hp' e) = initialized (hp e)" "e_when (hp' e) = e_when (hp e)"
    "squashed (hp' e) = squashed (hp e)" "isExitEvent (hp' e) = isExitEvent (hp e)"
  using assms by (simp_all add: same_data_def scheduled_def initialized_def squashed_def isExitEvent_def)

text \<open>Inserting an event that is in no bin at time \<open>w\<close>, and marking it as scheduled.\<close>

lemma insert_scheduled:
  assumes "queue_inv_but e q bs" and "e \<notin> set (concat bs)" and "e \<noteq> 0" and "curTick q \<le> w"
    and f: "\<And>x. scheduled (f x)" "\<And>x. initialized (f x) = initialized x" "\<And>x. key (f x) = key x"
      "\<And>x. nextBin (f x) = nextBin x" "\<And>x. nextInBin (f x) = nextInBin x"
  shows "\<exists>q' bs'. queue_insert (upd_event e (setWhen w) q) e = Some q' \<and> queue_inv (upd_event e f q') bs'
    \<and> time_of (upd_event e f q') = (time_of q)(e \<mapsto> w) \<and> curTick q' = curTick q \<and> live (upd_event e f q') = live q"
proof -
  let ?q = "upd_event e (setWhen w) q"
  have q: "rep (events q) (head q) bs" "0 \<notin> set (concat bs)" "\<forall>x \<in> set (concat bs). curTick q \<le> e_when (events q x)"
    "\<forall>x. x \<noteq> 0 \<and> x \<noteq> e \<longrightarrow> (scheduled (events q x) \<longleftrightarrow> x \<in> set (concat bs))" using assms(1) by (simp_all add: queue_inv_but_def)
  have "rep (events ?q) (head q) bs" by (rule rep_cong [OF q(1)]) (use assms(2) in auto)
  then have r: "rep (events ?q) (head ?q) bs" by (simp only: upd_event_simps)
  obtain q' where q': "queue_insert ?q e = Some q'"
    "rep (events q') (head q') (bins_insert (\<lambda>x. key (events ?q x)) e bs)"
    "same_data (events ?q) (events q')" "curTick q' = curTick q"
    using queue_insert_spec [OF r assms(2,3)] by auto
  define bs' where "bs' = bins_insert (\<lambda>x. key (events ?q x)) e bs"
  have s: "set (concat bs') = insert e (set (concat bs))" unfolding bs'_def by (rule set_bins_insert)
  have d: "scheduled (events q' x) = scheduled (events ?q x)" "initialized (events q' x) = initialized (events ?q x)"
    "e_when (events q' x) = e_when (events ?q x)" for x
    using same_data_sel [OF q'(3)] by auto
  have fw: "e_when (f x) = e_when x" for x using f(3) [of x] by (simp add: key_def)
  have "rep (events (upd_event e f q')) (head (upd_event e f q')) bs'"
    using rep_cong [OF q'(2), of "events (upd_event e f q')"] f(3-5) by (simp add: bs'_def)
  moreover have "\<forall>x \<in> set (concat bs'). curTick q \<le> e_when (events (upd_event e f q') x)"
    using s q(3) assms(4) by (auto simp: fw d)
  moreover have "\<forall>x. x \<noteq> 0 \<longrightarrow> (scheduled (events (upd_event e f q') x) \<longleftrightarrow> x \<in> set (concat bs'))"
    using s q(4) f(1) by (auto simp: d)
  moreover have "0 \<notin> set (concat bs')" unfolding s using q(2) assms(3) by blast
  ultimately have "queue_inv (upd_event e f q') bs'" unfolding queue_inv_def upd_event_simps(3) q'(4) by blast
  moreover have "time_of (upd_event e f q') = (time_of q)(e \<mapsto> w)"
    using f(1) assms(3) by (auto simp: time_of_def fun_eq_iff fw d)
  moreover have "live (upd_event e f q') = live q" by (auto simp: live_def fun_eq_iff f(2) d)
  ultimately show ?thesis using q'(1,4) by blast
qed

lemma schedule_spec:
  assumes "qinv q" and "live q e"
  shows "if time_of q e = None \<and> curTick q \<le> w
    then \<exists>q'. schedule q e w = Some (Inr q') \<and> qinv q' \<and> time_of q' = (time_of q)(e \<mapsto> w) \<and> curTick q' = curTick q \<and> live q' = live q
    else schedule q e w = Some (Inl AssertFail)"
proof (cases "time_of q e = None \<and> curTick q \<le> w")
  case True
  obtain bs where bs: "queue_inv q bs" using assms(1) by (auto simp: qinv_def)
  have e: "e \<noteq> 0" "initialized (events q e)" "\<not> scheduled (events q e)" using assms(2) True by (auto simp: live_def time_of_def)
  then have "e \<notin> set (concat bs)" using bs by (auto simp: queue_inv_def)
  then obtain q' bs' where "queue_insert (upd_event e (setWhen w) q) e = Some q'" "queue_inv (upd_event e (set_flag 2) q') bs'"
    "time_of (upd_event e (set_flag 2) q') = (time_of q)(e \<mapsto> w)" "curTick q' = curTick q" "live (upd_event e (set_flag 2) q') = live q"
    using insert_scheduled [OF queue_inv_weaken [OF bs] _ e(1), of w "set_flag 2"] True by auto
  then show ?thesis using True e by (auto simp: schedule_def qinv_def)
next
  case False
  then show ?thesis using assms(2) by (auto simp: schedule_def live_def time_of_def)
qed

text \<open>Taking a scheduled event out of the bins, and marking it as not scheduled.\<close>

lemma remove_scheduled:
  assumes "queue_inv q bs" and "e \<in> set (concat bs)"
    and f: "\<And>x. \<not> scheduled (f x)" "\<And>x. initialized (f x) = initialized x" "\<And>x. key (f x) = key x"
      "\<And>x. nextBin (f x) = nextBin x" "\<And>x. nextInBin (f x) = nextInBin x"
  shows "\<exists>q'. queue_remove q e = Some (Inr q') \<and> queue_inv_but e q' (bins_remove e bs) \<and> queue_inv (upd_event e f q') (bins_remove e bs)
    \<and> time_of (upd_event e f q') = (time_of q)(e := None) \<and> curTick q' = curTick q \<and> live (upd_event e f q') = live q
    \<and> live q' = live q \<and> (\<forall>x. x \<noteq> e \<longrightarrow> time_of q' x = time_of q x)"
proof -
  have q: "rep (events q) (head q) bs" "0 \<notin> set (concat bs)" "\<forall>x \<in> set (concat bs). curTick q \<le> e_when (events q x)"
    "\<forall>x. x \<noteq> 0 \<longrightarrow> (scheduled (events q x) \<longleftrightarrow> x \<in> set (concat bs))" using assms(1) by (simp_all add: queue_inv_def)
  obtain q' where q': "queue_remove q e = Some (Inr q')" "rep (events q') (head q') (bins_remove e bs)"
    "same_data (events q) (events q')" "curTick q' = curTick q" "freed q' = freed q"
    using queue_remove_spec [OF q(1) assms(2)] by auto
  have dist: "distinct (concat bs)" using q(1) by (simp add: rep_def bins_ok_def)
  have s: "set (concat (bins_remove e bs)) = set (concat bs) - {e}" by (rule set_bins_remove [OF dist])
  have d: "scheduled (events q' x) = scheduled (events q x)" "initialized (events q' x) = initialized (events q x)"
    "e_when (events q' x) = e_when (events q x)" for x
    using same_data_sel [OF q'(3)] by auto
  have fw: "e_when (f x) = e_when x" for x using f(3) [of x] by (simp add: key_def)
  have "rep (events (upd_event e f q')) (head (upd_event e f q')) (bins_remove e bs)"
    using rep_cong [OF q'(2), of "events (upd_event e f q')"] f(3-5) by simp
  moreover have "\<forall>x \<in> set (concat (bins_remove e bs)). curTick q \<le> e_when (events (upd_event e f q') x)"
    unfolding s using q(3) by (auto simp: fw d)
  moreover have "\<forall>x. x \<noteq> 0 \<longrightarrow> (scheduled (events (upd_event e f q') x) \<longleftrightarrow> x \<in> set (concat (bins_remove e bs)))"
    unfolding s using q(4) f(1) by (auto simp: d)
  moreover have "0 \<notin> set (concat (bins_remove e bs))" unfolding s using q(2) by blast
  ultimately have "queue_inv (upd_event e f q') (bins_remove e bs)"
    unfolding queue_inv_def upd_event_simps(3) q'(4) by blast
  moreover have "time_of (upd_event e f q') = (time_of q)(e := None)"
    using f(1) by (auto simp: time_of_def fun_eq_iff fw d)
  moreover have "live (upd_event e f q') = live q" by (auto simp: live_def fun_eq_iff f(2) d)
  moreover have "\<forall>x \<in> set (concat (bins_remove e bs)). curTick q' \<le> e_when (events q' x)"
    "\<forall>x. x \<noteq> 0 \<and> x \<noteq> e \<longrightarrow> (scheduled (events q' x) \<longleftrightarrow> x \<in> set (concat (bins_remove e bs)))"
    unfolding s using q(3,4) q'(4) by (auto simp: d)
  then have "queue_inv_but e q' (bins_remove e bs)"
    using q'(2) \<open>0 \<notin> set (concat (bins_remove e bs))\<close> unfolding queue_inv_but_def by blast
  moreover have "live q' = live q" "\<forall>x. x \<noteq> e \<longrightarrow> time_of q' x = time_of q x" by (auto simp: live_def time_of_def fun_eq_iff d)
  ultimately show ?thesis using q'(1,4) by blast
qed

lemma release_simps [simp]:
  "events (release e q) = events q" "head (release e q) = head q" "curTick (release e q) = curTick q"
  "queue_inv (release e q) bs = queue_inv q bs" "time_of (release e q) = time_of q" "live (release e q) = live q"
  by (auto simp: release_def queue_inv_def time_of_def live_def fun_eq_iff)

lemma time_of_in_bins: "queue_inv q bs \<Longrightarrow> time_of q e = Some w \<longleftrightarrow> e \<in> set (concat bs) \<and> w = e_when (events q e)"
  unfolding queue_inv_def time_of_def by (cases "e = 0") auto

lemma deschedule_spec:
  assumes "qinv q" and "live q e"
  shows "if time_of q e \<noteq> None
    then \<exists>q'. deschedule q e = Some (Inr q') \<and> qinv q' \<and> time_of q' = (time_of q)(e := None) \<and> curTick q' = curTick q \<and> live q' = live q
    else deschedule q e = Some (Inl AssertFail)"
proof (cases "time_of q e = None")
  case False
  obtain bs where bs: "queue_inv q bs" using assms(1) by (auto simp: qinv_def)
  have e: "e \<in> set (concat bs)" "scheduled (events q e)" "initialized (events q e)"
    using False bs assms(2) by (auto simp: time_of_def live_def queue_inv_def split: if_splits)
  let ?f = "\<lambda>x. clear_flag 2 (clear_flag 1 x)"
  obtain q' where "queue_remove q e = Some (Inr q')" "queue_inv (upd_event e ?f q') (bins_remove e bs)"
    "time_of (upd_event e ?f q') = (time_of q)(e := None)" "curTick q' = curTick q" "live (upd_event e ?f q') = live q"
    using remove_scheduled [OF bs e(1), of ?f] by auto
  then show ?thesis using False e(2,3) by (auto simp: deschedule_def qinv_def)
next
  case True
  then show ?thesis using assms(2) by (simp add: deschedule_def live_def time_of_def split: if_splits)
qed

lemma reschedule_spec:
  assumes "qinv q" and "live q e"
  shows "if curTick q \<le> w \<and> (always \<or> time_of q e \<noteq> None)
    then \<exists>q'. reschedule q e w always = Some (Inr q') \<and> qinv q' \<and> time_of q' = (time_of q)(e \<mapsto> w) \<and> curTick q' = curTick q \<and> live q' = live q
    else reschedule q e w always = Some (Inl AssertFail)"
proof (cases "curTick q \<le> w \<and> (always \<or> time_of q e \<noteq> None)")
  case True
  obtain bs where bs: "queue_inv q bs" using assms(1) by (auto simp: qinv_def)
  let ?f = "\<lambda>x. set_flag 2 (clear_flag 1 x)"
  have e: "e \<noteq> 0" "initialized (events q e)" using assms(2) by (auto simp: live_def)
  show ?thesis
  proof (cases "scheduled (events q e)")
    case False
    then have "e \<notin> set (concat bs)" using bs e(1) by (auto simp: queue_inv_def)
    then obtain q' bs' where "queue_insert (upd_event e (setWhen w) q) e = Some q'" "queue_inv (upd_event e ?f q') bs'"
      "time_of (upd_event e ?f q') = (time_of q)(e \<mapsto> w)" "curTick q' = curTick q" "live (upd_event e ?f q') = live q"
      using insert_scheduled [OF queue_inv_weaken [OF bs] _ e(1), of w ?f] True by auto
    then show ?thesis using True False e by (auto simp: reschedule_def qinv_def time_of_def)
  next
    case sch: True
    then have "e \<in> set (concat bs)" using bs e(1) by (auto simp: queue_inv_def)
    then obtain q1 where q1: "queue_remove q e = Some (Inr q1)" "queue_inv_but e q1 (bins_remove e bs)"
      "curTick q1 = curTick q" "live q1 = live q" "\<forall>x. x \<noteq> e \<longrightarrow> time_of q1 x = time_of q x"
      using remove_scheduled [OF bs, of e "clear_flag 2"] by auto
    have "distinct (concat bs)" using bs by (simp add: queue_inv_def rep_def bins_ok_def)
    then have "e \<notin> set (concat (bins_remove e bs))" using set_bins_remove by blast
    then obtain q' bs' where "queue_insert (upd_event e (setWhen w) q1) e = Some q'" "queue_inv (upd_event e ?f q') bs'"
      "time_of (upd_event e ?f q') = (time_of q1)(e \<mapsto> w)" "curTick q' = curTick q1" "live (upd_event e ?f q') = live q1"
      using insert_scheduled [OF q1(2) _ e(1), of w ?f] True q1(3) by auto
    moreover have "(time_of q1)(e \<mapsto> w) = (time_of q)(e \<mapsto> w)" using q1(5) by (auto simp: fun_eq_iff)
    ultimately show ?thesis using True sch e q1 by (auto simp: reschedule_def qinv_def)
  qed
next
  case False
  then show ?thesis using assms(2) by (auto simp: reschedule_def live_def time_of_def)
qed

section \<open>Serving events\<close>

lemma service_pop_remove:
  assumes "head q \<noteq> 0" and "nextInBin (events q (head q)) \<noteq> head q" and "queue_remove q (head q) = Some (Inr q')"
  shows "service_pop q = upd_event (head q) (clear_flag 2) q'"
proof -
  have eq: "ev_eq x x" for x by (simp add: ev_eq_def)
  show ?thesis using assms
    by (auto simp: queue_remove_def removeItem_def eq service_pop_def upd_event_def fun_upd_twist Let_def split: if_splits)
qed

text \<open>The state in which the action of the first event runs.\<close>

definition served :: "EventQueue \<Rightarrow> EventQueue" where
  "served q = (service_pop q)\<lparr>curTick := e_when (events (service_pop q) (head q))\<rparr>"

lemma service_pop_spec:
  assumes "qinv q" and "head q \<noteq> 0"
  shows "time_of q (head q) = Some (curTick (served q))" and "curTick q \<le> curTick (served q)"
    and "\<forall>x t. time_of q x = Some t \<longrightarrow> curTick (served q) \<le> t"
    and "qinv (served q)" and "time_of (served q) = (time_of q)(head q := None)" and "live (served q) = live q"
    and "qinv (service_pop q)" and "time_of (service_pop q) = (time_of q)(head q := None)"
proof -
  obtain bs where inv: "queue_inv q bs" using assms(1) by (auto simp: qinv_def)
  have rep: "bin_seg (events q) (head q) bs 0" and ok: "bins_ok (\<lambda>x. key (events q x)) bs" using inv by (simp_all add: queue_inv_def rep_def)
  obtain b ds where bs: "bs = b # ds" using rep assms(2) by (cases bs) auto
  have b: "head q = hd b" "b \<noteq> []" "item_seg (events q) (head q) b 0" using rep bs item_seg_hd [of "events q" "head q" b 0] by auto
  then have mem: "head q \<in> set (concat bs)" using bs by simp
  have "nextInBin (events q (head q)) \<noteq> head q"
  proof
    assume loop: "nextInBin (events q (head q)) = head q"
    obtain e es where e: "b = e # es" using b(2) by (cases b) auto
    have "item_seg (events q) (head q) es 0" using b(1,3) e loop by simp
    then have "e \<in> set es" using assms(2) b(1) e by (cases es) auto
    then have "\<not> distinct b" using e by simp
    then show False using ok bs by (simp add: bins_ok_Cons)
  qed
  then obtain q' where q': "service_pop q = upd_event (head q) (clear_flag 2) q'"
    and r: "queue_inv (service_pop q) (bins_remove (head q) bs)" "time_of (service_pop q) = (time_of q)(head q := None)"
      "curTick (service_pop q) = curTick q" "live (service_pop q) = live q"
    using remove_scheduled [OF inv mem, of "clear_flag 2"] service_pop_remove [OF assms(2)] by auto
  show "qinv (service_pop q)" "time_of (service_pop q) = (time_of q)(head q := None)" using r by (auto simp: qinv_def)
  have w: "e_when (events (service_pop q) (head q)) = e_when (events q (head q))"
    using assms(2) by (simp add: service_pop_def Let_def)
  have t: "time_of q (head q) = Some (e_when (events q (head q)))" using time_of_in_bins [OF inv] mem by simp
  then show "time_of q (head q) = Some (curTick (served q))" by (simp add: served_def w)
  show le: "curTick q \<le> curTick (served q)" using inv mem by (auto simp: served_def w queue_inv_def)
  have min: "e_when (events q (head q)) \<le> e_when (events q x)" if x: "x \<in> set (concat bs)" for x
  proof -
    obtain c where c: "c \<in> set bs" "x \<in> set c" using x by auto
    have "key (events q x) = key (events q (hd c))"
      by (rule same_keyD [of "\<lambda>x. key (events q x)"]) (use ok c in \<open>auto simp: bins_ok_def\<close>)
    moreover have "key (events q (hd b)) \<le> key (events q (hd c))"
      using ok c(1) bs by (auto simp: bins_ok_Cons intro: less_imp_le)
    ultimately show ?thesis using b(1) by (auto simp: key_def less_eq_prod_simp)
  qed
  then show "\<forall>x t. time_of q x = Some t \<longrightarrow> curTick (served q) \<le> t"
    using time_of_in_bins [OF inv] by (auto simp: served_def w)
  have "distinct (concat bs)" using ok by (simp add: bins_ok_def)
  then have s: "set (concat (bins_remove (head q) bs)) = set (concat bs) - {head q}" by (rule set_bins_remove)
  have ww: "e_when (events (service_pop q) x) = e_when (events q x)" for x
    by (simp add: service_pop_def Let_def)
  have "queue_inv (served q) (bins_remove (head q) bs)"
    using r(1) min ww unfolding queue_inv_def s by (simp add: served_def)
  then show "qinv (served q)" by (auto simp: qinv_def)
  have "time_of (served q) = time_of (service_pop q)" "live (served q) = live (service_pop q)"
    by (simp_all add: served_def time_of_def live_def fun_eq_iff)
  then show "time_of (served q) = (time_of q)(head q := None)" "live (served q) = live q" using r(2,4) by simp_all
qed

section \<open>The interface of the event manager\<close>

text \<open>What simulated objects rely on: an event manager keeps a time for each scheduled event, and the
  three operations of \<^verbatim>\<open>EventManager\<close> either update it or fail an assertion.\<close>

locale event_manager =
  fixes inv :: "'q \<Rightarrow> bool" and ok :: "'q \<Rightarrow> 'e \<Rightarrow> bool" and times :: "'q \<Rightarrow> 'e \<Rightarrow> Tick option" and now :: "'q \<Rightarrow> Tick"
    and sched :: "'q \<Rightarrow> 'e \<Rightarrow> Tick \<Rightarrow> 'q res option" and desched :: "'q \<Rightarrow> 'e \<Rightarrow> 'q res option"
    and resched :: "'q \<Rightarrow> 'e \<Rightarrow> Tick \<Rightarrow> bool \<Rightarrow> 'q res option"
  assumes sched_law: "inv q \<Longrightarrow> ok q e \<Longrightarrow> if times q e = None \<and> now q \<le> w
      then \<exists>q'. sched q e w = Some (Inr q') \<and> inv q' \<and> times q' = (times q)(e \<mapsto> w) \<and> now q' = now q \<and> ok q' = ok q
      else sched q e w = Some (Inl AssertFail)"
    and desched_law: "inv q \<Longrightarrow> ok q e \<Longrightarrow> if times q e \<noteq> None
      then \<exists>q'. desched q e = Some (Inr q') \<and> inv q' \<and> times q' = (times q)(e := None) \<and> now q' = now q \<and> ok q' = ok q
      else desched q e = Some (Inl AssertFail)"
    and resched_law: "inv q \<Longrightarrow> ok q e \<Longrightarrow> if now q \<le> w \<and> (always \<or> times q e \<noteq> None)
      then \<exists>q'. resched q e w always = Some (Inr q') \<and> inv q' \<and> times q' = (times q)(e \<mapsto> w) \<and> now q' = now q \<and> ok q' = ok q
      else resched q e w always = Some (Inl AssertFail)"
begin

lemma sched_twice_fails:
  assumes "inv q" and "ok q e" and "times q e = None" and "now q \<le> w"
  shows "\<exists>q'. sched q e w = Some (Inr q') \<and> sched q' e v = Some (Inl AssertFail)"
proof -
  obtain q' where q': "sched q e w = Some (Inr q')" "inv q'" "times q' = (times q)(e \<mapsto> w)" "ok q' = ok q"
    using sched_law [OF assms(1,2), of w] assms(3,4) by auto
  then show ?thesis using sched_law [of q' e v] assms(2) by simp
qed

lemma resched_desched_sched:
  assumes "inv q" and "ok q e" and "times q e \<noteq> None" and "now q \<le> w"
  shows "\<exists>q1 q2 q3. desched q e = Some (Inr q1) \<and> sched q1 e w = Some (Inr q2) \<and> resched q e w always = Some (Inr q3)
    \<and> times q2 = times q3 \<and> now q2 = now q3 \<and> inv q2 \<and> inv q3"
proof -
  obtain q1 where q1: "desched q e = Some (Inr q1)" "inv q1" "times q1 = (times q)(e := None)" "now q1 = now q" "ok q1 = ok q"
    using desched_law [OF assms(1,2)] assms(3) by auto
  obtain q2 where q2: "sched q1 e w = Some (Inr q2)" "inv q2" "times q2 = (times q1)(e \<mapsto> w)" "now q2 = now q1"
    using sched_law [OF q1(2), of e w] q1 assms(2,4) by auto
  obtain q3 where "resched q e w always = Some (Inr q3)" "inv q3" "times q3 = (times q)(e \<mapsto> w)" "now q3 = now q"
    using resched_law [OF assms(1,2), of w always] assms(3,4) by auto
  then show ?thesis using q1 q2 by auto
qed

lemma sched_independent:
  assumes "inv q" and "ok q d" and "ok q e" and "d \<noteq> e" and "times q d = None" and "times q e = None"
    and "now q \<le> v" and "now q \<le> w"
  shows "\<exists>q1 q2 q3 q4. sched q d v = Some (Inr q1) \<and> sched q1 e w = Some (Inr q2)
    \<and> sched q e w = Some (Inr q3) \<and> sched q3 d v = Some (Inr q4) \<and> times q2 = times q4"
proof -
  obtain q1 where q1: "sched q d v = Some (Inr q1)" "inv q1" "times q1 = (times q)(d \<mapsto> v)" "now q1 = now q" "ok q1 = ok q"
    using sched_law [OF assms(1,2), of v] assms(5,7) by auto
  obtain q3 where q3: "sched q e w = Some (Inr q3)" "inv q3" "times q3 = (times q)(e \<mapsto> w)" "now q3 = now q" "ok q3 = ok q"
    using sched_law [OF assms(1,3), of w] assms(6,8) by auto
  obtain q2 where q2: "sched q1 e w = Some (Inr q2)" "times q2 = (times q1)(e \<mapsto> w)"
    using sched_law [OF q1(2), of e w] q1 assms(3,4,6,8) by auto
  obtain q4 where q4: "sched q3 d v = Some (Inr q4)" "times q4 = (times q3)(d \<mapsto> v)"
    using sched_law [OF q3(2), of d v] q3 assms(2,4,5,7) by auto
  show ?thesis using q1 q2 q3 q4 assms(4) by (auto simp: fun_upd_twist)
qed

end

interpretation eq: event_manager qinv live time_of curTick schedule deschedule reschedule
  by unfold_locales (rule schedule_spec deschedule_spec reschedule_spec; assumption)+

section \<open>Properties\<close>

text \<open>
  C10: the linked bins implement a map from events to times. In a well-formed queue, \<^verbatim>\<open>schedule\<close>,
  \<^verbatim>\<open>deschedule\<close> and \<^verbatim>\<open>reschedule\<close> of an initialised event end, keep the queue well-formed and update
  exactly the time of their event; they fail an assertion exactly when the time lies in the past, or
  the event is already scheduled, or is not scheduled when it has to be.
\<close>

theorem event_queue_refines_times:
  assumes "qinv q" and "live q e"
  shows "(if time_of q e = None \<and> curTick q \<le> w
      then \<exists>q'. schedule q e w = Some (Inr q') \<and> qinv q' \<and> time_of q' = (time_of q)(e \<mapsto> w) \<and> curTick q' = curTick q
      else schedule q e w = Some (Inl AssertFail))
    \<and> (if time_of q e \<noteq> None
      then \<exists>q'. deschedule q e = Some (Inr q') \<and> qinv q' \<and> time_of q' = (time_of q)(e := None) \<and> curTick q' = curTick q
      else deschedule q e = Some (Inl AssertFail))
    \<and> (if curTick q \<le> w \<and> (always \<or> time_of q e \<noteq> None)
      then \<exists>q'. reschedule q e w always = Some (Inr q') \<and> qinv q' \<and> time_of q' = (time_of q)(e \<mapsto> w) \<and> curTick q' = curTick q
      else reschedule q e w always = Some (Inl AssertFail))"
  using schedule_spec [OF assms, of w] deschedule_spec [OF assms] reschedule_spec [OF assms, of w always]
  by (intro conjI) (auto split: if_splits)

definition sample_event :: "nat \<Rightarrow> Tick \<Rightarrow> 16 word \<Rightarrow> Event" where
  "sample_event n w f = \<lparr>nextBin = n, nextInBin = 0, e_when = w, e_priority = 0, e_flags = 0x7a40 OR f\<rparr>"

definition sample_queue :: EventQueue where
  "sample_queue = \<lparr>events = (\<lambda>e. if e = 4 then sample_event 5 5 2 else if e = 5 then sample_event 0 9 2 else sample_event 0 0 0),
     head = 4, curTick = 3, freed = []\<rparr>"

lemma sample_queue_inv: "qinv sample_queue"
proof -
  have k: "key (events sample_queue 4) = (5, 0)" "key (events sample_queue 5) = (9, 0)"
    by (simp_all add: sample_queue_def sample_event_def key_def)
  have "bin_seg (events sample_queue) (head sample_queue) [[4], [5]] 0"
    by (simp add: sample_queue_def sample_event_def)
  moreover have "bins_ok (\<lambda>x. key (events sample_queue x)) [[4], [5]]"
    by (simp add: bins_ok_def k less_prod_simp)
  ultimately have "queue_inv sample_queue [[4], [5]]"
    by (simp add: queue_inv_def rep_def) (simp add: sample_queue_def sample_event_def scheduled_def isSet_def)
  then show ?thesis by (auto simp: qinv_def)
qed

lemma sample_queue_sel: "time_of sample_queue 4 = Some 5" "time_of sample_queue 5 = Some 9" "time_of sample_queue 6 = None"
  "live sample_queue 4" "live sample_queue 6" "curTick sample_queue = 3"
  by (simp_all add: time_of_def live_def sample_queue_def sample_event_def scheduled_def initialized_def isSet_def)

theorem event_queue_refines_times_witness:
  "(\<exists>q'. schedule sample_queue 6 7 = Some (Inr q') \<and> qinv q' \<and> time_of q' = (time_of sample_queue)(6 \<mapsto> 7))
    \<and> schedule sample_queue 6 2 = Some (Inl AssertFail) \<and> schedule sample_queue 4 7 = Some (Inl AssertFail)
    \<and> deschedule sample_queue 6 = Some (Inl AssertFail)"
  using event_queue_refines_times [OF sample_queue_inv sample_queue_sel(5), of 7 False]
    event_queue_refines_times [OF sample_queue_inv sample_queue_sel(5), of 2 False]
    event_queue_refines_times [OF sample_queue_inv sample_queue_sel(4), of 7 False]
  by (simp add: sample_queue_sel) blast



text \<open>
  C31: \<^verbatim>\<open>serviceOne\<close> serves an event with the earliest time and time never goes backwards: the action runs
  in a well-formed queue from which exactly that event was taken, with the current tick moved forward
  to the time of the event, and no scheduled event is left behind in the past.
\<close>

theorem serviceOne_earliest:
  assumes "qinv q" and "head q \<noteq> 0" and "\<not> squashed (events q (head q))"
  shows "\<exists>e q1. time_of q e = Some (curTick q1) \<and> curTick q \<le> curTick q1 \<and> qinv q1
    \<and> (\<forall>x t. time_of q x = Some t \<longrightarrow> curTick q1 \<le> t) \<and> time_of q1 = (time_of q)(e := None)
    \<and> serviceOne process q =
      (if isExitEvent (events (process e q1) e)
       then ensure (\<not> isSet (e_flags (events (process e q1) e)) Managed \<or> \<not> isSet (e_flags (events (process e q1) e)) IsMainQueue)
         AssertFail (Inr (process e q1, e))
       else Inr (release e (process e q1), 0))"
proof -
  note s = service_pop_spec [OF assms(1,2)]
  have "squashed (events (service_pop q) (head q)) = squashed (events q (head q))"
    using assms(2) by (auto simp: service_pop_def Let_def)
  then have "serviceOne process q = (let e = head q; q' = process e (served q) in
      if isExitEvent (events q' e)
      then ensure (\<not> isSet (e_flags (events q' e)) Managed \<or> \<not> isSet (e_flags (events q' e)) IsMainQueue) AssertFail (Inr (q', e))
      else Inr (release e q', 0))"
    using assms(3) by (simp add: serviceOne_def served_def Let_def)
  then show ?thesis using s by (intro exI [of _ "head q"] exI [of _ "served q"]) (simp add: Let_def)
qed

theorem serviceOne_earliest_witness:
  "\<exists>e q1. time_of sample_queue e = Some (curTick q1) \<and> 3 \<le> curTick q1 \<and> curTick q1 \<le> 5 \<and> qinv q1
    \<and> time_of q1 = (time_of sample_queue)(e := None)"
proof -
  have "head sample_queue \<noteq> 0" "\<not> squashed (events sample_queue (head sample_queue))"
    by (simp_all add: sample_queue_def sample_event_def squashed_def isSet_def)
  from serviceOne_earliest [OF sample_queue_inv this, of "\<lambda>_ q. q"] show ?thesis
    using sample_queue_sel(1,6) by auto
qed

lemma times_finite: "qinv q \<Longrightarrow> finite {x. time_of q x \<noteq> None}"
proof -
  assume "qinv q"
  then obtain bs where bs: "queue_inv q bs" by (auto simp: qinv_def)
  have "{x. time_of q x \<noteq> None} \<subseteq> set (concat bs)" using time_of_in_bins [OF bs] by auto
  then show ?thesis by (rule finite_subset) simp
qed

lemma head_time:
  assumes "qinv q"
  shows "head q = 0 \<Longrightarrow> time_of q x = None" and "head q \<noteq> 0 \<Longrightarrow> time_of q (head q) = Some (e_when (events q (head q)))"
proof -
  obtain bs where bs: "queue_inv q bs" using assms by (auto simp: qinv_def)
  show "time_of q x = None" if "head q = 0"
  proof -
    have "bin_seg (events q) 0 bs 0" using bs that by (simp add: queue_inv_def rep_def)
    then have "bs = []" using item_seg_hd [of "events q" 0] by (cases bs) auto
    then show ?thesis using time_of_in_bins [OF bs, of x] by (cases "time_of q x") auto
  qed
  show "time_of q (head q) = Some (e_when (events q (head q)))" if "head q \<noteq> 0"
  proof -
    have "e_when (events (service_pop q) (head q)) = e_when (events q (head q))" by (simp add: service_pop_def Let_def)
    then show ?thesis using service_pop_spec(1) [OF assms that] by (simp add: served_def)
  qed
qed

lemma clear_other_flag:
  assumes "qinv q" and m: "\<And>x. scheduled (clear_flag m x) = scheduled x"
  shows "qinv (upd_event e (clear_flag m) q)" and "time_of (upd_event e (clear_flag m) q) = time_of q"
proof -
  obtain bs where bs: "queue_inv q bs" using assms(1) by (auto simp: qinv_def)
  have "rep (events (upd_event e (clear_flag m) q)) (head q) bs"
    by (rule rep_cong [of "events q"]) (use bs in \<open>auto simp: queue_inv_def\<close>)
  then have "queue_inv (upd_event e (clear_flag m) q) bs" using bs by (simp add: queue_inv_def m)
  then show "qinv (upd_event e (clear_flag m) q)" by (auto simp: qinv_def)
  show "time_of (upd_event e (clear_flag m) q) = time_of q" by (auto simp: time_of_def fun_eq_iff m)
qed

lemmas clear_squashed = clear_other_flag [where m = 1, OF _ flag_simps(3)]

text \<open>Actions that keep the queue well-formed, schedule nothing up to the horizon \<open>w\<close> and are not exit
  events.\<close>

definition tame :: "(nat \<Rightarrow> EventQueue \<Rightarrow> EventQueue) \<Rightarrow> Tick \<Rightarrow> bool" where
  "tame process w \<longleftrightarrow> (\<forall>e q. qinv q \<longrightarrow> qinv (process e q) \<and> \<not> isExitEvent (events (process e q) e)
     \<and> (\<forall>x t. time_of (process e q) x = Some t \<and> t \<le> w \<longrightarrow> time_of q x = Some t))"

lemma serviceOne_tame:
  assumes "tame process w" and "qinv q" and "head q \<noteq> 0"
  shows "\<exists>q'. serviceOne process q = Inr (q', 0) \<and> qinv q'
    \<and> (\<forall>x t. time_of q' x = Some t \<and> t \<le> w \<longrightarrow> time_of q x = Some t \<and> x \<noteq> head q)"
proof -
  note s = service_pop_spec [OF assms(2,3)]
  show ?thesis
  proof (cases "squashed (events (service_pop q) (head q))")
    case True
    let ?q = "release (head q) (upd_event (head q) (clear_flag 1) (service_pop q))"
    have "serviceOne process q = Inr (?q, 0)" using True by (simp add: serviceOne_def Let_def)
    moreover have "qinv ?q" using clear_squashed(1) [OF s(7)] by (auto simp: qinv_def)
    moreover have "time_of ?q = (time_of q)(head q := None)" using clear_squashed(2) [OF s(7)] s(8) by simp
    ultimately show ?thesis by (auto split: if_splits)
  next
    case False
    let ?q = "process (head q) (served q)"
    have t: "qinv ?q" "\<not> isExitEvent (events ?q (head q))"
      "\<forall>x t. time_of ?q x = Some t \<and> t \<le> w \<longrightarrow> time_of (served q) x = Some t"
      using assms(1) s(4) unfolding tame_def by blast+
    have "serviceOne process q = Inr (release (head q) ?q, 0)" using False t(2) by (simp add: serviceOne_def served_def Let_def)
    moreover have "qinv (release (head q) ?q)" using t(1) by (simp add: qinv_def)
    ultimately show ?thesis using t(3) s(5) by (auto split: if_splits)
  qed
qed


text \<open>An action that turns its event into an ordinary one.\<close>

definition sample_action :: "nat \<Rightarrow> EventQueue \<Rightarrow> EventQueue" where
  "sample_action e q = upd_event e (clear_flag IsExitEvent) q"

lemma sample_action_tame: "tame sample_action w"
proof -
  have f: "scheduled (clear_flag IsExitEvent x) = scheduled x" "\<not> isExitEvent (clear_flag IsExitEvent x)" for x
    by (simp_all add: scheduled_def isExitEvent_def clear_flag_def isSet_def flags_clear_def and.assoc)
  show ?thesis unfolding tame_def sample_action_def using clear_other_flag [OF _ f(1)] f(2) by simp
qed


end
