(* ===== verification/Sim_Object.thy ===== *)
theory Sim_Object
  imports Event_Schedule Bit_Utils
begin

text \<open>
  What every simulated object inherits: the clock of \<^verbatim>\<open>sim/clocked_object.hh\<close>, the drain state of
  \<^verbatim>\<open>sim/drain.hh\<close>, and the operations of \<^verbatim>\<open>EventManager\<close> on the events it owns. An event of an object
  is a \<open>Tick option\<close>, the time it is scheduled at; \<open>ev_schedule\<close> and \<open>ev_reschedule\<close> are what the
  event queue does to that time, which the two simulation lemmas show.
\<close>

section \<open>Events of an object\<close>

definition ev_schedule :: "Tick \<Rightarrow> Tick option \<Rightarrow> Tick \<Rightarrow> Tick option res" where
  "ev_schedule now ev w = ensure (ev = None \<and> now \<le> w) AssertFail (Inr (Some w))"

definition ev_deschedule :: "Tick option \<Rightarrow> Tick option res" where
  "ev_deschedule ev = ensure (ev \<noteq> None) AssertFail (Inr None)"

definition ev_reschedule :: "Tick \<Rightarrow> Tick option \<Rightarrow> Tick \<Rightarrow> bool \<Rightarrow> Tick option res" where
  "ev_reschedule now ev w always = ensure (now \<le> w \<and> (always \<or> ev \<noteq> None)) AssertFail (Inr (Some w))"

text \<open>The event queue does this to the event it is asked to schedule and nothing to the others.\<close>

definition acts_on :: "EventQueue \<Rightarrow> nat \<Rightarrow> Tick option res \<Rightarrow> EventQueue res option \<Rightarrow> bool" where
  "acts_on q e t r \<longleftrightarrow> (case t of
       Inl x \<Rightarrow> r = Some (Inl x)
     | Inr ev \<Rightarrow> \<exists>q'. r = Some (Inr q') \<and> qinv q' \<and> time_of q' = (time_of q)(e := ev) \<and> curTick q' = curTick q)"

lemma schedule_sim: "qinv q \<Longrightarrow> live q e \<Longrightarrow> acts_on q e (ev_schedule (curTick q) (time_of q e) w) (schedule q e w)"
  using schedule_spec [of q e w] by (auto simp: acts_on_def ev_schedule_def ensure_def split: if_splits)

lemma deschedule_sim: "qinv q \<Longrightarrow> live q e \<Longrightarrow> acts_on q e (ev_deschedule (time_of q e)) (deschedule q e)"
  using deschedule_spec [of q e] by (auto simp: acts_on_def ev_deschedule_def ensure_def split: if_splits)

lemma reschedule_sim:
  "qinv q \<Longrightarrow> live q e \<Longrightarrow> acts_on q e (ev_reschedule (curTick q) (time_of q e) w always) (reschedule q e w always)"
  using reschedule_spec [of q e w always] by (auto simp: acts_on_def ev_reschedule_def ensure_def split: if_splits)

section \<open>Clocks\<close>

record Clocked =
  c_tick :: Tick
  c_cycle :: nat

definition clk_update :: "Tick \<Rightarrow> Tick \<Rightarrow> Clocked \<Rightarrow> Clocked" where
  "clk_update period now c =
     (if c_tick c \<ge> now then c
      else
        let c = c\<lparr>c_tick := c_tick c + period, c_cycle := c_cycle c + 1\<rparr> in
        if c_tick c \<ge> now then c
        else let elapsedCycles = divCeil (now - c_tick c) period
             in c\<lparr>c_cycle := c_cycle c + elapsedCycles, c_tick := c_tick c + elapsedCycles * period\<rparr>)"

definition resetClock :: "Tick \<Rightarrow> Tick \<Rightarrow> Clocked \<Rightarrow> Clocked" where
  "resetClock period now c =
     (let elapsedCycles = divCeil now period in c\<lparr>c_cycle := elapsedCycles, c_tick := elapsedCycles * period\<rparr>)"

definition clockEdge :: "Tick \<Rightarrow> Tick \<Rightarrow> Clocked \<Rightarrow> nat \<Rightarrow> Tick \<times> Clocked" where
  "clockEdge period now c cycles = (let c = clk_update period now c in (c_tick c + period * cycles, c))"

definition curCycle :: "Tick \<Rightarrow> Tick \<Rightarrow> Clocked \<Rightarrow> nat \<times> Clocked" where
  "curCycle period now c = (let c = clk_update period now c in (c_cycle c, c))"

definition nextCycle :: "Tick \<Rightarrow> Tick \<Rightarrow> Clocked \<Rightarrow> Tick \<times> Clocked" where
  "nextCycle period now c = clockEdge period now c 1"

definition ticksToCycles :: "Tick \<Rightarrow> Tick \<Rightarrow> nat" where
  "ticksToCycles period t = divCeil t period"

definition cyclesToTicks :: "Tick \<Rightarrow> nat \<Rightarrow> Tick" where
  "cyclesToTicks period c = period * c"

text \<open>The cached edge lies on the clock and less than a period ahead of the current tick.\<close>

definition clk_ok :: "Tick \<Rightarrow> Tick \<Rightarrow> Clocked \<Rightarrow> bool" where
  "clk_ok period now c \<longleftrightarrow> c_tick c = c_cycle c * period \<and> c_tick c < now + period"

lemma clk_ok_later: "clk_ok period now c \<Longrightarrow> now \<le> t \<Longrightarrow> clk_ok period t c"
  by (simp add: clk_ok_def)

lemma divCeil_bounds:
  assumes "0 < (p::nat)"
  shows "n \<le> divCeil n p * p" and "divCeil n p * p < n + p"
proof -
  have m: "(n + p - 1) div p * p + (n + p - 1) mod p = n + p - 1" by simp
  have "(n + p - 1) mod p < p" using assms by simp
  then show "n \<le> divCeil n p * p" "divCeil n p * p < n + p" using m assms unfolding divCeil_def by linarith+
qed

lemma divCeil_unique:
  assumes "0 < (p::nat)" and "n \<le> k * p" and "k * p < n + p"
  shows "divCeil n p = k"
proof -
  have "k * p < (divCeil n p + 1) * p" "divCeil n p * p < (k + 1) * p"
    using divCeil_bounds [OF assms(1), of n] assms(2,3) by (simp_all only: distrib_right mult_1 nat_mult_1)
  then have "k < divCeil n p + 1" "divCeil n p < k + 1" by (simp_all only: mult_less_cancel2)
  then show ?thesis by linarith
qed

lemma clk_update_ok:
  assumes "0 < period" and "clk_ok period now c"
  shows "clk_ok period now (clk_update period now c) \<and> now \<le> c_tick (clk_update period now c)"
proof -
  have c: "c_tick c = c_cycle c * period" "c_tick c < now + period" using assms(2) by (simp_all add: clk_ok_def)
  consider "c_tick c \<ge> now" | "c_tick c < now" "c_tick c + period \<ge> now" | "c_tick c + period < now" by linarith
  then show ?thesis
  proof cases
    case 1
    then show ?thesis using assms(2) by (simp add: clk_update_def)
  next
    case 2
    then show ?thesis using c by (simp add: clk_update_def clk_ok_def)
  next
    case 3
    let ?d = "divCeil (now - (c_tick c + period)) period"
    have e: "clk_update period now c = c\<lparr>c_tick := c_tick c + period + ?d * period, c_cycle := c_cycle c + 1 + ?d\<rparr>"
      using 3 by (simp add: clk_update_def Let_def)
    have "now \<le> c_tick c + period + ?d * period" "c_tick c + period + ?d * period < now + period"
      using divCeil_bounds [OF assms(1), of "now - (c_tick c + period)"] 3 by linarith+
    then show ?thesis using c(1) unfolding e clk_ok_def by (simp add: algebra_simps)
  qed
qed

text \<open>
  C32: whatever the cached tick and cycle are, the clock functions return what the definition of a
  clock edge says: \<^verbatim>\<open>curCycle\<close> is the number of periods up to the current tick, rounded up, and
  \<^verbatim>\<open>clockEdge\<close> is the first edge not before it, \<open>cycles\<close> periods on; the cache stays consistent.
\<close>

theorem clock_edges_correct:
  assumes "0 < period" and "clk_ok period now c"
  shows "fst (clockEdge period now c cycles) = (divCeil now period + cycles) * period
    \<and> fst (curCycle period now c) = divCeil now period
    \<and> clk_ok period now (snd (clockEdge period now c cycles)) \<and> clk_ok period now (snd (curCycle period now c))"
proof -
  let ?c = "clk_update period now c"
  have u: "clk_ok period now ?c" "now \<le> c_tick ?c" using clk_update_ok [OF assms] by simp_all
  then have "divCeil now period = c_cycle ?c"
    using divCeil_unique [OF assms(1), of now "c_cycle ?c"] by (simp add: clk_ok_def)
  then show ?thesis using u(1) by (simp add: clockEdge_def curCycle_def Let_def clk_ok_def algebra_simps)
qed

theorem clock_edges_correct_witness:
  "fst (clockEdge 500 1234 \<lparr>c_tick = 500, c_cycle = 1\<rparr> 2) = 2500 \<and> fst (curCycle 500 1234 \<lparr>c_tick = 500, c_cycle = 1\<rparr>) = 3"
  using clock_edges_correct [of 500 1234 "\<lparr>c_tick = 500, c_cycle = 1\<rparr>" 2] by (simp add: clk_ok_def divCeil_def)

section \<open>Draining\<close>

datatype DrainState = Running | Draining | Drained | Resuming

text \<open>The drain state of an object and the number of signals it has sent to the drain manager.\<close>

definition signalDrainDone :: "DrainState \<times> nat \<Rightarrow> DrainState \<times> nat" where
  "signalDrainDone d = (case fst d of Draining \<Rightarrow> (Drained, snd d + 1) | _ \<Rightarrow> d)"

end
