(* ===== verification/Dma_Port.thy ===== *)
theory Dma_Port
  imports Addr_Range_Map Chunk_Gen Abstract_Memory Sim_Object
begin

text \<open>
  The DMA port of \<^verbatim>\<open>dev/dma_device.hh\<close> and \<^verbatim>\<open>dev/dma_device.cc\<close>: transfers are queued as request states,
  cut into packets by their chunk generators, sent in timing or atomic mode, and completed when all
  their bytes are acknowledged. The request states are heap objects, which packets in flight point to;
  \<open>reqStates\<close> is the part of the heap that holds them. The completion events of the device are cells of
  \<open>devEvents\<close>. Packets given to the peer are recorded in \<open>sentReqs\<close>.
\<close>

section \<open>Data\<close>

datatype MemoryMode = mode_invalid | mode_atomic | mode_timing | mode_atomic_noncaching

definition isAtomicMode :: "MemoryMode \<Rightarrow> bool" where
  "isAtomicMode m \<longleftrightarrow> m = mode_atomic \<or> m = mode_atomic_noncaching"

definition isTimingMode :: "MemoryMode \<Rightarrow> bool" where
  "isTimingMode m \<longleftrightarrow> m = mode_timing"

definition bypassCaches :: "MemoryMode \<Rightarrow> bool" where
  "bypassCaches m \<longleftrightarrow> m = mode_atomic_noncaching"

record DmaReqState =
  completionEvent :: "nat option"
  abortEvent :: "nat option"
  aborted :: bool
  totBytes :: Addr
  numBytes :: Addr
  st_delay :: Tick
  gen :: ChunkGenerator
  st_data :: nat
  st_flags :: FlagsType
  st_id :: "16 word"
  st_sid :: "32 word option"
  st_ssid :: "32 word option"
  st_cmd :: Command

definition newDmaReqState ::
  "Command \<Rightarrow> Addr \<Rightarrow> Addr \<Rightarrow> Addr \<Rightarrow> nat \<Rightarrow> FlagsType \<Rightarrow> 16 word \<Rightarrow> 32 word option \<Rightarrow> 32 word option
    \<Rightarrow> nat option \<Rightarrow> Tick \<Rightarrow> nat option \<Rightarrow> DmaReqState res" where
  "newDmaReqState c a chunk_sz tb dat fl rid sid ssid ce dly ae =
     rbind (newChunkGenerator a tb chunk_sz) (\<lambda>g.
       Inr \<lparr>completionEvent = ce, abortEvent = ae, aborted = False, totBytes = tb, numBytes = 0, st_delay = dly,
            gen = g, st_data = dat, st_flags = fl, st_id = rid, st_sid = sid, st_ssid = ssid, st_cmd = c\<rparr>)"

record DmaPort =
  memBackdoors :: "MemBackdoor AddrRangeMap"
  transmitList :: "nat list"
  sendEvent :: "Tick option"
  pendingCount :: "32 word"
  inRetry :: "Packet option"
  retryPending :: bool
  dp_requestorId :: "16 word"
  defaultSid :: "32 word option"
  defaultSSid :: "32 word option"
  cacheLineSize :: Addr
  dp_period :: Tick
  dp_clock :: Clocked
  dp_drain :: "DrainState \<times> nat"
  reqStates :: "nat \<rightharpoonup> DmaReqState"
  nextState :: nat
  devEvents :: "nat \<Rightarrow> Tick option"
  sentReqs :: "Packet list"

definition newDmaPort :: "16 word \<Rightarrow> Addr \<Rightarrow> Tick \<Rightarrow> 32 word option \<Rightarrow> 32 word option \<Rightarrow> DmaPort" where
  "newDmaPort rid line period sid ssid =
     \<lparr>memBackdoors = map_new, transmitList = [], sendEvent = None, pendingCount = 0, inRetry = None, retryPending = False,
      dp_requestorId = rid, defaultSid = sid, defaultSSid = ssid, cacheLineSize = line,
      dp_period = period, dp_clock = \<lparr>c_tick = 0, c_cycle = 0\<rparr>, dp_drain = (Running, 0),
      reqStates = Map.empty, nextState = 0, devEvents = (\<lambda>_. None), sentReqs = []\<rparr>"

section \<open>Operations\<close>

text \<open>\<^verbatim>\<open>device->schedule(event, when)\<close> for an event of the device.\<close>

definition dev_schedule :: "Tick \<Rightarrow> nat \<Rightarrow> Tick \<Rightarrow> DmaPort \<Rightarrow> DmaPort res" where
  "dev_schedule now e w d =
     rbind (ev_schedule now (devEvents d e) w) (\<lambda>x. Inr (d\<lparr>devEvents := (devEvents d)(e := x)\<rparr>))"

definition schedule_opt :: "Tick \<Rightarrow> nat option \<Rightarrow> Tick \<Rightarrow> DmaPort \<Rightarrow> DmaPort res" where
  "schedule_opt now e w d = (case e of None \<Rightarrow> Inr d | Some e \<Rightarrow> dev_schedule now e w d)"

text \<open>Access to a request state through its pointer; a dangling pointer is an error.\<close>

definition deref :: "DmaPort \<Rightarrow> nat \<Rightarrow> DmaReqState res" where
  "deref d i = (case reqStates d i of None \<Rightarrow> Inl AssertFail | Some s \<Rightarrow> Inr s)"

definition put_state :: "nat \<Rightarrow> DmaReqState \<Rightarrow> DmaPort \<Rightarrow> DmaPort" where
  "put_state i s d = d\<lparr>reqStates := (reqStates d)(i \<mapsto> s)\<rparr>"

definition delete_state :: "nat \<Rightarrow> DmaPort \<Rightarrow> DmaPort" where
  "delete_state i d = d\<lparr>reqStates := (reqStates d)(i := None)\<rparr>"

definition finish_drain :: "DmaPort \<Rightarrow> DmaPort" where
  "finish_drain d = (if pendingCount d = 0 then d\<lparr>dp_drain := signalDrainDone (dp_drain d)\<rparr> else d)"

definition handleResp :: "Tick \<Rightarrow> DmaPort \<Rightarrow> nat \<Rightarrow> Addr \<Rightarrow> Tick \<Rightarrow> DmaPort res" where
  "handleResp now d i sz delay =
     ensure (pendingCount d \<noteq> 0) AssertFail
      (rbind (deref d i) (\<lambda>s.
        let d = d\<lparr>pendingCount := pendingCount d - 1\<rparr>;
            s = s\<lparr>numBytes := numBytes s + sz\<rparr>;
            d = put_state i s d
        in ensure (totBytes s \<ge> numBytes s) AssertFail
            (let all_bytes = (totBytes s = numBytes s) in
             rbind
               (if aborted s then
                  (if all_bytes \<or> pendingCount d = 0
                   then rbind (schedule_opt now (abortEvent s) now d) (\<lambda>d. Inr (delete_state i d))
                   else Inr d)
                else if all_bytes
                then rbind (schedule_opt now (completionEvent s) (now + (delay + st_delay s)) d) (\<lambda>d. Inr (delete_state i d))
                else Inr d)
               (\<lambda>d. Inr (finish_drain d)))))"

definition handleRespPacket :: "Tick \<Rightarrow> DmaPort \<Rightarrow> Packet \<Rightarrow> Tick \<Rightarrow> DmaPort res" where
  "handleRespPacket now d pkt delay =
     ensure (isResponse (cmd pkt)) AssertFail
      (case senderState pkt of
         [] \<Rightarrow> Inl AssertFail
       | i # _ \<Rightarrow> rbind (getAddr pkt) (\<lambda>_. rbind (req_getSize (req pkt)) (\<lambda>n. handleResp now d i (of_nat n) delay)))"

text \<open>The size of a request is an \<^verbatim>\<open>unsigned\<close>, so the size of the chunk is cut to 32 bits.\<close>

definition createPacket :: "Tick \<Rightarrow> nat \<Rightarrow> DmaReqState \<Rightarrow> Packet res" where
  "createPacket now i s =
     (let r = physRequest now (curAddr (gen s)) (unat (curSize (gen s)) mod 2 ^ 32) (st_flags s) (st_id s);
          r = (case st_sid s of None \<Rightarrow> r | Some v \<Rightarrow> setStreamId r v)
      in rbind (case st_ssid s of None \<Rightarrow> Inr r | Some v \<Rightarrow> setSubstreamId r v) (\<lambda>r.
         rbind (newPacket r (st_cmd s)) (\<lambda>pkt.
         rbind (if st_data s \<noteq> 0 then dataStatic (st_data s + unat (complete (gen s))) pkt else Inr pkt) (\<lambda>pkt.
         Inr (pkt\<lparr>senderState := [i]\<rparr>)))))"

definition recvTimingResp :: "Tick \<Rightarrow> DmaPort \<Rightarrow> Packet \<Rightarrow> (bool \<times> DmaPort) res" where
  "recvTimingResp now d pkt =
     ensure (req_isUncacheable (req pkt) \<or> \<not> (cacheResponding pkt \<and> \<not> hasSharers pkt)) AssertFail
       (rbind (handleRespPacket now d pkt 0) (\<lambda>d. Inr (True, d)))"

definition dma_drain :: "DmaPort \<Rightarrow> DrainState" where
  "dma_drain d = (if pendingCount d = 0 then Drained else Draining)"

definition dmaPending :: "DmaPort \<Rightarrow> bool" where
  "dmaPending d \<longleftrightarrow> pendingCount d > 0"

text \<open>\<^verbatim>\<open>trySendTimingReq\<close>, with the answer of the peer to the request.\<close>

definition trySendTimingReq :: "Tick \<Rightarrow> bool \<Rightarrow> DmaPort \<Rightarrow> DmaPort res" where
  "trySendTimingReq now peer_accepts d =
     (case transmitList d of
        [] \<Rightarrow> Inl AssertFail
      | i # rest \<Rightarrow>
          rbind (deref d i) (\<lambda>s.
          rbind (case inRetry d of Some pkt \<Rightarrow> Inr pkt | None \<Rightarrow> createPacket now i s) (\<lambda>pkt.
          let d = d\<lparr>inRetry := None\<rparr>;
              last_pkt = gen_last (gen s);
              d = (if peer_accepts then d\<lparr>pendingCount := pendingCount d + 1, sentReqs := sentReqs d @ [pkt]\<rparr>
                   else d\<lparr>retryPending := True, inRetry := Some pkt\<rparr>)
          in if \<not> retryPending d then
               (let d = put_state i (s\<lparr>gen := fst (gen_next (gen s))\<rparr>) d;
                    d = (if last_pkt then d\<lparr>transmitList := rest\<rparr> else d)
                in if transmitList d \<noteq> [] then
                     (case clockEdge (dp_period d) now (dp_clock d) 1 of (w, c) \<Rightarrow>
                        rbind (ev_schedule now (sendEvent d) w) (\<lambda>ev. Inr (d\<lparr>dp_clock := c, sendEvent := ev\<rparr>)))
                   else Inr d)
             else Inr d)))"

definition recvReqRetry :: "Tick \<Rightarrow> bool \<Rightarrow> DmaPort \<Rightarrow> DmaPort res" where
  "recvReqRetry now peer_accepts d =
     (let d = d\<lparr>retryPending := False\<rparr>
      in if transmitList d \<noteq> [] then trySendTimingReq now peer_accepts d else Inr d)"

text \<open>The loop of \<^verbatim>\<open>abortPending\<close> over the requests that have not started.\<close>

fun drop_requests :: "Tick \<Rightarrow> nat list \<Rightarrow> DmaPort \<Rightarrow> DmaPort res" where
  "drop_requests now [] d = Inr (d\<lparr>transmitList := []\<rparr>)"
| "drop_requests now (i # is) d =
     rbind (deref d i) (\<lambda>s.
     rbind (schedule_opt now (abortEvent s) now d) (\<lambda>d.
     drop_requests now is (delete_state i d)))"

definition abortPending :: "Tick \<Rightarrow> DmaPort \<Rightarrow> DmaPort res" where
  "abortPending now d =
     (let d = d\<lparr>inRetry := None\<rparr> in
      rbind (case transmitList d of
               [] \<Rightarrow> Inr d
             | i # rest \<Rightarrow>
                 if pendingCount d \<noteq> 0 then
                   rbind (deref d i) (\<lambda>s.
                     if numBytes s \<noteq> complete (gen s)
                     then Inr (put_state i (s\<lparr>aborted := True\<rparr>) (d\<lparr>transmitList := rest\<rparr>))
                     else Inr d)
                 else Inr d) (\<lambda>d.
      rbind (drop_requests now (transmitList d) d) (\<lambda>d.
      rbind (if sendEvent d \<noteq> None then ev_deschedule (sendEvent d) else Inr None) (\<lambda>ev.
      Inr (finish_drain (d\<lparr>sendEvent := ev\<rparr>))))))"

section \<open>Atomic mode\<close>

text \<open>The memory system behind the port is a function from the store, its own state and a request to the
  latency, the new store and state, and the response.\<close>

type_synonym 'w peer = "mem \<Rightarrow> 'w \<Rightarrow> Packet \<Rightarrow> (Tick \<times> mem \<times> 'w \<times> Packet) res"
type_synonym 'w bd_peer = "mem \<Rightarrow> 'w \<Rightarrow> Packet \<Rightarrow> (Tick \<times> mem \<times> 'w \<times> Packet \<times> MemBackdoor option) res"
type_synonym 'w dma_world = "DmaPort \<times> mem \<times> 'w"

definition sendAtomicReq :: "'w peer \<Rightarrow> Tick \<Rightarrow> nat \<Rightarrow> 'w dma_world \<Rightarrow> (bool \<times> 'w dma_world) res" where
  "sendAtomicReq sendAtomic now i x =
     (case x of (d, h, w) \<Rightarrow>
      rbind (deref d i) (\<lambda>s.
      rbind (createPacket now i s) (\<lambda>pkt.
      let d = d\<lparr>pendingCount := pendingCount d + 1\<rparr> in
      rbind (sendAtomic h w pkt) (\<lambda>(lat, h, w, pkt).
      case gen_next (gen s) of (g, has_next) \<Rightarrow>
      rbind (handleRespPacket now (put_state i (s\<lparr>gen := g\<rparr>) d) pkt lat) (\<lambda>d.
      Inr (\<not> has_next, (d, h, w)))))))"

definition record_backdoor :: "MemBackdoor option \<Rightarrow> DmaPort \<Rightarrow> DmaPort res" where
  "record_backdoor bd d =
     (case bd of
        None \<Rightarrow> Inr d
      | Some b \<Rightarrow> rbind (map_insert 1 (memBackdoors d) (bd_range b) b) (\<lambda>(m, _). Inr (d\<lparr>memBackdoors := m\<rparr>)))"

definition sendAtomicBdReq :: "'w bd_peer \<Rightarrow> Tick \<Rightarrow> nat \<Rightarrow> 'w dma_world \<Rightarrow> (bool \<times> 'w dma_world) res" where
  "sendAtomicBdReq sendAtomicBackdoor now i x =
     (case x of (d, h, w) \<Rightarrow>
      let d = d\<lparr>pendingCount := pendingCount d + 1\<rparr> in
      rbind (deref d i) (\<lambda>s.
      rbind (map_contains_addr 1 (memBackdoors d) (curAddr (gen s))) (\<lambda>(m, it).
      let d = d\<lparr>memBackdoors := m\<rparr> in
      case (case it of None \<Rightarrow> None | Some k \<Rightarrow> map_value m k) of
        None \<Rightarrow>
          rbind (createPacket now i s) (\<lambda>pkt.
          rbind (sendAtomicBackdoor h w pkt) (\<lambda>(lat, h, w, pkt, bd).
          rbind (record_backdoor bd d) (\<lambda>d.
          case gen_next (gen s) of (g, has_next) \<Rightarrow>
          rbind (handleRespPacket now (put_state i (s\<lparr>gen := g\<rparr>) d) pkt lat) (\<lambda>d.
          Inr (\<not> has_next, (d, h, w))))))
      | Some bd \<Rightarrow>
          let offset = curAddr (gen s) - start_of (bd_range bd);
              remaining = totBytes s - complete (gen s);
              available = range_size (bd_range bd) - offset;
              handled = min remaining available;
              bd_data = bd_ptr bd + unat offset;
              state_data = st_data s + unat (complete (gen s));
              h = (if st_data s \<noteq> 0 then
                     if isRead (st_cmd s) then write_bytes h state_data (read_bytes h bd_data (unat handled))
                     else write_bytes h bd_data (read_bytes h state_data (unat handled))
                   else h)
          in rbind (setNext (gen s) (curAddr (gen s) + handled)) (\<lambda>g.
             case gen_next g of (g, has_next) \<Rightarrow>
             rbind (handleResp now (put_state i (s\<lparr>gen := g\<rparr>) d) i handled 0) (\<lambda>d.
             Inr (\<not> has_next, (d, h, w)))))))"

text \<open>The two loops of \<^verbatim>\<open>sendDma\<close>, with fuel; \<open>None\<close> is running out of it.\<close>

fun atomic_chunks :: "nat \<Rightarrow> ('w dma_world \<Rightarrow> (bool \<times> 'w dma_world) res) \<Rightarrow> bool \<Rightarrow> 'w dma_world \<Rightarrow> 'w dma_world res option" where
  "atomic_chunks 0 send is_done x = None"
| "atomic_chunks (Suc n) send is_done x =
     (if is_done then Some (Inr x)
      else case send x of Inl e \<Rightarrow> Some (Inl e) | Inr (is_done, x) \<Rightarrow> atomic_chunks n send is_done x)"

fun atomic_requests :: "nat \<Rightarrow> (nat \<Rightarrow> 'w dma_world \<Rightarrow> (bool \<times> 'w dma_world) res) \<Rightarrow> 'w dma_world \<Rightarrow> 'w dma_world res option" where
  "atomic_requests 0 send x = None"
| "atomic_requests (Suc n) send (d, h, w) =
     (case transmitList d of
        [] \<Rightarrow> Some (Inr (d, h, w))
      | i # rest \<Rightarrow>
          let d = d\<lparr>transmitList := rest\<rparr> in
          case deref d i of
            Inl e \<Rightarrow> Some (Inl e)
          | Inr s \<Rightarrow>
              (case atomic_chunks n (send i) (gen_done (gen s)) (d, h, w) of
                 None \<Rightarrow> None
               | Some (Inl e) \<Rightarrow> Some (Inl e)
               | Some (Inr x) \<Rightarrow> atomic_requests n send x))"

definition sendDma ::
  "nat \<Rightarrow> MemoryMode \<Rightarrow> 'w peer \<Rightarrow> 'w bd_peer \<Rightarrow> Tick \<Rightarrow> bool \<Rightarrow> 'w dma_world \<Rightarrow> 'w dma_world res option" where
  "sendDma fuel mode sendAtomic sendAtomicBackdoor now peer_accepts x =
     (case x of (d, h, w) \<Rightarrow>
      if transmitList d = [] then Some (Inl AssertFail)
      else if isTimingMode mode then
        (if retryPending d \<or> sendEvent d \<noteq> None then Some (Inr x)
         else Some (rbind (trySendTimingReq now peer_accepts d) (\<lambda>d. Inr (d, h, w))))
      else if isAtomicMode mode then
        atomic_requests fuel
          (if bypassCaches mode then sendAtomicBdReq sendAtomicBackdoor now else sendAtomicReq sendAtomic now) x
      else Some (Inl Panic))"

text \<open>Queueing a transfer; the length is an \<^verbatim>\<open>int\<close> in the code and extended to an address with its sign.\<close>

definition enqueue_request ::
  "Command \<Rightarrow> Addr \<Rightarrow> 32 word \<Rightarrow> nat option \<Rightarrow> nat \<Rightarrow> 32 word option \<Rightarrow> 32 word option \<Rightarrow> Tick \<Rightarrow> FlagsType \<Rightarrow> DmaPort \<Rightarrow> DmaPort res" where
  "enqueue_request c a sz ev dat sid ssid delay fl d =
     rbind (newDmaReqState c a (cacheLineSize d) (scast sz) dat fl (dp_requestorId d) sid ssid ev delay None) (\<lambda>s.
       Inr (put_state (nextState d) s (d\<lparr>transmitList := transmitList d @ [nextState d], nextState := nextState d + 1\<rparr>)))"

definition dmaAction ::
  "nat \<Rightarrow> MemoryMode \<Rightarrow> 'w peer \<Rightarrow> 'w bd_peer \<Rightarrow> Tick \<Rightarrow> bool \<Rightarrow> Command \<Rightarrow> Addr \<Rightarrow> 32 word \<Rightarrow> nat option \<Rightarrow> nat
    \<Rightarrow> 32 word option \<Rightarrow> 32 word option \<Rightarrow> Tick \<Rightarrow> FlagsType \<Rightarrow> 'w dma_world \<Rightarrow> 'w dma_world res option" where
  "dmaAction fuel mode sendAtomic sendAtomicBackdoor now peer_accepts c a sz ev dat sid ssid delay fl x =
     (case x of (d, h, w) \<Rightarrow>
      case enqueue_request c a sz ev dat sid ssid delay fl d of
        Inl e \<Rightarrow> Some (Inl e)
      | Inr d \<Rightarrow> sendDma fuel mode sendAtomic sendAtomicBackdoor now peer_accepts (d, h, w))"

definition dmaRead ::
  "nat \<Rightarrow> MemoryMode \<Rightarrow> 'w peer \<Rightarrow> 'w bd_peer \<Rightarrow> Tick \<Rightarrow> bool \<Rightarrow> Addr \<Rightarrow> 32 word \<Rightarrow> nat option \<Rightarrow> nat \<Rightarrow> Tick
    \<Rightarrow> 'w dma_world \<Rightarrow> 'w dma_world res option" where
  "dmaRead fuel mode sa sab now ok a sz ev dat delay x =
     dmaAction fuel mode sa sab now ok ReadReq a sz ev dat (defaultSid (fst x)) (defaultSSid (fst x)) delay 0 x"

definition dmaWrite ::
  "nat \<Rightarrow> MemoryMode \<Rightarrow> 'w peer \<Rightarrow> 'w bd_peer \<Rightarrow> Tick \<Rightarrow> bool \<Rightarrow> Addr \<Rightarrow> 32 word \<Rightarrow> nat option \<Rightarrow> nat \<Rightarrow> Tick
    \<Rightarrow> 'w dma_world \<Rightarrow> 'w dma_world res option" where
  "dmaWrite fuel mode sa sab now ok a sz ev dat delay x =
     dmaAction fuel mode sa sab now ok WriteReq a sz ev dat (defaultSid (fst x)) (defaultSSid (fst x)) delay 0 x"

section \<open>One packet\<close>

lemma createPacket_ok:
  assumes "st_flags s = 0" and "st_data s \<noteq> 0" and "curSize (gen s) \<noteq> 0" and "unat (curSize (gen s)) < 2 ^ 32"
    and "st_sid s = None \<Longrightarrow> st_ssid s = None"
  shows "\<exists>p. createPacket t i s = Inr p \<and> plain_request p \<and> cmd p = st_cmd s \<and> addr p = curAddr (gen s) \<and> psize p = unat (curSize (gen s))
    \<and> data p = st_data s + unat (complete (gen s)) \<and> senderState p = [i] \<and> req_getSize (req p) = Inr (psize p)"
proof -
  let ?n = "unat (curSize (gen s))"
  define r where "r = physRequest t (curAddr (gen s)) (?n mod 2 ^ 32) (st_flags s) (st_id s)"
  define r1 where "r1 = (case st_sid s of None \<Rightarrow> r | Some v \<Rightarrow> setStreamId r v)"
  have r1: "r_paddr r1 = curAddr (gen s)" "r_size r1 = ?n" "byteEnable r1 = replicate ?n True" "r_flags r1 = 0"
    "isSet (privateFlags r1) REQ_VALID_PADDR" "isSet (privateFlags r1) REQ_VALID_SIZE" "st_sid s \<noteq> None \<Longrightarrow> hasStreamId r1"
    using assms(1,4) by (auto simp: r1_def r_def physRequest_def emptyRequest_def setStreamId_def hasStreamId_def flags_set_def isSet_def and.assoc
        bit_simps split: option.split)
  have hs: "st_ssid s \<noteq> None \<longrightarrow> hasStreamId r1" using r1(7) assms(5) by (cases "st_sid s = None") simp_all
  obtain r2 where r2: "(case st_ssid s of None \<Rightarrow> Inr r1 | Some v \<Rightarrow> setSubstreamId r1 v) = Inr r2"
    and r2': "r_paddr r2 = curAddr (gen s)" "r_size r2 = ?n" "byteEnable r2 = replicate ?n True" "r_flags r2 = 0"
    "isSet (privateFlags r2) REQ_VALID_PADDR" "isSet (privateFlags r2) REQ_VALID_SIZE"
    using r1(1-6) hs by (cases "st_ssid s") (auto simp: setSubstreamId_def isSet_set_other)
  have h: "hasPaddr r2" "hasSize r2" "\<not> req_isHTMCmd r2" "\<not> req_isInstFetch r2"
    using r2' by (simp_all add: hasPaddr_def hasSize_def req_isHTMCmd_def req_isHTMAbort_def req_isInstFetch_def isSet_def)
  define p where "p = setf VALID_SIZE (setf VALID_ADDR ((blankPacket r2 (st_cmd s))\<lparr>addr := curAddr (gen s), p_secure := req_isSecure r2\<rparr>)\<lparr>psize := ?n\<rparr>)"
  have new: "newPacket r2 (st_cmd s) = Inr p" using h r2' by (simp add: newPacket_def p_def Let_def setf_def)
  have fl: "pflags p = 0x300" by (simp add: p_def setf_def blankPacket_def flags_set_def)
  let ?q = "(setf STATIC_DATA p)\<lparr>data := st_data s + unat (complete (gen s)), senderState := [i]\<rparr>"
  have c: "createPacket t i s = Inr ?q"
    using r2 new fl assms(2) unfolding createPacket_def Let_def r_def [symmetric] r1_def [symmetric]
    by (simp add: dataStatic_def noneSet_def)
  have q: "pflags ?q = 0x1300" using fl by (simp add: flags_set_def)
  have sel: "psize ?q = ?n" "addr ?q = curAddr (gen s)" "req ?q = r2" "cmd ?q = st_cmd s" by (simp_all add: p_def setf_def blankPacket_def)
  have "0 < ?n" using assms(3) by (simp add: unat_gt_0)
  then have "pkt_ok ?q" unfolding pkt_ok_def isMaskedWrite_def q sel isMasked_def r2'(3) using assms(4) by (simp add: isSet_def)
  then have "plain_request ?q" unfolding plain_request_def cacheResponding_def q sel using h by (simp add: isSet_def)
  then show ?thesis using c sel r2' h(2) by (intro exI [of _ ?q]) (simp add: req_getSize_def)
qed

section \<open>An atomic transfer\<close>

text \<open>A request state in the middle of an atomic transfer: everything before the current chunk is
  acknowledged, and no packet is in flight.\<close>

definition atomic_inv :: "nat \<Rightarrow> nat \<Rightarrow> DmaPort \<Rightarrow> DmaReqState \<Rightarrow> bool" where
  "atomic_inv c i d s \<longleftrightarrow> reqStates d i = Some s \<and> c < 2 ^ 32
     \<and> gen_inv (unat (startAddr (gen s)) + unat (totBytes s)) c (gen s) \<and> startAddr (gen s) \<le> curAddr (gen s)
     \<and> curSize (gen s) \<noteq> 0 \<and> numBytes s = complete (gen s) \<and> \<not> aborted s \<and> pendingCount d = 0
     \<and> (\<forall>e. completionEvent s = Some e \<longrightarrow> devEvents d e = None)
     \<and> st_flags s = 0 \<and> st_data s \<noteq> 0 \<and> (st_sid s = None \<longrightarrow> st_ssid s = None)"

text \<open>What an atomic transfer leaves alone.\<close>

definition same_queue :: "DmaPort \<Rightarrow> DmaPort \<Rightarrow> bool" where
  "same_queue d d' \<longleftrightarrow> transmitList d' = transmitList d \<and> sendEvent d' = sendEvent d \<and> retryPending d' = retryPending d
     \<and> inRetry d' = inRetry d \<and> pendingCount d' = pendingCount d \<and> cacheLineSize d' = cacheLineSize d
     \<and> dp_requestorId d' = dp_requestorId d \<and> defaultSid d' = defaultSid d \<and> defaultSSid d' = defaultSSid d \<and> nextState d' = nextState d
     \<and> sentReqs d' = sentReqs d \<and> dp_clock d' = dp_clock d \<and> dp_period d' = dp_period d"

lemma same_queue_trans: "same_queue d d' \<Longrightarrow> same_queue d' d'' \<Longrightarrow> same_queue d d''"
  by (simp add: same_queue_def)

definition complete_at :: "Tick \<Rightarrow> DmaReqState \<Rightarrow> (nat \<Rightarrow> Tick option) \<Rightarrow> nat \<Rightarrow> Tick option" where
  "complete_at w s evs = (case completionEvent s of None \<Rightarrow> evs | Some e \<Rightarrow> evs(e := Some w))"

lemma gen_chunk_le: "gen_inv e c g \<Longrightarrow> unat (curSize g) \<le> c"
proof (cases "curSize g = 0")
  case False
  assume g: "gen_inv e c g"
  let ?a = "unat (curAddr g)" and ?n = "unat (curSize g)"
  have c: "0 < c" "?a div c = (?a + ?n - 1) div c" "0 < ?n" using g False by (auto simp: gen_inv_def unat_gt_0)
  have "?a + ?n - 1 < (?a + ?n - 1) div c * c + c" using c(1) by (metis div_mult_mod_eq mod_less_divisor nat_add_left_cancel_less)
  then have "?a + ?n - 1 < ?a div c * c + c" using c(2) by simp
  also have "\<dots> \<le> ?a + c" by (simp add: div_times_less_eq_dividend)
  finally show ?thesis using c(3) by simp
qed simp

lemma gen_next_addr: "gen_inv e c g \<Longrightarrow> nextAddr g = curAddr g + curSize g"
proof -
  assume "gen_inv e c g"
  then have "(of_nat (unat (nextAddr g)) :: Addr) = of_nat (unat (curAddr g) + unat (curSize g))" by (simp add: gen_inv_def)
  then show ?thesis by simp
qed

lemma finish_drain_sel [simp]: "reqStates (finish_drain d) = reqStates d" "devEvents (finish_drain d) = devEvents d"
  "pendingCount (finish_drain d) = pendingCount d" "same_queue d' (finish_drain d) = same_queue d' d"
  by (simp_all add: finish_drain_def same_queue_def)

lemma put_state_sel [simp]: "reqStates (put_state i s d) = (reqStates d)(i \<mapsto> s)" "devEvents (put_state i s d) = devEvents d"
  "pendingCount (put_state i s d) = pendingCount d" "same_queue d' (put_state i s d) = same_queue d' d"
  "transmitList (put_state i s d) = transmitList d"
  by (simp_all add: put_state_def same_queue_def)

lemma delete_state_sel [simp]: "reqStates (delete_state i d) = (reqStates d)(i := None)" "devEvents (delete_state i d) = devEvents d"
  "pendingCount (delete_state i d) = pendingCount d" "same_queue d' (delete_state i d) = same_queue d' d"
  "transmitList (delete_state i d) = transmitList d"
  by (simp_all add: delete_state_def same_queue_def)

text \<open>A response to a live request: the last one completes it, the others are counted.\<close>

lemma handleResp_done:
  assumes "reqStates d i = Some s" and "pendingCount d \<noteq> 0" and "\<not> aborted s" and "numBytes s + sz = totBytes s"
    and "\<And>e. completionEvent s = Some e \<Longrightarrow> devEvents d e = None"
  shows "\<exists>d1. handleResp t d i sz lat = Inr d1 \<and> reqStates d1 = (reqStates d)(i := None)
    \<and> devEvents d1 = complete_at (t + (lat + st_delay s)) s (devEvents d) \<and> same_queue (d\<lparr>pendingCount := pendingCount d - 1\<rparr>) d1"
proof (cases "completionEvent s")
  case None
  then show ?thesis using assms(1-4)
    by (simp add: handleResp_def deref_def Let_def schedule_opt_def complete_at_def) (simp add: same_queue_def put_state_def)
next
  case (Some e)
  then have e: "devEvents d e = None" using assms(5) by blast
  show ?thesis using assms(1-4) Some e
    by (simp add: handleResp_def deref_def Let_def schedule_opt_def dev_schedule_def ev_schedule_def complete_at_def)
      (simp add: same_queue_def put_state_def)
qed

lemma handleResp_part:
  assumes "reqStates d i = Some s" and "pendingCount d \<noteq> 0" and "\<not> aborted s" and "numBytes s + sz \<le> totBytes s" and "numBytes s + sz \<noteq> totBytes s"
  shows "\<exists>d1. handleResp t d i sz lat = Inr d1 \<and> reqStates d1 = (reqStates d)(i \<mapsto> s\<lparr>numBytes := numBytes s + sz\<rparr>)
    \<and> devEvents d1 = devEvents d \<and> same_queue (d\<lparr>pendingCount := pendingCount d - 1\<rparr>) d1"
  using assms by (simp add: handleResp_def deref_def Let_def) (simp add: same_queue_def)

text \<open>One chunk in atomic mode: the bookkeeping of the port around what the memory does.\<close>

lemma sendAtomicReq_step:
  assumes inv: "atomic_inv c i d s" and pkt: "createPacket t i s = Inr p" "req_getSize (req p) = Inr (unat (curSize (gen s)))" "senderState p = [i]"
    and snd: "send h w p = Inr (lat, h1, w1, q)" "answers p q"
  shows "if gen_last (gen s)
    then \<exists>d1. sendAtomicReq send t i (d, h, w) = Inr (True, (d1, h1, w1)) \<and> reqStates d1 = (reqStates d)(i := None)
      \<and> devEvents d1 = complete_at (t + (lat + st_delay s)) s (devEvents d) \<and> same_queue d d1
    else \<exists>d1 s1. sendAtomicReq send t i (d, h, w) = Inr (False, (d1, h1, w1)) \<and> atomic_inv c i d1 s1
      \<and> s1 = s\<lparr>gen := fst (gen_next (gen s)), numBytes := numBytes s1\<rparr> \<and> reqStates d1 = (reqStates d)(i \<mapsto> s1)
      \<and> devEvents d1 = devEvents d \<and> same_queue d d1"
proof -
  let ?g = "gen s" and ?n = "curSize (gen s)" and ?S = "startAddr (gen s)"
  have i: "reqStates d i = Some s" "gen_inv (unat ?S + unat (totBytes s)) c ?g" "?S \<le> curAddr ?g"
    "numBytes s = complete ?g" "\<not> aborted s" "pendingCount d = 0" "\<And>e. completionEvent s = Some e \<Longrightarrow> devEvents d e = None"
    using inv by (auto simp: atomic_inv_def)
  have nxt: "nextAddr ?g = curAddr ?g + ?n" by (rule gen_next_addr [OF i(2)])
  have num: "numBytes s + ?n = nextAddr ?g - ?S" by (simp add: i(4) complete_def nxt)
  have un: "unat (nextAddr ?g) = unat (curAddr ?g) + unat ?n" "unat (nextAddr ?g) + unat (sizeLeft ?g) = unat ?S + unat (totBytes s)"
    using i(2) by (auto simp: gen_inv_def)
  have "unat ?S \<le> unat (nextAddr ?g)" using i(3) un(1) by (simp add: word_le_nat_alt)
  then have numu: "unat (nextAddr ?g - ?S) = unat (nextAddr ?g) - unat ?S" by (simp add: unat_sub word_le_nat_alt)
  have le: "nextAddr ?g - ?S \<le> totBytes s" using un numu by (simp add: word_le_nat_alt)
  have all: "totBytes s = nextAddr ?g - ?S \<longleftrightarrow> gen_last ?g"
  proof -
    have "totBytes s = nextAddr ?g - ?S \<longleftrightarrow> unat (totBytes s) = unat (nextAddr ?g) - unat ?S" by (simp add: word_unat_eq_iff numu)
    also have "\<dots> \<longleftrightarrow> unat (sizeLeft ?g) = 0" using un \<open>unat ?S \<le> unat (nextAddr ?g)\<close> by linarith
    finally show ?thesis by (simp add: gen_last_def unat_eq_zero)
  qed
  have q: "isResponse (cmd q)" "senderState q = [i]" "getAddr q = Inr (addr p)" "req_getSize (req q) = Inr (unat ?n)"
    using snd(2) pkt(2,3) by (simp_all add: answers_def getAddr_def)
  let ?d = "put_state i (s\<lparr>gen := fst (gen_next ?g)\<rparr>) (d\<lparr>pendingCount := 1\<rparr>)"
  have send: "sendAtomicReq send t i (d, h, w) = rbind (handleResp t ?d i ?n lat) (\<lambda>d. Inr (\<not> snd (gen_next ?g), (d, h1, w1)))"
    using i(1,6) pkt(1) snd(1) q by (simp add: sendAtomicReq_def deref_def handleRespPacket_def Let_def split: prod.split)
  show ?thesis
  proof (cases "gen_last ?g")
    case True
    have "\<exists>d1. handleResp t ?d i ?n lat = Inr d1 \<and> reqStates d1 = (reqStates ?d)(i := None)
      \<and> devEvents d1 = complete_at (t + (lat + st_delay (s\<lparr>gen := fst (gen_next ?g)\<rparr>))) (s\<lparr>gen := fst (gen_next ?g)\<rparr>) (devEvents ?d)
      \<and> same_queue (?d\<lparr>pendingCount := pendingCount ?d - 1\<rparr>) d1"
      by (rule handleResp_done) (use i num all True in auto)
    then show ?thesis using True send i(6) by (auto simp: gen_next_def complete_at_def same_queue_def put_state_def)
  next
    case False
    define s1 where "s1 = s\<lparr>gen := fst (gen_next ?g), numBytes := numBytes s + ?n\<rparr>"
    have "\<exists>d1. handleResp t ?d i ?n lat = Inr d1
      \<and> reqStates d1 = (reqStates ?d)(i \<mapsto> (s\<lparr>gen := fst (gen_next ?g)\<rparr>)\<lparr>numBytes := numBytes (s\<lparr>gen := fst (gen_next ?g)\<rparr>) + ?n\<rparr>)
      \<and> devEvents d1 = devEvents ?d \<and> same_queue (?d\<lparr>pendingCount := pendingCount ?d - 1\<rparr>) d1"
      by (rule handleResp_part) (use i(1,5) num all False le in auto)
    then obtain d1 where d1: "handleResp t ?d i ?n lat = Inr d1" "reqStates d1 = (reqStates d)(i \<mapsto> s1)"
      "devEvents d1 = devEvents d" "same_queue d d1"
      using i(6) by (auto simp: s1_def same_queue_def put_state_def)
    note g = gen_next_inv [OF i(2) False]
    have gs: "startAddr (fst (gen_next ?g)) = ?S" "curSize (fst (gen_next ?g)) = nextSize ?g" using False by (simp_all add: gen_next_def Let_def)
    have "curSize (fst (gen_next ?g)) \<noteq> 0"
      using i(2) False unfolding gs gen_inv_def gen_last_def by (metis min_def unat_0_iff zero_less_iff_neq_zero)
    then have "atomic_inv c i d1 s1"
      using inv d1 g gs num i(6) \<open>unat ?S \<le> unat (nextAddr ?g)\<close>
      by (simp add: atomic_inv_def s1_def complete_def same_queue_def word_le_nat_alt)
    moreover have "\<not> \<not> snd (gen_next ?g)" using False by (simp add: gen_next_def Let_def)
    moreover have "s1 = s\<lparr>gen := fst (gen_next (gen s)), numBytes := numBytes s1\<rparr>" by (simp add: s1_def)
    ultimately show ?thesis using False send d1 by auto
  qed
qed

text \<open>The current chunk within the region of the transfer.\<close>

lemma atomic_chunk:
  assumes "atomic_inv c i d s"
  shows "unat (complete (gen s)) + unat (curSize (gen s)) \<le> unat (totBytes s)"
    and "gen_last (gen s) \<Longrightarrow> unat (complete (gen s)) + unat (curSize (gen s)) = unat (totBytes s)"
    and "curAddr (gen s) = startAddr (gen s) + of_nat (unat (complete (gen s)))"
    and "\<not> gen_last (gen s) \<Longrightarrow> unat (complete (fst (gen_next (gen s)))) = unat (complete (gen s)) + unat (curSize (gen s))"
    and "\<exists>p. createPacket t i s = Inr p \<and> plain_request p \<and> cmd p = st_cmd s \<and> addr p = curAddr (gen s) \<and> psize p = unat (curSize (gen s))
      \<and> data p = st_data s + unat (complete (gen s)) \<and> senderState p = [i] \<and> req_getSize (req p) = Inr (unat (curSize (gen s)))"
proof -
  let ?g = "gen s"
  have g: "gen_inv (unat (startAddr ?g) + unat (totBytes s)) c ?g" "startAddr ?g \<le> curAddr ?g" "c < 2 ^ 32"
    using assms by (auto simp: atomic_inv_def)
  have k: "unat (complete ?g) = unat (curAddr ?g) - unat (startAddr ?g)" using g(2) by (simp add: complete_def unat_sub)
  have u: "unat (nextAddr ?g) = unat (curAddr ?g) + unat (curSize ?g)" "unat (nextAddr ?g) + unat (sizeLeft ?g) = unat (startAddr ?g) + unat (totBytes s)"
    using g(1) by (auto simp: gen_inv_def)
  have le: "unat (startAddr ?g) \<le> unat (curAddr ?g)" using g(2) by (simp add: word_le_nat_alt)
  show "unat (complete ?g) + unat (curSize ?g) \<le> unat (totBytes s)" using k u le by linarith
  show "unat (complete ?g) + unat (curSize ?g) = unat (totBytes s)" if "gen_last ?g"
    using k u le that by (simp add: gen_last_def)
  show "curAddr ?g = startAddr ?g + of_nat (unat (complete ?g))" by (simp add: complete_def)
  show "unat (complete (fst (gen_next ?g))) = unat (complete ?g) + unat (curSize ?g)" if "\<not> gen_last ?g"
  proof -
    have "complete (fst (gen_next ?g)) = nextAddr ?g - startAddr ?g" using that by (simp add: complete_def gen_next_def Let_def)
    then show ?thesis using k u(1) le by (simp add: unat_sub word_le_nat_alt)
  qed
  have "unat (curSize ?g) < 2 ^ 32" using gen_chunk_le [OF g(1)] g(3) by simp
  then show "\<exists>p. createPacket t i s = Inr p \<and> plain_request p \<and> cmd p = st_cmd s \<and> addr p = curAddr ?g \<and> psize p = unat (curSize ?g)
      \<and> data p = st_data s + unat (complete ?g) \<and> senderState p = [i] \<and> req_getSize (req p) = Inr (unat (curSize ?g))"
    using createPacket_ok [of s t i] assms by (auto simp: atomic_inv_def)
qed

lemma gen_next_keeps: "startAddr (fst (gen_next g)) = startAddr g" by (simp add: gen_next_def Let_def)

text \<open>A port with nothing to send and nothing in flight, as a device finds it between transfers.\<close>

definition idle_port :: "nat \<Rightarrow> DmaPort \<Rightarrow> bool" where
  "idle_port k d \<longleftrightarrow> transmitList d = [] \<and> pendingCount d = 0 \<and> cacheLineSize d = 2 ^ k \<and> k < 32
     \<and> (defaultSid d = None \<longrightarrow> defaultSSid d = None)"

lemma scast_small: "unat (sz :: 32 word) < 2 ^ 31 \<Longrightarrow> scast sz = (ucast sz :: Addr)"
proof -
  assume "unat sz < 2 ^ 31"
  then have u: "uint sz < 2 ^ 31" unfolding uint_nat by (simp only: of_nat_less_numeral_power_cancel_iff)
  have l: "- (2 ^ 31) \<le> uint sz" by (rule order_trans [of _ 0]) simp_all
  have "sint sz = signed_take_bit 31 (uint sz)" using sint_uint [of sz] by simp
  also have "\<dots> = uint sz" using l u by (rule signed_take_bit_int_eq_self)
  finally show ?thesis unfolding scast_eq ucast_eq by (rule arg_cong)
qed

lemma unat_ucast_up [simp]: "unat (ucast (sz :: 32 word) :: Addr) = unat sz"
proof -
  have "unat sz < 2 ^ 64" using unsigned_less [of sz, where 'a = nat] by simp
  then show ?thesis by (simp add: unsigned_ucast_eq take_bit_nat_eq_self)
qed

lemma enqueue_atomic:
  assumes "idle_port k d" and "0 < unat sz" "unat sz < 2 ^ 31" and "dat \<noteq> 0"
    and "unat a + unat sz < 2 ^ 64" "unat a + 2 ^ k < 2 ^ 64" and "\<And>e. ev = Some e \<Longrightarrow> devEvents d e = None"
  shows "\<exists>d1 s. enqueue_request c a sz ev dat (defaultSid d) (defaultSSid d) delay 0 d = Inr d1 \<and> transmitList d1 = [nextState d]
    \<and> reqStates d1 = (reqStates d)(nextState d \<mapsto> s) \<and> devEvents d1 = devEvents d \<and> pendingCount d1 = 0
    \<and> cacheLineSize d1 = 2 ^ k \<and> defaultSid d1 = defaultSid d \<and> defaultSSid d1 = defaultSSid d
    \<and> atomic_inv (2 ^ k) (nextState d) (d1\<lparr>transmitList := []\<rparr>) s \<and> st_cmd s = c \<and> st_data s = dat \<and> completionEvent s = ev
    \<and> st_delay s = delay \<and> startAddr (gen s) = a \<and> unat (totBytes s) = unat sz \<and> complete (gen s) = 0 \<and> unat (sizeLeft (gen s)) \<le> unat sz"
proof -
  let ?T = "ucast sz :: Addr"
  have k: "k < 32" "cacheLineSize d = 2 ^ k" "pendingCount d = 0" "transmitList d = []" "defaultSid d = None \<longrightarrow> defaultSSid d = None"
    using assms(1) by (auto simp: idle_port_def)
  obtain g where g: "newChunkGenerator a ?T (2 ^ k) = Inr g" "gen_inv (unat a + unat sz) (2 ^ k) g" "curAddr g = a" "startAddr g = a"
    using newChunkGenerator_inv [of k "2 ^ k" a ?T] k(1) assms(5,6) by auto
  have "unat (curSize g) + unat (sizeLeft g) = unat sz" using g(2,3) by (auto simp: gen_inv_def)
  then have sz: "unat (sizeLeft g) \<le> unat sz" "curSize g \<noteq> 0" using g(2) assms(2) by (auto simp: gen_inv_def)
  have c: "(2 :: nat) ^ k < 2 ^ 32" using k(1) by (intro power_strict_increasing) simp_all
  show ?thesis using g sz k assms(4,7) c
    by (simp add: enqueue_request_def newDmaReqState_def scast_small [OF assms(3)] atomic_inv_def complete_def word_le_nat_alt) (simp add: put_state_def)
qed

context memory_peer
begin

lemma atomic_read_loop:
  assumes "atomic_inv c i d s" and "st_cmd s = ReadReq" and "reach w (startAddr (gen s)) (unat (totBytes s)) (st_data s)"
    and "unat (sizeLeft (gen s)) + 1 < n"
  shows "\<exists>d' w' lat. atomic_chunks n (sendAtomicReq send t i) False (d, h, w) = Some (Inr (d',
      write_bytes h (st_data s + unat (complete (gen s)))
        (map (\<lambda>j. view h w (startAddr (gen s) + of_nat j)) [unat (complete (gen s))..<unat (totBytes s)]), w'))
    \<and> reqStates d' = (reqStates d)(i := None) \<and> devEvents d' = complete_at (t + (lat + st_delay s)) s (devEvents d) \<and> same_queue d d'
    \<and> reach w' = reach w \<and> (\<forall>h. view h w' = view h w)"
  using assms
proof (induction n arbitrary: d s h w)
  case (Suc n)
  let ?S = "startAddr (gen s)" and ?k = "unat (complete (gen s))" and ?m = "unat (curSize (gen s))" and ?T = "unat (totBytes s)"
  let ?v = "\<lambda>j. view h w (?S + of_nat j)" and ?D = "st_data s"
  note ch = atomic_chunk [OF Suc.prems(1)]
  obtain p where p: "createPacket t i s = Inr p" "plain_request p" "cmd p = ReadReq" "addr p = curAddr (gen s)" "psize p = ?m"
      "data p = ?D + ?k" "senderState p = [i]" "req_getSize (req p) = Inr ?m"
    using ch(5) [of t] Suc.prems(2) by auto
  have r: "reach w (addr p) (psize p) (data p)"
    using reach_part [OF Suc.prems(3) ch(1)] p ch(3) by simp
  have map: "map (\<lambda>j. view h w (addr p + of_nat j)) [0..<psize p] = map ?v [?k..<?k + ?m]"
    by (rule nth_equalityI) (simp_all add: p ch(3) add.assoc)
  obtain lat w1 q where q: "send h w p = Inr (lat, write_bytes h (?D + ?k) (map ?v [?k..<?k + ?m]), w1, q)" "answers p q"
      "reach w1 = reach w" "\<forall>h. view h w1 = view h w"
    using send_read [OF r p(2,3), of h] unfolding map p(6) by blast
  let ?h1 = "write_bytes h (?D + ?k) (map ?v [?k..<?k + ?m])"
  note step = sendAtomicReq_step [where send = send, OF Suc.prems(1) p(1,8,7) q(1,2)]
  show ?case
  proof (cases "gen_last (gen s)")
    case True
    then have "?k + ?m = ?T" by (rule ch(2))
    moreover obtain n' where "n = Suc n'" using Suc.prems(4) by (cases n) auto
    moreover obtain d1 where "sendAtomicReq send t i (d, h, w) = Inr (True, (d1, ?h1, w1))" "reqStates d1 = (reqStates d)(i := None)"
      "devEvents d1 = complete_at (t + (lat + st_delay s)) s (devEvents d)" "same_queue d d1"
      using step True by auto
    ultimately show ?thesis using q(3,4) by (intro exI [of _ d1] exI [of _ w1] exI [of _ lat]) auto
  next
    case False
    then obtain d1 s1 where d1: "sendAtomicReq send t i (d, h, w) = Inr (False, (d1, ?h1, w1))" "atomic_inv c i d1 s1"
      "s1 = s\<lparr>gen := fst (gen_next (gen s)), numBytes := numBytes s1\<rparr>" "reqStates d1 = (reqStates d)(i \<mapsto> s1)" "devEvents d1 = devEvents d" "same_queue d d1"
      using step by auto
    have s1: "st_cmd s1 = st_cmd s" "st_data s1 = ?D" "totBytes s1 = totBytes s" "gen s1 = fst (gen_next (gen s))"
      "completionEvent s1 = completionEvent s" "st_delay s1 = st_delay s"
      by (subst d1(3), simp)+
    have k1: "unat (complete (gen s1)) = ?k + ?m" using ch(4) [OF False] s1 by simp
    have g: "startAddr (gen s1) = ?S" using s1 by (simp add: gen_next_keeps)
    have "unat (sizeLeft (gen s1)) + 1 < n"
      using gen_next_inv(3) [OF _ False] Suc.prems(1,4) s1(4) unfolding atomic_inv_def by fastforce
    then obtain d' w' lat' where IH: "atomic_chunks n (sendAtomicReq send t i) False (d1, ?h1, w1) = Some (Inr (d',
        write_bytes ?h1 (?D + (?k + ?m)) (map (\<lambda>j. view ?h1 w1 (?S + of_nat j)) [?k + ?m..<?T]), w'))"
      "reqStates d' = (reqStates d1)(i := None)" "devEvents d' = complete_at (t + (lat' + st_delay s1)) s1 (devEvents d1)" "same_queue d1 d'"
      "reach w' = reach w1" "\<forall>h. view h w' = view h w1"
      using Suc.IH [OF d1(2), of w1 ?h1] Suc.prems(2,3) unfolding q(3) s1(1-3,6) g k1 by blast
    have "view ?h1 w1 = view h w"
      using view_frame [OF r, of "map ?v [?k..<?k + ?m]" h] q(4) p by simp
    moreover have "write_bytes ?h1 (?D + (?k + ?m)) (map ?v [?k + ?m..<?T]) = write_bytes h (?D + ?k) (map ?v [?k..<?T])"
    proof -
      have "[?k..<?T] = [?k..<?k + ?m] @ [?k + ?m..<?T]" using ch(1) by (metis le_add1 le_add_diff_inverse upt_add_eq_append)
      then show ?thesis using write_bytes_append [of h "?D + ?k" "map ?v [?k..<?k + ?m]" "map ?v [?k + ?m..<?T]"] by (simp add: add.assoc)
    qed
    ultimately show ?thesis using IH d1 q(3,4) s1 same_queue_trans
      by (intro exI [of _ d'] exI [of _ w'] exI [of _ lat']) (auto simp: complete_at_def)
  qed
qed simp

lemma atomic_write_loop:
  assumes "atomic_inv c i d s" and "st_cmd s = WriteReq" and "reach w (startAddr (gen s)) (unat (totBytes s)) (st_data s)"
    and "unat (sizeLeft (gen s)) + 1 < n"
  shows "\<exists>d' h' w' lat. atomic_chunks n (sendAtomicReq send t i) False (d, h, w) = Some (Inr (d', h', w'))
    \<and> reqStates d' = (reqStates d)(i := None) \<and> devEvents d' = complete_at (t + (lat + st_delay s)) s (devEvents d) \<and> same_queue d d'
    \<and> reach w' = reach w
    \<and> (\<forall>x. view h' w' x = (if unat (startAddr (gen s)) + unat (complete (gen s)) \<le> unat x \<and> unat x < unat (startAddr (gen s)) + unat (totBytes s)
         then h (st_data s + (unat x - unat (startAddr (gen s)))) else view h w x))
    \<and> (\<forall>a n d j. reach w a n d \<and> d \<le> j \<and> j < d + n \<longrightarrow> h' j = h j)"
  using assms
proof (induction n arbitrary: d s h w)
  case (Suc n)
  let ?S = "startAddr (gen s)" and ?k = "unat (complete (gen s))" and ?m = "unat (curSize (gen s))" and ?T = "unat (totBytes s)"
  let ?D = "st_data s"
  note ch = atomic_chunk [OF Suc.prems(1)]
  obtain p where p: "createPacket t i s = Inr p" "plain_request p" "cmd p = WriteReq" "addr p = curAddr (gen s)" "psize p = ?m"
      "data p = ?D + ?k" "senderState p = [i]" "req_getSize (req p) = Inr ?m"
    using ch(5) [of t] Suc.prems(2) by auto
  have r: "reach w (addr p) (psize p) (data p)" using reach_part [OF Suc.prems(3) ch(1)] p ch(3) by simp
  have "?S \<le> curAddr (gen s)" using Suc.prems(1) by (simp add: atomic_inv_def)
  then have a: "unat (addr p) = unat ?S + ?k" by (simp add: p complete_def unat_sub word_le_nat_alt)
  obtain lat h1 w1 q where q: "send h w p = Inr (lat, h1, w1, q)" "answers p q" "reach w1 = reach w"
      "\<And>x. view h1 w1 x = (if unat ?S + ?k \<le> unat x \<and> unat x < unat ?S + ?k + ?m then h (?D + ?k + (unat x - (unat ?S + ?k))) else view h w x)"
      "\<And>a n d j. reach w a n d \<Longrightarrow> d \<le> j \<Longrightarrow> j < d + n \<Longrightarrow> h1 j = h j"
    using send_write [OF r p(2,3), of h] unfolding a p(5,6) by blast
  note step = sendAtomicReq_step [where send = send, OF Suc.prems(1) p(1,8,7) q(1,2)]
  show ?case
  proof (cases "gen_last (gen s)")
    case True
    then have "?k + ?m = ?T" by (rule ch(2))
    moreover obtain n' where n': "n = Suc n'" using Suc.prems(4) by (cases n) auto
    moreover obtain d1 where "sendAtomicReq send t i (d, h, w) = Inr (True, (d1, h1, w1))" "reqStates d1 = (reqStates d)(i := None)"
      "devEvents d1 = complete_at (t + (lat + st_delay s)) s (devEvents d)" "same_queue d d1"
      using step True by auto
    ultimately show ?thesis using q(3-5)
      by (intro exI [of _ d1] exI [of _ h1] exI [of _ w1] exI [of _ lat]) (auto simp: add.assoc)
  next
    case False
    then obtain d1 s1 where d1: "sendAtomicReq send t i (d, h, w) = Inr (False, (d1, h1, w1))" "atomic_inv c i d1 s1"
      "s1 = s\<lparr>gen := fst (gen_next (gen s)), numBytes := numBytes s1\<rparr>" "reqStates d1 = (reqStates d)(i \<mapsto> s1)" "devEvents d1 = devEvents d" "same_queue d d1"
      using step by auto
    have s1: "st_cmd s1 = st_cmd s" "st_data s1 = ?D" "totBytes s1 = totBytes s" "gen s1 = fst (gen_next (gen s))"
      "completionEvent s1 = completionEvent s" "st_delay s1 = st_delay s"
      by (subst d1(3), simp)+
    have k1: "unat (complete (gen s1)) = ?k + ?m" using ch(4) [OF False] s1 by simp
    have g: "startAddr (gen s1) = ?S" using s1 by (simp add: gen_next_keeps)
    have "unat (sizeLeft (gen s1)) + 1 < n"
      using gen_next_inv(3) [OF _ False] Suc.prems(1,4) s1(4) unfolding atomic_inv_def by fastforce
    then obtain d' h' w' lat' where IH: "atomic_chunks n (sendAtomicReq send t i) False (d1, h1, w1) = Some (Inr (d', h', w'))"
      "reqStates d' = (reqStates d1)(i := None)" "devEvents d' = complete_at (t + (lat' + st_delay s1)) s1 (devEvents d1)" "same_queue d1 d'"
      "reach w' = reach w1" "\<And>x. view h' w' x = (if unat ?S + (?k + ?m) \<le> unat x \<and> unat x < unat ?S + ?T
         then h1 (?D + (unat x - unat ?S)) else view h1 w1 x)"
      "\<And>a n d j. reach w1 a n d \<Longrightarrow> d \<le> j \<Longrightarrow> j < d + n \<Longrightarrow> h' j = h1 j"
      using Suc.IH [OF d1(2), of w1 h1] Suc.prems(2,3) unfolding q(3) s1(1-3,6) g k1 by blast
    have buf: "h1 (?D + (unat x - unat ?S)) = h (?D + (unat x - unat ?S))" if "unat ?S \<le> unat x" "unat x < unat ?S + ?T" for x :: Addr
      using q(5) [OF Suc.prems(3)] that by simp
    have "view h' w' x = (if unat ?S + ?k \<le> unat x \<and> unat x < unat ?S + ?T then h (?D + (unat x - unat ?S)) else view h w x)" for x
      using IH(6) [of x] q(4) [of x] buf [of x] ch(1) by auto
    moreover have "h' j = h j" if "reach w a n d" "d \<le> j" "j < d + n" for a n d j
      using that IH(7) q(3,5) by metis
    ultimately show ?thesis using IH(1-5) d1 q(3) s1 same_queue_trans
      by (intro exI [of _ d'] exI [of _ h'] exI [of _ w'] exI [of _ lat']) (auto simp: complete_at_def)
  qed
qed simp

lemma dmaRead_atomic:
  assumes "idle_port k d" and "0 < unat sz" "unat sz < 2 ^ 31" and "dat \<noteq> 0" and "reach w a (unat sz) dat"
    and "unat a + 2 ^ k < 2 ^ 64" and ev: "\<And>e. ev = Some e \<Longrightarrow> devEvents d e = None" and "unat sz + 3 \<le> fuel"
  shows "\<exists>d' w' lat. dmaRead fuel mode_atomic send bd t ok a sz ev dat delay (d, h, w) = Some (Inr (d',
      write_bytes h dat (map (\<lambda>j. view h w (a + of_nat j)) [0..<unat sz]), w'))
    \<and> idle_port k d' \<and> devEvents d' = (case ev of None \<Rightarrow> devEvents d | Some e \<Rightarrow> (devEvents d)(e := Some (t + (lat + delay))))
    \<and> reach w' = reach w \<and> (\<forall>h. view h w' = view h w)"
proof -
  obtain d1 s where d1: "enqueue_request ReadReq a sz ev dat (defaultSid d) (defaultSSid d) delay 0 d = Inr d1" "transmitList d1 = [nextState d]"
    "reqStates d1 = (reqStates d)(nextState d \<mapsto> s)" "devEvents d1 = devEvents d" "cacheLineSize d1 = 2 ^ k"
    "defaultSid d1 = defaultSid d" "defaultSSid d1 = defaultSSid d" "atomic_inv (2 ^ k) (nextState d) (d1\<lparr>transmitList := []\<rparr>) s"
    and s: "st_cmd s = ReadReq" "st_data s = dat" "completionEvent s = ev" "st_delay s = delay" "startAddr (gen s) = a"
    "unat (totBytes s) = unat sz" "complete (gen s) = 0" "unat (sizeLeft (gen s)) \<le> unat sz"
    using enqueue_atomic [OF assms(1-4) reach_fits [OF assms(5)] assms(6) ev, where c = ReadReq and delay = delay and ev = ev] by blast
  obtain n where n: "fuel = Suc (Suc n)" "unat (sizeLeft (gen s)) + 1 < Suc n" using assms(8) s(8) by (cases fuel; cases "fuel - 1") auto
  obtain d' w' lat where l: "atomic_chunks (Suc n) (sendAtomicReq send t (nextState d)) False (d1\<lparr>transmitList := []\<rparr>, h, w) = Some (Inr (d',
      write_bytes h dat (map (\<lambda>j. view h w (a + of_nat j)) [0..<unat sz]), w'))"
    "devEvents d' = complete_at (t + (lat + delay)) s (devEvents d)" "same_queue (d1\<lparr>transmitList := []\<rparr>) d'" "reach w' = reach w" "\<forall>h. view h w' = view h w"
    using atomic_read_loop [OF d1(8) s(1) _ n(2), of w t h] assms(5) s d1(4) by auto
  have "\<not> gen_done (gen s)" using d1(8) by (simp add: atomic_inv_def gen_done_def)
  then have "dmaRead fuel mode_atomic send bd t ok a sz ev dat delay (d, h, w) = Some (Inr (d',
      write_bytes h dat (map (\<lambda>j. view h w (a + of_nat j)) [0..<unat sz]), w'))"
    using d1 l(1,3) by (simp add: dmaRead_def dmaAction_def sendDma_def isTimingMode_def isAtomicMode_def bypassCaches_def n(1) deref_def same_queue_def
        del: atomic_chunks.simps)
  moreover have "idle_port k d'" using l(3) d1(5-8) assms(1) by (simp add: idle_port_def same_queue_def atomic_inv_def)
  ultimately show ?thesis using l s(3) by (auto simp: complete_at_def)
qed

lemma dmaWrite_atomic:
  assumes "idle_port k d" and "0 < unat sz" "unat sz < 2 ^ 31" and "dat \<noteq> 0" and "reach w a (unat sz) dat"
    and "unat a + 2 ^ k < 2 ^ 64" and ev: "\<And>e. ev = Some e \<Longrightarrow> devEvents d e = None" and "unat sz + 3 \<le> fuel"
  shows "\<exists>d' h' w' lat. dmaWrite fuel mode_atomic send bd t ok a sz ev dat delay (d, h, w) = Some (Inr (d', h', w'))
    \<and> idle_port k d' \<and> devEvents d' = (case ev of None \<Rightarrow> devEvents d | Some e \<Rightarrow> (devEvents d)(e := Some (t + (lat + delay))))
    \<and> reach w' = reach w
    \<and> (\<forall>x. view h' w' x = (if unat a \<le> unat x \<and> unat x < unat a + unat sz then h (dat + (unat x - unat a)) else view h w x))
    \<and> (\<forall>a n d j. reach w a n d \<and> d \<le> j \<and> j < d + n \<longrightarrow> h' j = h j)"
proof -
  obtain d1 s where d1: "enqueue_request WriteReq a sz ev dat (defaultSid d) (defaultSSid d) delay 0 d = Inr d1" "transmitList d1 = [nextState d]"
    "reqStates d1 = (reqStates d)(nextState d \<mapsto> s)" "devEvents d1 = devEvents d" "cacheLineSize d1 = 2 ^ k"
    "defaultSid d1 = defaultSid d" "defaultSSid d1 = defaultSSid d" "atomic_inv (2 ^ k) (nextState d) (d1\<lparr>transmitList := []\<rparr>) s"
    and s: "st_cmd s = WriteReq" "st_data s = dat" "completionEvent s = ev" "st_delay s = delay" "startAddr (gen s) = a"
    "unat (totBytes s) = unat sz" "complete (gen s) = 0" "unat (sizeLeft (gen s)) \<le> unat sz"
    using enqueue_atomic [OF assms(1-4) reach_fits [OF assms(5)] assms(6) ev, where c = WriteReq and delay = delay and ev = ev] by blast
  obtain n where n: "fuel = Suc (Suc n)" "unat (sizeLeft (gen s)) + 1 < Suc n" using assms(8) s(8) by (cases fuel; cases "fuel - 1") auto
  obtain d' h' w' lat where l: "atomic_chunks (Suc n) (sendAtomicReq send t (nextState d)) False (d1\<lparr>transmitList := []\<rparr>, h, w) = Some (Inr (d', h', w'))"
    "devEvents d' = complete_at (t + (lat + delay)) s (devEvents d)" "same_queue (d1\<lparr>transmitList := []\<rparr>) d'" "reach w' = reach w"
    "\<forall>x. view h' w' x = (if unat a \<le> unat x \<and> unat x < unat a + unat sz then h (dat + (unat x - unat a)) else view h w x)"
    "\<forall>a n d j. reach w a n d \<and> d \<le> j \<and> j < d + n \<longrightarrow> h' j = h j"
    using atomic_write_loop [OF d1(8) s(1) _ n(2), of w t h] assms(5) s d1(4) by auto
  have "\<not> gen_done (gen s)" using d1(8) by (simp add: atomic_inv_def gen_done_def)
  then have "dmaWrite fuel mode_atomic send bd t ok a sz ev dat delay (d, h, w) = Some (Inr (d', h', w'))"
    using d1 l(1,3) by (simp add: dmaWrite_def dmaAction_def sendDma_def isTimingMode_def isAtomicMode_def bypassCaches_def n(1) deref_def same_queue_def
        del: atomic_chunks.simps)
  moreover have "idle_port k d'" using l(3) d1(5-8) assms(1) by (simp add: idle_port_def same_queue_def atomic_inv_def)
  ultimately show ?thesis using l s(3) by (auto simp: complete_at_def)
qed

end

text \<open>In atomic mode a transfer of length zero sends nothing, so its completion event is never scheduled and
  its state never freed. In timing mode it sends an empty packet and completes.\<close>

lemma dma_zero_length:
  assumes "idle_port k d" and "unat a + 2 ^ k < 2 ^ 64"
  shows "\<exists>d' s. dmaRead (Suc (Suc n)) mode_atomic send bd t ok a 0 (Some e) dat delay (d, h, w) = Some (Inr (d', h, w))
    \<and> devEvents d' = devEvents d \<and> transmitList d' = [] \<and> reqStates d' (nextState d) = Some s \<and> completionEvent s = Some e"
proof -
  have k: "k < 32" "cacheLineSize d = 2 ^ k" "transmitList d = []" using assms(1) by (auto simp: idle_port_def)
  have "unat a < 2 ^ 64" using unsigned_less [of a, where 'a = nat] by simp
  then obtain g where g: "newChunkGenerator a 0 (2 ^ k) = Inr g" "gen_inv (unat a) (2 ^ k) g" "curAddr g = a"
    using newChunkGenerator_inv [of k "2 ^ k" a 0] k(1) assms(2) by auto
  then have "gen_done g" by (auto simp: gen_inv_def gen_done_def unat_eq_zero)
  then show ?thesis using g(1) k
    by (simp add: dmaRead_def dmaAction_def enqueue_request_def newDmaReqState_def sendDma_def isTimingMode_def isAtomicMode_def
        bypassCaches_def deref_def put_state_def)
qed

end
