(* ===== verification/Dma_Timing.thy ===== *)
theory Dma_Timing
  imports Dma_Port
begin

text \<open>
  The DMA port in timing mode: transfers are started, packets sent, refused and retried, and responses
  come back in any order. The theory shows that the port accounts for every byte, that no assertion of
  its handlers can fail, that it is never stuck, and that the packets of a transfer tile its region.
  Aborting transfers is left out of the runs.
\<close>

section \<open>Runs\<close>

text \<open>The port with the packets in flight. A started transfer is not empty, does not wrap around the address
  space, and has a completion event of its own; the peer holds fewer than \<open>2 ^ 32\<close> packets, and answers the
  packets it holds.\<close>

record DmaSys =
  dport :: DmaPort
  flight :: "Packet list"
  dtime :: Tick

definition new_packets :: "DmaPort \<Rightarrow> DmaPort \<Rightarrow> Packet list" where
  "new_packets d d' = drop (length (sentReqs d)) (sentReqs d')"

definition may_start :: "Addr \<Rightarrow> 32 word \<Rightarrow> nat option \<Rightarrow> nat \<Rightarrow> 32 word option \<Rightarrow> 32 word option \<Rightarrow> DmaPort \<Rightarrow> bool" where
  "may_start a sz ev dat sid ssid d \<longleftrightarrow> 0 < unat sz \<and> unat sz < 2 ^ 31 \<and> dat \<noteq> 0
     \<and> unat a + unat sz < 2 ^ 64 \<and> unat a + unat (cacheLineSize d) < 2 ^ 64 \<and> (sid = None \<longrightarrow> ssid = None)
     \<and> (\<forall>e. ev = Some e \<longrightarrow> devEvents d e = None \<and> (\<forall>i s. reqStates d i = Some s \<longrightarrow> completionEvent s \<noteq> Some e))"

definition benign :: "Packet \<Rightarrow> bool" where
  "benign q \<longleftrightarrow> req_isUncacheable (req q) \<or> \<not> (cacheResponding q \<and> \<not> hasSharers q)"

inductive dma_step :: "DmaSys \<Rightarrow> DmaSys \<Rightarrow> bool" where
  tick: "dtime x \<le> t \<Longrightarrow> (\<And>u. sendEvent (dport x) = Some u \<Longrightarrow> t \<le> u) \<Longrightarrow> dma_step x (x\<lparr>dtime := t\<rparr>)"
| start: "may_start a sz ev dat sid ssid (dport x) \<Longrightarrow> length (flight x) + 1 < 2 ^ 32
    \<Longrightarrow> dmaAction 0 mode_timing sa sab (dtime x) ok c a sz ev dat sid ssid delay 0 (dport x, h, ()) = Some (Inr (d, h', ()))
    \<Longrightarrow> dma_step x (x\<lparr>dport := d, flight := flight x @ new_packets (dport x) d\<rparr>)"
| send: "sendEvent (dport x) = Some (dtime x) \<Longrightarrow> length (flight x) + 1 < 2 ^ 32
    \<Longrightarrow> sendDma 0 mode_timing sa sab (dtime x) ok ((dport x)\<lparr>sendEvent := None\<rparr>, h, ()) = Some (Inr (d, h', ()))
    \<Longrightarrow> dma_step x (x\<lparr>dport := d, flight := flight x @ new_packets (dport x) d\<rparr>)"
| retry: "retryPending (dport x) \<Longrightarrow> length (flight x) + 1 < 2 ^ 32 \<Longrightarrow> recvReqRetry (dtime x) ok (dport x) = Inr d
    \<Longrightarrow> dma_step x (x\<lparr>dport := d, flight := flight x @ new_packets (dport x) d\<rparr>)"
| response: "flight x = ps @ p # qs \<Longrightarrow> answers p q \<Longrightarrow> benign q \<Longrightarrow> recvTimingResp (dtime x) (dport x) q = Inr (b, d)
    \<Longrightarrow> dma_step x (x\<lparr>dport := d, flight := ps @ qs\<rparr>)"
| completed: "devEvents (dport x) e = Some (dtime x) \<Longrightarrow> dma_step x (x\<lparr>dport := (dport x)\<lparr>devEvents := (devEvents (dport x))(e := None)\<rparr>\<rparr>)"

inductive dma_reachable :: "DmaSys \<Rightarrow> bool" where
  init: "k < 32 \<Longrightarrow> 0 < period \<Longrightarrow> dport x = newDmaPort rid (2 ^ k) period sid ssid \<Longrightarrow> flight x = [] \<Longrightarrow> dma_reachable x"
| step: "dma_reachable x \<Longrightarrow> dma_step x x' \<Longrightarrow> dma_reachable x'"

section \<open>The invariant\<close>

text \<open>The bytes of a transfer that are in flight, and the packets sent for it.\<close>

definition of_state :: "nat \<Rightarrow> Packet list \<Rightarrow> Packet list" where
  "of_state i ps = filter (\<lambda>p. senderState p = [i]) ps"

definition bytes_of :: "nat \<Rightarrow> Packet list \<Rightarrow> nat" where
  "bytes_of i ps = sum_list (map psize (of_state i ps))"

lemma of_state_append [simp]: "of_state i (ps @ qs) = of_state i ps @ of_state i qs"
  by (simp add: of_state_def)

lemma of_state_Cons: "of_state i (p # ps) = (if senderState p = [i] then p # of_state i ps else of_state i ps)"
  by (simp add: of_state_def)

lemma bytes_of_append [simp]: "bytes_of i (ps @ qs) = bytes_of i ps + bytes_of i qs"
  by (simp add: bytes_of_def)

lemma bytes_of_Cons [simp]: "bytes_of i (p # ps) = (if senderState p = [i] then psize p else 0) + bytes_of i ps"
  by (simp add: bytes_of_def of_state_Cons)

lemma bytes_of_Nil [simp]: "bytes_of i [] = 0" "of_state i [] = []"
  by (simp_all add: bytes_of_def of_state_def)

text \<open>The packet for the current chunk of a request.\<close>

definition packet_for :: "nat \<Rightarrow> DmaReqState \<Rightarrow> Packet \<Rightarrow> bool" where
  "packet_for i s p \<longleftrightarrow> plain_request p \<and> cmd p = st_cmd s \<and> addr p = curAddr (gen s) \<and> psize p = unat (curSize (gen s))
     \<and> data p = st_data s + unat (complete (gen s)) \<and> senderState p = [i] \<and> req_getSize (req p) = Inr (psize p)"

text \<open>What holds of a request state: \<open>c\<close> is the line size, \<open>sending\<close> says that it is in the transmit list, \<open>fl\<close>
  and \<open>sent\<close> are the packets in flight and all packets sent.\<close>

definition sent_bytes :: "bool \<Rightarrow> DmaReqState \<Rightarrow> nat" where
  "sent_bytes sending s = (if sending then unat (complete (gen s)) else unat (totBytes s))"

definition state_ok :: "nat \<Rightarrow> bool \<Rightarrow> Packet list \<Rightarrow> Packet list \<Rightarrow> nat \<Rightarrow> DmaReqState \<Rightarrow> bool" where
  "state_ok c sending fl sent i s \<longleftrightarrow> \<not> aborted s \<and> st_flags s = 0 \<and> st_data s \<noteq> 0 \<and> (st_sid s = None \<longrightarrow> st_ssid s = None)
     \<and> (sending \<longrightarrow> gen_inv (unat (startAddr (gen s)) + unat (totBytes s)) c (gen s) \<and> startAddr (gen s) \<le> curAddr (gen s) \<and> curSize (gen s) \<noteq> 0)
     \<and> (\<not> sending \<longrightarrow> 0 < bytes_of i fl)
     \<and> unat (numBytes s) + bytes_of i fl = sent_bytes sending s
     \<and> tiles c (unat (startAddr (gen s))) (map (\<lambda>p. (addr p, of_nat (psize p))) (of_state i sent)) (unat (startAddr (gen s)) + sent_bytes sending s)
     \<and> (\<forall>p \<in> set (of_state i sent). cmd p = st_cmd s \<and> data p + unat (startAddr (gen s)) = st_data s + unat (addr p))"

definition port_ok :: "nat \<Rightarrow> DmaSys \<Rightarrow> bool" where
  "port_ok c x \<longleftrightarrow> (let d = dport x in
     c < 2 ^ 32 \<and> unat (cacheLineSize d) = c \<and> (\<exists>k < 32. c = 2 ^ k) \<and> 0 < dp_period d \<and> clk_ok (dp_period d) (dtime x) (dp_clock d)
     \<and> length (flight x) < 2 ^ 32 \<and> pendingCount d = of_nat (length (flight x))
     \<and> distinct (transmitList d) \<and> (\<forall>i \<in> set (transmitList d). reqStates d i \<noteq> None)
     \<and> (\<forall>i s. reqStates d i = Some s \<longrightarrow> i < nextState d \<and> state_ok c (i \<in> set (transmitList d)) (flight x) (sentReqs d) i s)
     \<and> (\<forall>p \<in> set (flight x). \<exists>i. senderState p = [i] \<and> i < nextState d \<and> reqStates d i \<noteq> None \<and> req_getSize (req p) = Inr (psize p) \<and> 0 < psize p)
     \<and> (\<forall>p \<in> set (sentReqs d). \<forall>i. senderState p = [i] \<longrightarrow> i < nextState d)
     \<and> (\<forall>i s e. reqStates d i = Some s \<and> completionEvent s = Some e \<longrightarrow> devEvents d e = None
          \<and> (\<forall>j s'. reqStates d j = Some s' \<and> completionEvent s' = Some e \<longrightarrow> j = i)))"

definition queue_ok :: "DmaSys \<Rightarrow> bool" where
  "queue_ok x \<longleftrightarrow> (let d = dport x in
     (transmitList d = [] \<longrightarrow> sendEvent d = None \<and> \<not> retryPending d)
     \<and> (transmitList d \<noteq> [] \<longrightarrow> (sendEvent d \<noteq> None) \<noteq> retryPending d)
     \<and> (\<forall>u. sendEvent d = Some u \<longrightarrow> dtime x \<le> u)
     \<and> (retryPending d \<longleftrightarrow> inRetry d \<noteq> None)
     \<and> (\<forall>p. inRetry d = Some p \<longrightarrow> (\<exists>s. reqStates d (hd (transmitList d)) = Some s \<and> packet_for (hd (transmitList d)) s p)))"

lemma tiles_snoc: "tiles c a (cs @ [(y, l)]) e \<longleftrightarrow> tiles c a cs (unat y) \<and> 0 < unat l \<and> unat y div c = (unat y + unat l - 1) div c \<and> e = unat y + unat l"
proof (induction cs arbitrary: a)
  case (Cons z cs)
  then show ?case by (cases z) auto
qed auto

section \<open>Sending\<close>

lemma gen_complete:
  assumes "gen_inv (unat (startAddr g) + n) c g" and "startAddr g \<le> curAddr g"
  shows "unat (complete g) = unat (curAddr g) - unat (startAddr g)" and "unat (startAddr g) + unat (complete g) = unat (curAddr g)"
    and "gen_last g \<Longrightarrow> unat (complete g) + unat (curSize g) = n"
    and "\<not> gen_last g \<Longrightarrow> unat (complete (fst (gen_next g))) = unat (complete g) + unat (curSize g)"
    and "\<not> gen_last g \<Longrightarrow> startAddr g \<le> curAddr (fst (gen_next g)) \<and> curSize (fst (gen_next g)) \<noteq> 0"
proof -
  have le: "unat (startAddr g) \<le> unat (curAddr g)" using assms(2) by (simp add: word_le_nat_alt)
  have u: "unat (nextAddr g) = unat (curAddr g) + unat (curSize g)" "unat (nextAddr g) + unat (sizeLeft g) = unat (startAddr g) + n"
    "unat (nextSize g) = min (unat (sizeLeft g)) c" "0 < c"
    using assms(1) by (auto simp: gen_inv_def)
  show k: "unat (complete g) = unat (curAddr g) - unat (startAddr g)" using assms(2) by (simp add: complete_def unat_sub)
  then show "unat (startAddr g) + unat (complete g) = unat (curAddr g)" using le by simp
  show "unat (complete g) + unat (curSize g) = n" if "gen_last g" using k u le that by (simp add: gen_last_def)
  assume last: "\<not> gen_last g"
  then have g: "complete (fst (gen_next g)) = nextAddr g - startAddr g" "curAddr (fst (gen_next g)) = nextAddr g" "curSize (fst (gen_next g)) = nextSize g"
    by (simp_all add: complete_def gen_next_def Let_def)
  show "unat (complete (fst (gen_next g))) = unat (complete g) + unat (curSize g)" using g k u(1) le by (simp add: unat_sub word_le_nat_alt)
  have "unat (nextSize g) \<noteq> 0" using u(3,4) last by (simp add: gen_last_def unat_gt_0)
  then show "startAddr g \<le> curAddr (fst (gen_next g)) \<and> curSize (fst (gen_next g)) \<noteq> 0"
    using g u(1) le by (auto simp: word_le_nat_alt)
qed

lemma state_packet:
  assumes "state_ok c True fl sent i s" and "c < 2 ^ 32"
  shows "\<exists>p. createPacket t i s = Inr p \<and> packet_for i s p"
proof -
  have "unat (curSize (gen s)) < 2 ^ 32" using gen_chunk_le [of _ c "gen s"] assms by (fastforce simp: state_ok_def)
  then show ?thesis using createPacket_ok [of s t i] assms(1) unfolding packet_for_def state_ok_def by auto
qed

text \<open>The state of a request after its current packet has been sent.\<close>

lemma state_ok_sent:
  assumes s: "state_ok c True fl sent i s" and p: "packet_for i s p"
  defines "s' \<equiv> s\<lparr>gen := fst (gen_next (gen s))\<rparr>"
  shows "state_ok c (\<not> gen_last (gen s)) (fl @ [p]) (sent @ [p]) i s'"
proof -
  let ?g = "gen s" and ?sd = "\<not> gen_last (gen s)"
  have g: "gen_inv (unat (startAddr ?g) + unat (totBytes s)) c ?g" "startAddr ?g \<le> curAddr ?g" "curSize ?g \<noteq> 0"
    and num: "unat (numBytes s) + bytes_of i fl = unat (complete ?g)"
    and tl: "tiles c (unat (startAddr ?g)) (map (\<lambda>p. (addr p, of_nat (psize p))) (of_state i sent)) (unat (startAddr ?g) + unat (complete ?g))"
    and dat: "\<forall>p \<in> set (of_state i sent). cmd p = st_cmd s \<and> data p + unat (startAddr ?g) = st_data s + unat (addr p)"
    using s by (auto simp: state_ok_def sent_bytes_def)
  note gc = gen_complete [OF g(1,2)]
  have p': "senderState p = [i]" "psize p = unat (curSize ?g)" "addr p = curAddr ?g" "cmd p = st_cmd s" "data p = st_data s + unat (complete ?g)"
    using p by (auto simp: packet_for_def)
  have sb: "sent_bytes ?sd s' = unat (complete ?g) + unat (curSize ?g)" using gc(3,4) by (simp add: sent_bytes_def s'_def)
  have S: "startAddr (gen s') = startAddr ?g" by (simp add: s'_def gen_next_keeps)
  have "unat (curAddr ?g) div c = (unat (curAddr ?g) + unat (curSize ?g) - 1) div c" using g(1,3) by (simp add: gen_inv_def)
  then have "tiles c (unat (startAddr ?g)) (map (\<lambda>p. (addr p, of_nat (psize p))) (of_state i (sent @ [p]))) (unat (startAddr ?g) + sent_bytes ?sd s')"
    using tl g(3) gc(2) p' by (simp add: of_state_Cons tiles_snoc sb unat_gt_0)
  moreover have "\<forall>p \<in> set (of_state i (sent @ [p])). cmd p = st_cmd s \<and> data p + unat (startAddr ?g) = st_data s + unat (addr p)"
    using dat p' gc(2) by (auto simp: of_state_Cons)
  moreover have "gen_inv (unat (startAddr ?g) + unat (totBytes s)) c (gen s')" if ?sd using gen_next_inv(1) [OF g(1) that] by (simp add: s'_def)
  moreover have "unat (numBytes s) + bytes_of i (fl @ [p]) = sent_bytes ?sd s'" using num p' sb by simp
  moreover have "0 < bytes_of i (fl @ [p])" using p' g(3) by (simp add: unat_gt_0)
  ultimately show ?thesis using s gc(5) S unfolding state_ok_def by (auto simp: s'_def)
qed

lemma state_ok_other:
  "senderState p \<noteq> [j] \<Longrightarrow> state_ok c b (fl @ [p]) (sent @ [p]) j s = state_ok c b fl sent j s"
  by (simp add: state_ok_def of_state_Cons)

lemma clockEdge_later:
  assumes "0 < period" and "clk_ok period t c" and "clockEdge period t c 1 = (w, c')"
  shows "t \<le> w \<and> clk_ok period t c'"
  using clk_update_ok [OF assms(1,2)] assms(3) by (auto simp: clockEdge_def Let_def)

lemma port_okD:
  assumes "port_ok c x"
  shows "c < 2 ^ 32" "unat (cacheLineSize (dport x)) = c" "\<exists>k < 32. c = 2 ^ k" "0 < dp_period (dport x)"
    "clk_ok (dp_period (dport x)) (dtime x) (dp_clock (dport x))" "length (flight x) < 2 ^ 32"
    "pendingCount (dport x) = of_nat (length (flight x))" "distinct (transmitList (dport x))"
    "i \<in> set (transmitList (dport x)) \<Longrightarrow> reqStates (dport x) i \<noteq> None"
    "reqStates (dport x) i = Some s \<Longrightarrow> i < nextState (dport x)"
    "reqStates (dport x) i = Some s \<Longrightarrow> state_ok c (i \<in> set (transmitList (dport x))) (flight x) (sentReqs (dport x)) i s"
    "p \<in> set (flight x) \<Longrightarrow> \<exists>i. senderState p = [i] \<and> i < nextState (dport x) \<and> reqStates (dport x) i \<noteq> None
        \<and> req_getSize (req p) = Inr (psize p) \<and> 0 < psize p"
    "p \<in> set (sentReqs (dport x)) \<Longrightarrow> senderState p = [i] \<Longrightarrow> i < nextState (dport x)"
    "reqStates (dport x) i = Some s \<Longrightarrow> completionEvent s = Some e \<Longrightarrow> devEvents (dport x) e = None"
    "reqStates (dport x) i = Some s \<Longrightarrow> completionEvent s = Some e \<Longrightarrow> reqStates (dport x) j = Some s' \<Longrightarrow> completionEvent s' = Some e \<Longrightarrow> j = i"
  using assms unfolding port_ok_def Let_def by blast+

lemma port_ok_cong:
  assumes "cacheLineSize (dport y) = cacheLineSize (dport x)" "dp_period (dport y) = dp_period (dport x)" "dp_clock (dport y) = dp_clock (dport x)"
    "dtime y = dtime x" "flight y = flight x" "pendingCount (dport y) = pendingCount (dport x)" "transmitList (dport y) = transmitList (dport x)"
    "reqStates (dport y) = reqStates (dport x)" "nextState (dport y) = nextState (dport x)" "sentReqs (dport y) = sentReqs (dport x)"
    "devEvents (dport y) = devEvents (dport x)"
  shows "port_ok c y = port_ok c x"
  unfolding port_ok_def Let_def assms ..

text \<open>What the port looks like after an attempt to send, whether or not the peer has accepted.\<close>

lemma trySend_result:
  assumes "port_ok c x" and tl: "transmitList (dport x) = i # rest" and "sendEvent (dport x) = None" and "\<not> retryPending (dport x)"
    and "\<And>p. inRetry (dport x) = Some p \<Longrightarrow> \<exists>s. reqStates (dport x) i = Some s \<and> packet_for i s p"
  shows "\<exists>s p d'. trySendTimingReq (dtime x) ok (dport x) = Inr d' \<and> reqStates (dport x) i = Some s \<and> packet_for i s p
    \<and> (if ok then \<exists>u ck. d' = (dport x)\<lparr>inRetry := None, pendingCount := pendingCount (dport x) + 1, sentReqs := sentReqs (dport x) @ [p],
          reqStates := (reqStates (dport x))(i \<mapsto> s\<lparr>gen := fst (gen_next (gen s))\<rparr>),
          transmitList := (if gen_last (gen s) then rest else i # rest),
          dp_clock := ck, sendEvent := (if gen_last (gen s) \<and> rest = [] then None else Some u)\<rparr>
          \<and> dtime x \<le> u \<and> clk_ok (dp_period (dport x)) (dtime x) ck
       else d' = (dport x)\<lparr>inRetry := Some p, retryPending := True\<rparr>)"
proof -
  let ?d = "dport x"
  obtain s where s: "reqStates ?d i = Some s" using port_okD(9) [OF assms(1), of i] tl by auto
  have so: "state_ok c True (flight x) (sentReqs ?d) i s" using port_okD(11) [OF assms(1) s] tl by simp
  note c = port_okD(1,4,5) [OF assms(1)]
  obtain p where p: "(case inRetry ?d of Some pkt \<Rightarrow> Inr pkt | None \<Rightarrow> createPacket (dtime x) i s) = Inr p" "packet_for i s p"
    using state_packet [OF so c(1)] assms(5) s by (cases "inRetry ?d") auto
  obtain u ck where ck: "clockEdge (dp_period ?d) (dtime x) (dp_clock ?d) 1 = (u, ck)" by (cases "clockEdge (dp_period ?d) (dtime x) (dp_clock ?d) 1")
  note later = clockEdge_later [OF c(2,3) ck]
  have id: "?d\<lparr>inRetry := None, pendingCount := v, sentReqs := a, reqStates := b, transmitList := e, dp_clock := dp_clock ?d, sendEvent := None\<rparr>
      = ?d\<lparr>inRetry := None, pendingCount := v, sentReqs := a, reqStates := b, transmitList := e\<rparr>" for v a b e
    using assms(3) by (cases ?d) simp
  show ?thesis
  proof (cases ok)
    case False
    then show ?thesis using s p tl by (intro exI [of _ s] exI [of _ p]) (simp add: trySendTimingReq_def deref_def Let_def)
  next
    case True
    have att: "trySendTimingReq (dtime x) ok ?d =
      (let d = ?d\<lparr>inRetry := None, pendingCount := pendingCount ?d + 1, sentReqs := sentReqs ?d @ [p],
             reqStates := (reqStates ?d)(i \<mapsto> s\<lparr>gen := fst (gen_next (gen s))\<rparr>), transmitList := (if gen_last (gen s) then rest else i # rest)\<rparr>
       in Inr (if gen_last (gen s) \<and> rest = [] then d else d\<lparr>dp_clock := ck, sendEvent := Some u\<rparr>))"
      using s p(1) tl True assms(3,4) ck later
      by (cases ?d) (auto simp: trySendTimingReq_def deref_def Let_def put_state_def ev_schedule_def)
    show ?thesis
    proof (cases "gen_last (gen s) \<and> rest = []")
      case True
      then show ?thesis using att s p(2) \<open>ok\<close> c(3) id
        by (intro exI [of _ s] exI [of _ p]) (auto intro!: exI [of _ "dtime x"] exI [of _ "dp_clock ?d"])
    next
      case False
      then show ?thesis using att s p(2) \<open>ok\<close> later
        by (intro exI [of _ s] exI [of _ p]) (auto intro!: exI [of _ u] exI [of _ ck])
    qed
  qed
qed

lemma trySend_ok:
  assumes inv: "port_ok c x" and tl: "transmitList (dport x) = i # rest" and ev: "sendEvent (dport x) = None" and rp: "\<not> retryPending (dport x)"
    and ir: "\<And>p. inRetry (dport x) = Some p \<Longrightarrow> \<exists>s. reqStates (dport x) i = Some s \<and> packet_for i s p"
    and small: "length (flight x) + 1 < 2 ^ 32"
  shows "\<exists>d'. trySendTimingReq (dtime x) ok (dport x) = Inr d' \<and> length (new_packets (dport x) d') = (if ok then 1 else 0)
    \<and> port_ok c (x\<lparr>dport := d', flight := flight x @ new_packets (dport x) d'\<rparr>)
    \<and> queue_ok (x\<lparr>dport := d', flight := flight x @ new_packets (dport x) d'\<rparr>)"
proof -
  let ?d = "dport x"
  obtain s p d' where d': "trySendTimingReq (dtime x) ok ?d = Inr d'" and s: "reqStates ?d i = Some s" and p: "packet_for i s p"
    and r: "if ok then \<exists>u ck. d' = ?d\<lparr>inRetry := None, pendingCount := pendingCount ?d + 1, sentReqs := sentReqs ?d @ [p],
          reqStates := (reqStates ?d)(i \<mapsto> s\<lparr>gen := fst (gen_next (gen s))\<rparr>),
          transmitList := (if gen_last (gen s) then rest else i # rest),
          dp_clock := ck, sendEvent := (if gen_last (gen s) \<and> rest = [] then None else Some u)\<rparr>
          \<and> dtime x \<le> u \<and> clk_ok (dp_period ?d) (dtime x) ck
       else d' = ?d\<lparr>inRetry := Some p, retryPending := True\<rparr>"
    using trySend_result [OF inv tl ev rp ir, of ok] by blast
  show ?thesis
  proof (cases ok)
    case False
    then have e: "d' = ?d\<lparr>inRetry := Some p, retryPending := True\<rparr>" "new_packets ?d d' = []" using r by (auto simp: new_packets_def)
    have "port_ok c (x\<lparr>dport := d', flight := flight x @ new_packets ?d d'\<rparr>) = port_ok c x"
      by (rule port_ok_cong) (use e in simp_all)
    moreover have "queue_ok (x\<lparr>dport := d', flight := flight x @ new_packets ?d d'\<rparr>)" using e tl ev s p by (simp add: queue_ok_def Let_def)
    ultimately show ?thesis using d' e(2) False inv by simp
  next
    case True
    then obtain u ck where e: "d' = ?d\<lparr>inRetry := None, pendingCount := pendingCount ?d + 1, sentReqs := sentReqs ?d @ [p],
          reqStates := (reqStates ?d)(i \<mapsto> s\<lparr>gen := fst (gen_next (gen s))\<rparr>),
          transmitList := (if gen_last (gen s) then rest else i # rest),
          dp_clock := ck, sendEvent := (if gen_last (gen s) \<and> rest = [] then None else Some u)\<rparr>"
      and u: "dtime x \<le> u" "clk_ok (dp_period ?d) (dtime x) ck" using r by auto
    have np: "new_packets ?d d' = [p]" by (simp add: e new_packets_def)
    have si: "senderState p = [i]" "req_getSize (req p) = Inr (psize p)" "0 < psize p"
      using p by (auto simp: packet_for_def plain_request_def pkt_ok_def)
    have sok: "state_ok c True (flight x) (sentReqs ?d) i s" using port_okD(11) [OF inv s] tl by simp
    have dist: "i \<notin> set rest" "distinct rest" using port_okD(8) [OF inv] tl by auto
    let ?x = "x\<lparr>dport := d', flight := flight x @ [p]\<rparr>"
    have st: "j < nextState d' \<and> state_ok c (j \<in> set (transmitList d')) (flight x @ [p]) (sentReqs d') j s'" if j: "reqStates d' j = Some s'" for j s'
    proof (cases "j = i")
      case True
      then have "s' = s\<lparr>gen := fst (gen_next (gen s))\<rparr>" "(j \<in> set (transmitList d')) = (\<not> gen_last (gen s))" using j dist by (auto simp: e)
      then show ?thesis using state_ok_sent [OF sok p] True port_okD(10) [OF inv s] by (simp add: e)
    next
      case False
      then have j': "reqStates ?d j = Some s'" and m: "(j \<in> set (transmitList d')) = (j \<in> set (transmitList ?d))" using j tl by (auto simp: e)
      show ?thesis using port_okD(10,11) [OF inv j'] False si(1) m by (simp add: e state_ok_other)
    qed
    have fl: "\<exists>j. senderState q = [j] \<and> j < nextState d' \<and> reqStates d' j \<noteq> None \<and> req_getSize (req q) = Inr (psize q) \<and> 0 < psize q"
      if q: "q \<in> set (flight x @ [p])" for q
    proof (cases "q = p")
      case True
      then show ?thesis using si port_okD(10) [OF inv s] by (simp add: e)
    next
      case False
      then obtain j where "senderState q = [j]" "j < nextState ?d" "reqStates ?d j \<noteq> None" "req_getSize (req q) = Inr (psize q)" "0 < psize q"
        using q port_okD(12) [OF inv, of q] by auto
      then show ?thesis by (intro exI [of _ j]) (simp add: e)
    qed
    have co: "devEvents d' e' = None \<and> (\<forall>k t. reqStates d' k = Some t \<and> completionEvent t = Some e' \<longrightarrow> k = j)"
      if jt: "reqStates d' j = Some t'" "completionEvent t' = Some e'" for j t' e'
    proof -
      have *: "\<exists>t. reqStates ?d k = Some t \<and> completionEvent t = completionEvent t'" if "reqStates d' k = Some t'" for k t'
        using that s by (auto simp: e split: if_splits)
      obtain t0 where t0: "reqStates ?d j = Some t0" "completionEvent t0 = Some e'" using * [OF jt(1)] jt(2) by auto
      have "k = j" if "reqStates d' k = Some t" "completionEvent t = Some e'" for k t
        using * [OF that(1)] that(2) port_okD(15) [OF inv t0] by auto
      then show ?thesis using port_okD(14) [OF inv t0] by (auto simp: e)
    qed
    have sq: "\<forall>q \<in> set (sentReqs d'). \<forall>j. senderState q = [j] \<longrightarrow> j < nextState d'"
      using port_okD(13) [OF inv] si(1) port_okD(10) [OF inv s] by (auto simp: e)
    have tl': "\<forall>j \<in> set (transmitList d'). reqStates d' j \<noteq> None" "distinct (transmitList d')"
      using port_okD(9) [OF inv] tl dist by (auto simp: e)
    have f: "dport ?x = d'" "flight ?x = flight x @ [p]" "dtime ?x = dtime x" "cacheLineSize d' = cacheLineSize ?d" "dp_period d' = dp_period ?d"
      "dp_clock d' = ck" "pendingCount d' = of_nat (length (flight x @ [p]))"
      using port_okD(7) [OF inv] by (simp_all add: e)
    have "length (flight x @ [p]) < 2 ^ 32" using small by simp
    then have "port_ok c ?x"
      unfolding port_ok_def Let_def f using port_okD(1-4) [OF inv] u(2) st fl co sq tl' by blast
    moreover have "queue_ok ?x" using u(1) rp by (auto simp: queue_ok_def Let_def e)
    ultimately show ?thesis using d' True np by simp
  qed
qed

section \<open>Responses\<close>

lemma sending_less:
  assumes "state_ok c True fl sent i s"
  shows "sent_bytes True s < unat (totBytes s)"
proof -
  have g: "gen_inv (unat (startAddr (gen s)) + unat (totBytes s)) c (gen s)" "startAddr (gen s) \<le> curAddr (gen s)" "curSize (gen s) \<noteq> 0"
    using assms by (auto simp: state_ok_def)
  have "unat (curAddr (gen s)) + unat (curSize (gen s)) \<le> unat (startAddr (gen s)) + unat (totBytes s)" using g(1) by (auto simp: gen_inv_def)
  moreover have "0 < unat (curSize (gen s))" using g(3) by (simp add: unat_gt_0)
  ultimately show ?thesis using gen_complete(2) [OF g(1,2)] by (simp add: sent_bytes_def)
qed

text \<open>The response to a packet in flight is accepted; it completes its transfer exactly when the transfer
  has been sent in full and no other packet of it is in flight.\<close>

lemma response_ok:
  assumes inv: "port_ok c x" and fl: "flight x = ps @ p # qs" and q: "answers p q" "benign q"
  shows "\<exists>d' i s. recvTimingResp (dtime x) (dport x) q = Inr (True, d') \<and> senderState p = [i] \<and> reqStates (dport x) i = Some s
    \<and> same_queue ((dport x)\<lparr>pendingCount := pendingCount (dport x) - 1\<rparr>) d'
    \<and> (if i \<notin> set (transmitList (dport x)) \<and> bytes_of i (ps @ qs) = 0
       then reqStates d' = (reqStates (dport x))(i := None) \<and> devEvents d' = complete_at (dtime x + st_delay s) s (devEvents (dport x))
       else reqStates d' = (reqStates (dport x))(i \<mapsto> s\<lparr>numBytes := numBytes s + of_nat (psize p)\<rparr>) \<and> devEvents d' = devEvents (dport x)
         \<and> unat (numBytes s + of_nat (psize p)) = unat (numBytes s) + psize p)"
proof -
  let ?d = "dport x"
  obtain i where i: "senderState p = [i]" "reqStates ?d i \<noteq> None" "req_getSize (req p) = Inr (psize p)" "0 < psize p"
    using port_okD(12) [OF inv, of p] fl by auto
  then obtain s where s: "reqStates ?d i = Some s" by auto
  let ?b = "i \<in> set (transmitList ?d)" and ?n = "of_nat (psize p) :: Addr"
  have so: "state_ok c ?b (flight x) (sentReqs ?d) i s" by (rule port_okD(11) [OF inv s])
  have num: "unat (numBytes s) + psize p + bytes_of i (ps @ qs) = sent_bytes ?b s"
    using so i(1) fl by (simp add: state_ok_def)
  have le: "sent_bytes ?b s \<le> unat (totBytes s)" and lt: "?b \<Longrightarrow> sent_bytes ?b s < unat (totBytes s)"
    using sending_less [of c "flight x" "sentReqs ?d" i s] so by (cases ?b; simp add: sent_bytes_def)+
  have small: "unat (numBytes s) + psize p < 2 ^ 64" using num le unsigned_less [of "totBytes s", where 'a = nat] by simp
  then have sum: "unat (numBytes s + ?n) = unat (numBytes s) + psize p" by (simp add: unat_add_small unat_of_nat)
  have pend: "pendingCount ?d \<noteq> 0"
  proof -
    have "unat (pendingCount ?d) = length (flight x)" using port_okD(6,7) [OF inv] by (simp add: unat_of_nat)
    then show ?thesis using fl by auto
  qed
  have rq: "recvTimingResp (dtime x) ?d q = rbind (handleResp (dtime x) ?d i ?n 0) (\<lambda>d. Inr (True, d))"
    using q i by (simp add: recvTimingResp_def benign_def handleRespPacket_def answers_def getAddr_def)
  have na: "\<not> aborted s" using so by (simp add: state_ok_def)
  show ?thesis
  proof (cases "\<not> ?b \<and> bytes_of i (ps @ qs) = 0")
    case True
    then have "numBytes s + ?n = totBytes s" using num sum by (simp add: word_unat_eq_iff sent_bytes_def)
    then obtain d1 where "handleResp (dtime x) ?d i ?n 0 = Inr d1" "reqStates d1 = (reqStates ?d)(i := None)"
      "devEvents d1 = complete_at (dtime x + (0 + st_delay s)) s (devEvents ?d)" "same_queue (?d\<lparr>pendingCount := pendingCount ?d - 1\<rparr>) d1"
      using handleResp_done [OF s pend na, of ?n "dtime x" 0] port_okD(14) [OF inv s] by blast
    then show ?thesis using True rq i(1) s by (intro exI [of _ d1] exI [of _ i] exI [of _ s]) simp
  next
    case False
    have "unat (numBytes s) + psize p < unat (totBytes s)" using num le lt False by (cases ?b) (auto simp: sent_bytes_def)
    then have "numBytes s + ?n \<le> totBytes s" "numBytes s + ?n \<noteq> totBytes s" using sum by (auto simp: word_le_nat_alt)
    then obtain d1 where "handleResp (dtime x) ?d i ?n 0 = Inr d1" "reqStates d1 = (reqStates ?d)(i \<mapsto> s\<lparr>numBytes := numBytes s + ?n\<rparr>)"
      "devEvents d1 = devEvents ?d" "same_queue (?d\<lparr>pendingCount := pendingCount ?d - 1\<rparr>) d1"
      using handleResp_part [OF s pend na, of ?n "dtime x" 0] by blast
    then show ?thesis using False rq i(1) s sum by (intro exI [of _ d1] exI [of _ i] exI [of _ s]) auto
  qed
qed

lemma state_ok_acked:
  assumes "state_ok c b (ps @ p # qs) sent i s" and "senderState p = [i]" and "b \<or> bytes_of i (ps @ qs) \<noteq> 0"
    and "unat (numBytes s + of_nat (psize p)) = unat (numBytes s) + psize p"
  shows "state_ok c b (ps @ qs) sent i (s\<lparr>numBytes := numBytes s + of_nat (psize p)\<rparr>)"
  using assms by (auto simp: state_ok_def sent_bytes_def)

lemma state_ok_not_acked:
  "senderState p \<noteq> [j] \<Longrightarrow> state_ok c b (ps @ p # qs) sent j s = state_ok c b (ps @ qs) sent j s"
  by (simp add: state_ok_def)

lemma packet_for_numBytes [simp]: "packet_for i (s\<lparr>numBytes := n\<rparr>) p = packet_for i s p"
  by (simp add: packet_for_def)

lemma bytes_of_pos: "p \<in> set ps \<Longrightarrow> senderState p = [i] \<Longrightarrow> 0 < psize p \<Longrightarrow> 0 < bytes_of i ps"
  by (induction ps) auto

lemma response_inv:
  assumes inv: "port_ok c x" and qok: "queue_ok x" and fl: "flight x = ps @ p # qs" and q: "answers p q" "benign q"
    and r: "recvTimingResp (dtime x) (dport x) q = Inr (b, d')"
  shows "port_ok c (x\<lparr>dport := d', flight := ps @ qs\<rparr>) \<and> queue_ok (x\<lparr>dport := d', flight := ps @ qs\<rparr>)"
proof -
  let ?d = "dport x"
  obtain i s where i: "senderState p = [i]" and s: "reqStates ?d i = Some s" and sq: "same_queue (?d\<lparr>pendingCount := pendingCount ?d - 1\<rparr>) d'"
    and upd: "if i \<notin> set (transmitList ?d) \<and> bytes_of i (ps @ qs) = 0
       then reqStates d' = (reqStates ?d)(i := None) \<and> devEvents d' = complete_at (dtime x + st_delay s) s (devEvents ?d)
       else reqStates d' = (reqStates ?d)(i \<mapsto> s\<lparr>numBytes := numBytes s + of_nat (psize p)\<rparr>) \<and> devEvents d' = devEvents ?d
         \<and> unat (numBytes s + of_nat (psize p)) = unat (numBytes s) + psize p"
    using response_ok [OF inv fl q] r by auto
  let ?done = "i \<notin> set (transmitList ?d) \<and> bytes_of i (ps @ qs) = 0"
  let ?s = "s\<lparr>numBytes := numBytes s + of_nat (psize p)\<rparr>" and ?x = "x\<lparr>dport := d', flight := ps @ qs\<rparr>"
  have f: "cacheLineSize d' = cacheLineSize ?d" "dp_period d' = dp_period ?d" "dp_clock d' = dp_clock ?d" "pendingCount d' = pendingCount ?d - 1"
    "transmitList d' = transmitList ?d" "nextState d' = nextState ?d" "sentReqs d' = sentReqs ?d"
    "sendEvent d' = sendEvent ?d" "retryPending d' = retryPending ?d" "inRetry d' = inRetry ?d"
    using sq by (simp_all add: same_queue_def)
  have pre: "\<exists>s0. reqStates ?d j = Some s0 \<and> completionEvent s0 = completionEvent s' \<and> (j = i \<longrightarrow> \<not> ?done \<and> s' = ?s) \<and> (j \<noteq> i \<longrightarrow> s' = s0)"
    if "reqStates d' j = Some s'" for j s'
    using that upd s by (cases ?done; cases "j = i") auto
  have keep: "reqStates d' j \<noteq> None" if "reqStates ?d j \<noteq> None" "\<not> (?done \<and> j = i)" for j
    using that upd by (cases ?done) auto
  have len: "length (ps @ qs) < 2 ^ 32" "pendingCount d' = of_nat (length (ps @ qs))" using port_okD(6,7) [OF inv] fl f(4) by simp_all
  have st: "j < nextState ?d \<and> state_ok c (j \<in> set (transmitList ?d)) (ps @ qs) (sentReqs ?d) j s'" if j: "reqStates d' j = Some s'" for j s'
  proof (cases "j = i")
    case True
    then have nd: "\<not> ?done" "s' = ?s" using pre [OF j] by auto
    then have un: "unat (numBytes s + of_nat (psize p)) = unat (numBytes s) + psize p" using upd by auto
    show ?thesis using state_ok_acked [OF port_okD(11) [OF inv s, unfolded fl] i _ un] port_okD(10) [OF inv s] nd True by auto
  next
    case False
    then have j': "reqStates ?d j = Some s'" using pre [OF j] by auto
    show ?thesis using port_okD(11) [OF inv j', unfolded fl] port_okD(10) [OF inv j'] state_ok_not_acked [of p j] i False by auto
  qed
  have fl': "\<exists>j. senderState r = [j] \<and> j < nextState ?d \<and> reqStates d' j \<noteq> None \<and> req_getSize (req r) = Inr (psize r) \<and> 0 < psize r"
    if r: "r \<in> set (ps @ qs)" for r
  proof -
    obtain j where j: "senderState r = [j]" "j < nextState ?d" "reqStates ?d j \<noteq> None" "req_getSize (req r) = Inr (psize r)" "0 < psize r"
      using r port_okD(12) [OF inv, of r] fl by auto
    have "\<not> (?done \<and> j = i)" using bytes_of_pos [OF r j(1,5)] by auto
    then show ?thesis using j keep by blast
  qed
  have co: "devEvents d' e = None \<and> (\<forall>k t. reqStates d' k = Some t \<and> completionEvent t = Some e \<longrightarrow> k = j)"
    if jt: "reqStates d' j = Some t" "completionEvent t = Some e" for j t e
  proof -
    obtain t0 where t0: "reqStates ?d j = Some t0" "completionEvent t0 = Some e" and ji: "j = i \<longrightarrow> \<not> ?done" using pre [OF jt(1)] jt(2) by auto
    have "k = j" if "reqStates d' k = Some t'" "completionEvent t' = Some e" for k t'
      using pre [OF that(1)] that(2) port_okD(15) [OF inv t0] by auto
    moreover have "devEvents d' e = devEvents ?d e"
    proof (cases ?done)
      case True
      then have "completionEvent s \<noteq> Some e" using port_okD(15) [OF inv t0 s] ji by auto
      then show ?thesis using True upd by (auto simp: complete_at_def split: option.split)
    qed (use upd in auto)
    ultimately show ?thesis using port_okD(14) [OF inv t0] by auto
  qed
  have tl: "\<forall>j \<in> set (transmitList ?d). reqStates d' j \<noteq> None" using port_okD(9) [OF inv] keep by blast
  have sq': "\<forall>q \<in> set (sentReqs ?d). \<forall>j. senderState q = [j] \<longrightarrow> j < nextState ?d" using port_okD(13) [OF inv] by blast
  have g: "dport ?x = d'" "flight ?x = ps @ qs" "dtime ?x = dtime x" by simp_all
  have "port_ok c ?x" unfolding port_ok_def Let_def g f(1-3,5-7) using port_okD(1-5,8) [OF inv] len st fl' co tl sq' by blast
  moreover have "queue_ok ?x"
  proof -
    have "\<exists>s'. reqStates d' (hd (transmitList ?d)) = Some s' \<and> packet_for (hd (transmitList ?d)) s' p'" if ip: "inRetry ?d = Some p'" for p'
    proof -
      obtain s0 where s0: "reqStates ?d (hd (transmitList ?d)) = Some s0" "packet_for (hd (transmitList ?d)) s0 p'" and "transmitList ?d \<noteq> []"
        using qok ip unfolding queue_ok_def Let_def by auto
      then have nd: "hd (transmitList ?d) = i \<longrightarrow> \<not> ?done" by (metis list.set_sel(1))
      show ?thesis using s0 s upd nd by (cases "hd (transmitList ?d) = i"; cases ?done) auto
    qed
    then show ?thesis using qok unfolding queue_ok_def Let_def g f by blast
  qed
  ultimately show ?thesis by simp
qed

section \<open>Starting a transfer\<close>

lemma of_state_fresh: "(\<And>p. p \<in> set ps \<Longrightarrow> senderState p = [j] \<Longrightarrow> False) \<Longrightarrow> of_state j ps = []"
  by (auto simp: of_state_def filter_empty_conv)

lemma enqueue_ok:
  assumes inv: "port_ok c x" and m: "may_start a sz ev dat sid ssid (dport x)"
  shows "\<exists>s d1. enqueue_request cm a sz ev dat sid ssid delay 0 (dport x) = Inr d1 \<and> port_ok c (x\<lparr>dport := d1\<rparr>)
    \<and> d1 = put_state (nextState (dport x)) s ((dport x)\<lparr>transmitList := transmitList (dport x) @ [nextState (dport x)], nextState := nextState (dport x) + 1\<rparr>)"
proof -
  let ?d = "dport x" and ?n = "nextState (dport x)" and ?T = "ucast sz :: Addr"
  obtain k where k: "k < 32" "c = 2 ^ k" using port_okD(3) [OF inv] by blast
  have line: "cacheLineSize ?d = 2 ^ k"
  proof -
    have "unat (cacheLineSize ?d) = unat (2 ^ k :: Addr)" using port_okD(2) [OF inv] k by (simp add: unat_exp)
    then show ?thesis by (simp add: word_unat_eq_iff)
  qed
  have ms: "0 < unat sz" "unat sz < 2 ^ 31" "dat \<noteq> 0" "unat a + unat sz < 2 ^ 64" "unat a + 2 ^ k < 2 ^ 64" "sid = None \<longrightarrow> ssid = None"
    using m port_okD(2) [OF inv] k by (auto simp: may_start_def)
  obtain g where g: "newChunkGenerator a ?T (2 ^ k) = Inr g" "gen_inv (unat a + unat sz) c g" "curAddr g = a" "startAddr g = a"
    using newChunkGenerator_inv [of k "2 ^ k" a ?T] k ms(4,5) by auto
  define s where "s = \<lparr>completionEvent = ev, abortEvent = None, aborted = False, totBytes = ?T, numBytes = 0, st_delay = delay, gen = g,
    st_data = dat, st_flags = 0, st_id = dp_requestorId ?d, st_sid = sid, st_ssid = ssid, st_cmd = cm\<rparr>"
  define d1 where "d1 = put_state ?n s (?d\<lparr>transmitList := transmitList ?d @ [?n], nextState := ?n + 1\<rparr>)"
  have enq: "enqueue_request cm a sz ev dat sid ssid delay 0 ?d = Inr d1"
    using g(1) by (simp add: enqueue_request_def newDmaReqState_def line scast_small [OF ms(2)] d1_def s_def)
  have fresh: "reqStates ?d ?n = None" "?n \<notin> set (transmitList ?d)" "of_state ?n (flight x) = []" "of_state ?n (sentReqs ?d) = []"
  proof -
    show 1: "reqStates ?d ?n = None" using port_okD(10) [OF inv, of ?n] by (cases "reqStates ?d ?n") auto
    show "?n \<notin> set (transmitList ?d)" using port_okD(9) [OF inv, of ?n] 1 by auto
    show "of_state ?n (flight x) = []" using port_okD(12) [OF inv] by (intro of_state_fresh) fastforce
    show "of_state ?n (sentReqs ?d) = []" using port_okD(13) [OF inv] by (intro of_state_fresh) fastforce
  qed
  have cz: "curSize g \<noteq> 0" using g(2,3) ms(1) by (auto simp: gen_inv_def)
  have so: "state_ok c True (flight x) (sentReqs ?d) ?n s"
    using g(2-4) cz ms fresh by (simp add: state_ok_def s_def sent_bytes_def complete_def bytes_of_def)
  have st: "j < nextState d1 \<and> state_ok c (j \<in> set (transmitList d1)) (flight x) (sentReqs ?d) j s'" if j: "reqStates d1 j = Some s'" for j s'
  proof (cases "j = ?n")
    case True
    then show ?thesis using so j by (simp add: d1_def put_state_def)
  next
    case False
    then have "reqStates ?d j = Some s'" "(j \<in> set (transmitList d1)) = (j \<in> set (transmitList ?d))" using j by (auto simp: d1_def put_state_def)
    then show ?thesis using port_okD(10,11) [OF inv, of j s'] by (simp add: d1_def put_state_def)
  qed
  have fl: "\<exists>i. senderState p = [i] \<and> i < nextState d1 \<and> reqStates d1 i \<noteq> None \<and> req_getSize (req p) = Inr (psize p) \<and> 0 < psize p"
    if p: "p \<in> set (flight x)" for p
  proof -
    obtain i where "senderState p = [i]" "i < ?n" "reqStates ?d i \<noteq> None" "req_getSize (req p) = Inr (psize p)" "0 < psize p"
      using port_okD(12) [OF inv p] by blast
    then show ?thesis by (intro exI [of _ i]) (simp add: d1_def put_state_def)
  qed
  have co: "devEvents ?d e = None \<and> (\<forall>i t'. reqStates d1 i = Some t' \<and> completionEvent t' = Some e \<longrightarrow> i = j)"
    if jt: "reqStates d1 j = Some t" "completionEvent t = Some e" for j t e
  proof -
    have new: "completionEvent s = Some e \<Longrightarrow> devEvents ?d e = None" "completionEvent s = Some e \<Longrightarrow> reqStates ?d i = Some t' \<Longrightarrow> completionEvent t' \<noteq> Some e" for i t'
      using m by (auto simp: may_start_def s_def)
    have r: "reqStates d1 = (reqStates ?d)(?n \<mapsto> s)" by (simp add: d1_def put_state_def)
    show ?thesis
    proof (cases "j = ?n")
      case True
      then have "completionEvent s = Some e" using jt r by simp
      then show ?thesis using new True by (auto simp: r split: if_splits)
    next
      case False
      then have j: "reqStates ?d j = Some t" using jt r by simp
      then have "completionEvent s \<noteq> Some e" using new(2) jt(2) by blast
      then show ?thesis using port_okD(14,15) [OF inv j jt(2)] by (auto simp: r split: if_splits)
    qed
  qed
  let ?x = "x\<lparr>dport := d1\<rparr>"
  have f: "dport ?x = d1" "flight ?x = flight x" "dtime ?x = dtime x" "cacheLineSize d1 = cacheLineSize ?d" "dp_period d1 = dp_period ?d"
    "dp_clock d1 = dp_clock ?d" "pendingCount d1 = pendingCount ?d" "sentReqs d1 = sentReqs ?d" "devEvents d1 = devEvents ?d"
    by (simp_all add: d1_def put_state_def)
  have tl: "distinct (transmitList d1)" "\<forall>i \<in> set (transmitList d1). reqStates d1 i \<noteq> None"
    using port_okD(8,9) [OF inv] fresh(2) by (auto simp: d1_def put_state_def)
  have sq: "\<forall>p \<in> set (sentReqs ?d). \<forall>i. senderState p = [i] \<longrightarrow> i < nextState d1"
    using port_okD(13) [OF inv] by (auto simp: d1_def put_state_def less_Suc_eq)
  have "port_ok c ?x" unfolding port_ok_def Let_def f using port_okD(1-7) [OF inv] tl st fl co sq by blast
  then show ?thesis using enq d1_def by blast
qed

section \<open>Reachable states\<close>

lemma new_packets_cong: "sentReqs d1 = sentReqs d \<Longrightarrow> new_packets d1 d' = new_packets d d'"
  by (simp add: new_packets_def)

lemma queue_okD:
  assumes "queue_ok x"
  shows "sendEvent (dport x) \<noteq> None \<Longrightarrow> transmitList (dport x) \<noteq> [] \<and> \<not> retryPending (dport x)"
    and "retryPending (dport x) \<Longrightarrow> transmitList (dport x) \<noteq> [] \<and> sendEvent (dport x) = None"
    and "\<not> retryPending (dport x) \<Longrightarrow> inRetry (dport x) = None"
    and "inRetry (dport x) = Some p \<Longrightarrow> \<exists>s. reqStates (dport x) (hd (transmitList (dport x))) = Some s \<and> packet_for (hd (transmitList (dport x))) s p"
    and "transmitList (dport x) \<noteq> [] \<Longrightarrow> sendEvent (dport x) = None \<Longrightarrow> retryPending (dport x)"
    and "sendEvent (dport x) = Some u \<Longrightarrow> dtime x \<le> u"
  using assms by (auto simp: queue_ok_def Let_def)

text \<open>Starting a transfer, the send event and the retry of the peer all succeed.\<close>

lemma start_ok:
  assumes inv: "port_ok c x" "queue_ok x" and m: "may_start a sz ev dat sid ssid (dport x)" and small: "length (flight x) + 1 < 2 ^ 32"
  shows "\<exists>d. dmaAction n mode_timing sa sab (dtime x) ok cm a sz ev dat sid ssid delay 0 (dport x, h, w) = Some (Inr (d, h, w))
    \<and> port_ok c (x\<lparr>dport := d, flight := flight x @ new_packets (dport x) d\<rparr>)
    \<and> queue_ok (x\<lparr>dport := d, flight := flight x @ new_packets (dport x) d\<rparr>)"
proof -
  let ?d = "dport x" and ?n = "nextState (dport x)"
  obtain s d1 where d1: "enqueue_request cm a sz ev dat sid ssid delay 0 ?d = Inr d1" "port_ok c (x\<lparr>dport := d1\<rparr>)"
      "d1 = put_state ?n s (?d\<lparr>transmitList := transmitList ?d @ [?n], nextState := ?n + 1\<rparr>)"
    using enqueue_ok [OF inv(1) m] by blast
  have f: "sendEvent d1 = sendEvent ?d" "retryPending d1 = retryPending ?d" "inRetry d1 = inRetry ?d" "sentReqs d1 = sentReqs ?d"
    "transmitList d1 = transmitList ?d @ [?n]" "reqStates d1 = (reqStates ?d)(?n \<mapsto> s)" by (simp_all add: d1(3) put_state_def)
  show ?thesis
  proof (cases "retryPending ?d \<or> sendEvent ?d \<noteq> None")
    case True
    then have ne: "transmitList ?d \<noteq> []" using queue_okD(1,2) [OF inv(2)] by blast
    obtain s0 where "reqStates ?d (hd (transmitList ?d)) = Some s0" using port_okD(9) [OF inv(1), of "hd (transmitList ?d)"] ne by auto
    then have "hd (transmitList ?d) \<noteq> ?n" using port_okD(10) [OF inv(1)] by fastforce
    then have "queue_ok (x\<lparr>dport := d1\<rparr>)" using inv(2) ne unfolding queue_ok_def Let_def by (simp add: f)
    moreover have "new_packets ?d d1 = []" by (simp add: new_packets_def f)
    moreover have "dmaAction n mode_timing sa sab (dtime x) ok cm a sz ev dat sid ssid delay 0 (?d, h, w) = Some (Inr (d1, h, w))"
      using d1(1) True by (simp add: dmaAction_def sendDma_def isTimingMode_def f)
    ultimately show ?thesis using d1(2) by (intro exI [of _ d1]) simp
  next
    case False
    then have e: "transmitList ?d = []" "inRetry ?d = None" using queue_okD(3,5) [OF inv(2)] by auto
    let ?x = "x\<lparr>dport := d1\<rparr>"
    obtain d' where d': "trySendTimingReq (dtime x) ok d1 = Inr d'"
        "port_ok c (x\<lparr>dport := d', flight := flight x @ new_packets d1 d'\<rparr>)" "queue_ok (x\<lparr>dport := d', flight := flight x @ new_packets d1 d'\<rparr>)"
      using trySend_ok [OF d1(2), of ?n "[]" ok] False e small by (auto simp: f)
    have "dmaAction n mode_timing sa sab (dtime x) ok cm a sz ev dat sid ssid delay 0 (?d, h, w) = Some (Inr (d', h, w))"
      using d1(1) d'(1) False by (simp add: dmaAction_def sendDma_def isTimingMode_def f)
    then show ?thesis using d'(2,3) new_packets_cong [OF f(4), of d'] by (intro exI [of _ d']) simp
  qed
qed

lemma send_ok:
  assumes inv: "port_ok c x" "queue_ok x" and ev: "sendEvent (dport x) = Some (dtime x)" and small: "length (flight x) + 1 < 2 ^ 32"
  shows "\<exists>d. sendDma n mode_timing sa sab (dtime x) ok ((dport x)\<lparr>sendEvent := None\<rparr>, h, w) = Some (Inr (d, h, w))
    \<and> length (new_packets (dport x) d) = (if ok then 1 else 0)
    \<and> port_ok c (x\<lparr>dport := d, flight := flight x @ new_packets (dport x) d\<rparr>)
    \<and> queue_ok (x\<lparr>dport := d, flight := flight x @ new_packets (dport x) d\<rparr>)"
proof -
  let ?d = "(dport x)\<lparr>sendEvent := None\<rparr>"
  have q: "transmitList (dport x) \<noteq> []" "\<not> retryPending (dport x)" "inRetry (dport x) = None"
    using queue_okD(1,3) [OF inv(2)] ev by auto
  then obtain i rest where tl: "transmitList (dport x) = i # rest" by (cases "transmitList (dport x)") auto
  have "port_ok c (x\<lparr>dport := ?d\<rparr>) = port_ok c x" by (rule port_ok_cong) simp_all
  then obtain d where "trySendTimingReq (dtime x) ok ?d = Inr d" "length (new_packets ?d d) = (if ok then 1 else 0)"
      "port_ok c (x\<lparr>dport := d, flight := flight x @ new_packets ?d d\<rparr>)" "queue_ok (x\<lparr>dport := d, flight := flight x @ new_packets ?d d\<rparr>)"
    using trySend_ok [of c "x\<lparr>dport := ?d\<rparr>" i rest ok] inv(1) tl q small by auto
  then show ?thesis using q new_packets_cong [of ?d "dport x" d] by (intro exI [of _ d]) (simp add: sendDma_def isTimingMode_def)
qed

lemma retry_ok:
  assumes inv: "port_ok c x" "queue_ok x" and rp: "retryPending (dport x)" and small: "length (flight x) + 1 < 2 ^ 32"
  shows "\<exists>d. recvReqRetry (dtime x) ok (dport x) = Inr d \<and> length (new_packets (dport x) d) = (if ok then 1 else 0)
    \<and> port_ok c (x\<lparr>dport := d, flight := flight x @ new_packets (dport x) d\<rparr>)
    \<and> queue_ok (x\<lparr>dport := d, flight := flight x @ new_packets (dport x) d\<rparr>)"
proof -
  let ?d = "(dport x)\<lparr>retryPending := False\<rparr>"
  have q: "transmitList (dport x) \<noteq> []" "sendEvent (dport x) = None" using queue_okD(2) [OF inv(2) rp] by auto
  then obtain i rest where tl: "transmitList (dport x) = i # rest" by (cases "transmitList (dport x)") auto
  have "port_ok c (x\<lparr>dport := ?d\<rparr>) = port_ok c x" by (rule port_ok_cong) simp_all
  then obtain d where "trySendTimingReq (dtime x) ok ?d = Inr d" "length (new_packets ?d d) = (if ok then 1 else 0)"
      "port_ok c (x\<lparr>dport := d, flight := flight x @ new_packets ?d d\<rparr>)" "queue_ok (x\<lparr>dport := d, flight := flight x @ new_packets ?d d\<rparr>)"
    using trySend_ok [of c "x\<lparr>dport := ?d\<rparr>" i rest ok] inv(1) tl q queue_okD(4) [OF inv(2)] small by auto
  then show ?thesis using q new_packets_cong [of ?d "dport x" d] by (intro exI [of _ d]) (simp add: recvReqRetry_def Let_def)
qed

lemma dma_inv_step: "dma_step x x' \<Longrightarrow> port_ok c x \<Longrightarrow> queue_ok x \<Longrightarrow> port_ok c x' \<and> queue_ok x'"
proof (induction rule: dma_step.induct)
  case (tick x t)
  have f: "dport (x\<lparr>dtime := t\<rparr>) = dport x" "flight (x\<lparr>dtime := t\<rparr>) = flight x" "dtime (x\<lparr>dtime := t\<rparr>) = t" by simp_all
  have "port_ok c (x\<lparr>dtime := t\<rparr>)" using clk_ok_later [OF port_okD(5) [OF tick(3)] tick(1)] tick(3) unfolding port_ok_def Let_def f by blast
  moreover have "queue_ok (x\<lparr>dtime := t\<rparr>)" using tick(2,4) unfolding queue_ok_def Let_def f by blast
  ultimately show ?case by blast
next
  case (start a sz ev dat sid ssid x sa sab ok c' delay h d h')
  then show ?case using start_ok [OF start(4,5,1,2), of 0 sa sab ok c' delay h "()"] by auto
next
  case (send x sa sab ok h d h')
  then show ?case using send_ok [OF send(4,5,1,2), of 0 sa sab ok h "()"] by auto
next
  case (retry x ok d)
  then show ?case using retry_ok [OF retry(4,5,1,2), of ok] by auto
next
  case (response x ps p qs q b d)
  then show ?case using response_inv [OF response(5,6,1-4)] by blast
next
  case (completed x e)
  let ?x = "x\<lparr>dport := (dport x)\<lparr>devEvents := (devEvents (dport x))(e := None)\<rparr>\<rparr>"
  have f: "dport ?x = (dport x)\<lparr>devEvents := (devEvents (dport x))(e := None)\<rparr>" "flight ?x = flight x" "dtime ?x = dtime x" by simp_all
  have "port_ok c ?x" using completed(2) unfolding port_ok_def Let_def f by (auto simp: fun_upd_apply)
  then show ?case using completed(3) by (auto simp: queue_ok_def Let_def)
qed

lemma dma_reachable_inv: "dma_reachable x \<Longrightarrow> \<exists>c. port_ok c x \<and> queue_ok x"
proof (induction rule: dma_reachable.induct)
  case (init k period x rid sid ssid)
  have "(2 :: nat) ^ k < 2 ^ 32" using init(1) by (intro power_strict_increasing) simp_all
  then have "port_ok (2 ^ k) x \<and> queue_ok x"
    using init by (auto simp: port_ok_def queue_ok_def Let_def newDmaPort_def clk_ok_def unat_exp)
  then show ?case by blast
next
  case (step x x')
  then show ?case using dma_inv_step by blast
qed

section \<open>Properties\<close>

text \<open>
  C3: the port accounts for every byte of every transfer. The packets in flight are counted exactly, and the
  bytes acknowledged, in flight and not yet sent add up to the length of the transfer, so that none is lost
  or counted twice.
\<close>

theorem dma_bytes_conserved:
  assumes "dma_reachable x"
  shows "unat (pendingCount (dport x)) = length (flight x)
    \<and> (\<forall>i s. reqStates (dport x) i = Some s \<longrightarrow>
        unat (numBytes s) + bytes_of i (flight x)
          + (if i \<in> set (transmitList (dport x)) then unat (totBytes s) - unat (complete (gen s)) else 0) = unat (totBytes s))"
proof -
  obtain c where inv: "port_ok c x" using dma_reachable_inv [OF assms] by blast
  have "unat (numBytes s) + bytes_of i (flight x) + (if i \<in> set (transmitList (dport x)) then unat (totBytes s) - unat (complete (gen s)) else 0)
      = unat (totBytes s)" if s: "reqStates (dport x) i = Some s" for i s
  proof (cases "i \<in> set (transmitList (dport x))")
    case True
    have "state_ok c True (flight x) (sentReqs (dport x)) i s" using port_okD(11) [OF inv s] True by simp
    then show ?thesis using sending_less [of c "flight x" "sentReqs (dport x)" i s] True by (simp add: state_ok_def sent_bytes_def)
  next
    case False
    then show ?thesis using port_okD(11) [OF inv s] by (simp add: state_ok_def sent_bytes_def)
  qed
  then show ?thesis using port_okD(6,7) [OF inv] by (simp add: unat_of_nat)
qed

text \<open>
  C4: the response to a packet in flight is always accepted, none of the assertions of the handlers fails,
  and the transfer completes exactly with the response to its last packet: then its state is freed and its
  completion event scheduled after the delay asked for; otherwise no event is scheduled.
\<close>

theorem dma_response_completes:
  assumes "dma_reachable x" and "flight x = ps @ p # qs" and "answers p q" and "benign q"
  shows "\<exists>d i s. recvTimingResp (dtime x) (dport x) q = Inr (True, d) \<and> senderState p = [i] \<and> reqStates (dport x) i = Some s
    \<and> (if i \<notin> set (transmitList (dport x)) \<and> bytes_of i (ps @ qs) = 0
       then reqStates d i = None \<and> devEvents d = (case completionEvent s of None \<Rightarrow> devEvents (dport x)
              | Some e \<Rightarrow> (devEvents (dport x))(e := Some (dtime x + st_delay s)))
       else (\<exists>s'. reqStates d i = Some s' \<and> unat (numBytes s') = unat (numBytes s) + psize p) \<and> devEvents d = devEvents (dport x))"
proof -
  obtain c where inv: "port_ok c x" using dma_reachable_inv [OF assms(1)] by blast
  obtain d i s where d: "recvTimingResp (dtime x) (dport x) q = Inr (True, d)" "senderState p = [i]" "reqStates (dport x) i = Some s"
    and u: "if i \<notin> set (transmitList (dport x)) \<and> bytes_of i (ps @ qs) = 0
       then reqStates d = (reqStates (dport x))(i := None) \<and> devEvents d = complete_at (dtime x + st_delay s) s (devEvents (dport x))
       else reqStates d = (reqStates (dport x))(i \<mapsto> s\<lparr>numBytes := numBytes s + of_nat (psize p)\<rparr>) \<and> devEvents d = devEvents (dport x)
         \<and> unat (numBytes s + of_nat (psize p)) = unat (numBytes s) + psize p"
    using response_ok [OF inv assms(2-4)] by blast
  show ?thesis
  proof (cases "i \<notin> set (transmitList (dport x)) \<and> bytes_of i (ps @ qs) = 0")
    case True
    then have "reqStates d i = None" "devEvents d = complete_at (dtime x + st_delay s) s (devEvents (dport x))" using u by simp_all
    then show ?thesis using True d by (intro exI [of _ d] exI [of _ i] exI [of _ s]) (simp add: complete_at_def)
  next
    case False
    then have e: "reqStates d i = Some (s\<lparr>numBytes := numBytes s + of_nat (psize p)\<rparr>)" "devEvents d = devEvents (dport x)"
      "unat (numBytes s + of_nat (psize p)) = unat (numBytes s) + psize p" using u by auto
    then show ?thesis using d False by (intro exI [of _ d] exI [of _ i] exI [of _ s]) auto
  qed
qed

text \<open>
  C5: the port is never stuck. While there is something to send, either the send event is scheduled or the
  peer owes a retry, not both, and the handler of the one that is outstanding succeeds; when the peer
  accepts, it sends exactly one packet.
\<close>

theorem dma_never_stuck:
  assumes "dma_reachable x" and "transmitList (dport x) \<noteq> []" and "length (flight x) + 1 < 2 ^ 32"
  shows "(\<exists>u \<ge> dtime x. sendEvent (dport x) = Some u \<and> \<not> retryPending (dport x)
        \<and> (u = dtime x \<longrightarrow> (\<exists>d. sendDma 0 mode_timing sa sab u True ((dport x)\<lparr>sendEvent := None\<rparr>, h, w) = Some (Inr (d, h, w))
             \<and> length (new_packets (dport x) d) = 1)))
    \<or> sendEvent (dport x) = None \<and> retryPending (dport x)
        \<and> (\<exists>d. recvReqRetry (dtime x) True (dport x) = Inr d \<and> length (new_packets (dport x) d) = 1)"
proof -
  obtain c where inv: "port_ok c x" "queue_ok x" using dma_reachable_inv [OF assms(1)] by blast
  show ?thesis
  proof (cases "retryPending (dport x)")
    case True
    then show ?thesis using retry_ok [OF inv True assms(3), of True] queue_okD(2) [OF inv(2) True] by auto
  next
    case False
    then obtain u where u: "sendEvent (dport x) = Some u" using queue_okD(5) [OF inv(2) assms(2)] by fastforce
    have "\<exists>d. sendDma 0 mode_timing sa sab (dtime x) True ((dport x)\<lparr>sendEvent := None\<rparr>, h, w) = Some (Inr (d, h, w))
        \<and> length (new_packets (dport x) d) = 1" if "u = dtime x"
      using send_ok [OF inv _ assms(3), of 0 sa sab True h w] u that by auto
    then show ?thesis using False u queue_okD(6) [OF inv(2) u] by auto
  qed
qed

text \<open>
  C6: the packets sent for a transfer tile what has been sent of its region, in order: they are nonempty, do
  not cross a line boundary, and follow each other from the start address; each carries the command of the
  transfer and points to the part of the buffer that corresponds to its address.
\<close>

theorem dma_packets_tile:
  assumes "dma_reachable x" and "reqStates (dport x) i = Some s"
  shows "\<exists>k < 32. cacheLineSize (dport x) = 2 ^ k
    \<and> tiles (2 ^ k) (unat (startAddr (gen s))) (map (\<lambda>p. (addr p, of_nat (psize p))) (of_state i (sentReqs (dport x))))
        (unat (startAddr (gen s)) + (if i \<in> set (transmitList (dport x)) then unat (complete (gen s)) else unat (totBytes s)))
    \<and> (\<forall>p \<in> set (of_state i (sentReqs (dport x))). cmd p = st_cmd s \<and> data p + unat (startAddr (gen s)) = st_data s + unat (addr p))"
proof -
  obtain c where inv: "port_ok c x" using dma_reachable_inv [OF assms(1)] by blast
  obtain k where k: "k < 32" "c = 2 ^ k" using port_okD(3) [OF inv] by blast
  have "unat (cacheLineSize (dport x)) = unat (2 ^ k :: Addr)" using port_okD(2) [OF inv] k by (simp add: unat_exp)
  then have "cacheLineSize (dport x) = 2 ^ k" by (simp add: word_unat_eq_iff)
  then show ?thesis using k port_okD(11) [OF inv assms(2)] unfolding state_ok_def sent_bytes_def by auto
qed

section \<open>A run\<close>

text \<open>A read of 100 bytes in lines of 64: the first packet is in flight, the second one scheduled.\<close>

definition sample_dma :: DmaSys where
  "sample_dma = \<lparr>dport = newDmaPort 0 64 500 None None, flight = [], dtime = 0\<rparr>"

lemma sample_dma_run:
  "\<exists>x s p. dma_reachable x \<and> flight x = [p] \<and> senderState p = [0] \<and> plain_request p \<and> of_state 0 (sentReqs (dport x)) = [p]
    \<and> reqStates (dport x) 0 = Some s \<and> transmitList (dport x) = [0] \<and> unat (totBytes s) = 100 \<and> startAddr (gen s) = 0x80000010
    \<and> psize p = unat (complete (gen s)) \<and> numBytes s = 0"
proof -
  let ?x = sample_dma and ?d = "dport sample_dma" and ?sa = "undefined :: unit peer" and ?sab = "undefined :: unit bd_peer"
  have line: "(64 :: Addr) = 2 ^ 6" by simp
  have r0: "dma_reachable ?x" by (rule dma_reachable.init [of 6 500]) (simp_all add: sample_dma_def)
  then obtain c where inv: "port_ok c ?x" using dma_reachable_inv by blast
  have c: "c = 64" using port_okD(2) [OF inv] by (simp add: sample_dma_def newDmaPort_def)
  have n: "nextState ?d = 0" "sentReqs ?d = []" "sendEvent ?d = None" "\<not> retryPending ?d" "inRetry ?d = None"
    by (simp_all add: sample_dma_def newDmaPort_def)
  have m: "may_start 0x80000010 100 (Some 7) 4096 None None ?d" by (simp add: may_start_def sample_dma_def newDmaPort_def)
  have idle: "idle_port 6 ?d" by (simp add: idle_port_def sample_dma_def newDmaPort_def)
  have "defaultSid ?d = None" "defaultSSid ?d = None" by (simp_all add: sample_dma_def newDmaPort_def)
  then obtain d1 s where e: "enqueue_request ReadReq 0x80000010 100 (Some 7) 4096 None None 0 0 ?d = Inr d1" "transmitList d1 = [0]"
      "reqStates d1 = (reqStates ?d)(0 \<mapsto> s)" and ai: "atomic_inv (2 ^ 6) 0 (d1\<lparr>transmitList := []\<rparr>) s"
      and s: "startAddr (gen s) = 0x80000010" "unat (totBytes s) = 100" "complete (gen s) = 0"
    using enqueue_atomic [OF idle, where sz = 100 and a = "0x80000010" and dat = 4096 and ev = "Some 7" and delay = 0 and c = ReadReq] n(1)
    by (auto simp: sample_dma_def newDmaPort_def)
  obtain s' where d1: "port_ok c (?x\<lparr>dport := d1\<rparr>)" "d1 = put_state 0 s' (?d\<lparr>transmitList := transmitList ?d @ [0], nextState := 1\<rparr>)"
    using enqueue_ok [OF inv m, of ReadReq 0] e(1) n(1) by auto
  have f: "sendEvent d1 = None" "\<not> retryPending d1" "inRetry d1 = None" "sentReqs d1 = []" using n by (simp_all add: d1(2) put_state_def)
  let ?x1 = "?x\<lparr>dport := d1\<rparr>"
  obtain p u ck where t: "trySendTimingReq 0 True d1 = Inr (d1\<lparr>inRetry := None, pendingCount := pendingCount d1 + 1, sentReqs := [p],
        reqStates := (reqStates d1)(0 \<mapsto> s\<lparr>gen := fst (gen_next (gen s))\<rparr>), transmitList := (if gen_last (gen s) then [] else [0]),
        dp_clock := ck, sendEvent := (if gen_last (gen s) then None else Some u)\<rparr>)" and p: "packet_for 0 s p"
    using trySend_result [OF d1(1), of 0 "[]" True] e f by (auto simp: sample_dma_def)
  have nl: "\<not> gen_last (gen s)"
    using atomic_chunk(2) [OF ai] gen_chunk_le [of _ "2 ^ 6" "gen s"] ai s by (auto simp: atomic_inv_def)
  define d where "d = d1\<lparr>inRetry := None, pendingCount := pendingCount d1 + 1, sentReqs := [p],
        reqStates := (reqStates d1)(0 \<mapsto> s\<lparr>gen := fst (gen_next (gen s))\<rparr>), transmitList := [0], dp_clock := ck, sendEvent := Some u\<rparr>"
  have "dmaAction 0 mode_timing ?sa ?sab 0 True ReadReq 0x80000010 100 (Some 7) 4096 None None 0 0 (?d, h, ()) = Some (Inr (d, h, ()))" for h
    using e(1,2) t nl f by (simp add: dmaAction_def sendDma_def isTimingMode_def d_def)
  then have st: "dma_step ?x (?x\<lparr>dport := d, flight := flight ?x @ new_packets ?d d\<rparr>)"
    using m by (intro dma_step.start) (simp_all add: sample_dma_def)
  have "new_packets ?d d = [p]" by (simp add: new_packets_def d_def n)
  then have "dma_reachable (?x\<lparr>dport := d, flight := [p]\<rparr>)" using dma_reachable.step [OF r0 st] by (simp add: sample_dma_def)
  moreover have "psize p = unat (complete (fst (gen_next (gen s))))" using atomic_chunk(4) [OF ai nl] p s(3) by (simp add: packet_for_def)
  moreover have "numBytes s = 0" using ai s(3) by (simp add: atomic_inv_def)
  ultimately show ?thesis using p s
    by (intro exI [of _ "?x\<lparr>dport := d, flight := [p]\<rparr>"] exI [of _ "s\<lparr>gen := fst (gen_next (gen s))\<rparr>"] exI [of _ p])
      (simp add: d_def packet_for_def of_state_def gen_next_keeps)
qed

theorem dma_bytes_conserved_witness:
  "\<exists>x s. dma_reachable x \<and> reqStates (dport x) 0 = Some s \<and> unat (pendingCount (dport x)) = 1
    \<and> bytes_of 0 (flight x) + (100 - unat (complete (gen s))) = 100"
proof -
  obtain x s p where x: "dma_reachable x" "flight x = [p]" "senderState p = [0]" "reqStates (dport x) 0 = Some s" "transmitList (dport x) = [0]"
      "unat (totBytes s) = 100" "numBytes s = 0"
    using sample_dma_run by blast
  note b = dma_bytes_conserved [OF x(1)]
  have "unat (numBytes s) + bytes_of 0 (flight x) + (if 0 \<in> set (transmitList (dport x)) then unat (totBytes s) - unat (complete (gen s)) else 0)
      = unat (totBytes s)"
    using b x(4) by blast
  then show ?thesis using b x by (intro exI [of _ x] exI [of _ s]) simp
qed

theorem dma_response_completes_witness:
  "\<exists>x q d s. dma_reachable x \<and> recvTimingResp (dtime x) (dport x) q = Inr (True, d) \<and> reqStates d 0 = Some s \<and> 0 < unat (numBytes s)
    \<and> devEvents d = devEvents (dport x)"
proof -
  obtain x s p where x: "dma_reachable x" "flight x = [] @ p # []" "senderState p = [0]" "plain_request p" "transmitList (dport x) = [0]"
    using sample_dma_run by fastforce
  let ?q = "p\<lparr>cmd := ReadResp\<rparr>"
  have "answers p ?q" using x(4) by (simp add: answers_def plain_request_def pkt_ok_def)
  moreover have "benign ?q" "0 < psize p" using x(4) by (auto simp: benign_def plain_request_def pkt_ok_def cacheResponding_def)
  ultimately obtain d s' where "recvTimingResp (dtime x) (dport x) ?q = Inr (True, d)" "reqStates d 0 = Some s'" "0 < unat (numBytes s')"
      "devEvents d = devEvents (dport x)"
    using dma_response_completes [OF x(1,2), of ?q] x(3,5) by auto
  then show ?thesis using x(1) by blast
qed

theorem dma_never_stuck_witness:
  "\<exists>x u. dma_reachable x \<and> (sendEvent (dport x) = Some u \<or> retryPending (dport x)) \<and> transmitList (dport x) = [0]"
proof -
  obtain x p where x: "dma_reachable x" "flight x = [p]" "transmitList (dport x) = [0]" using sample_dma_run by blast
  then show ?thesis using dma_never_stuck [OF x(1), of undefined undefined undefined undefined] by auto
qed

theorem dma_packets_tile_witness:
  "\<exists>x s p. dma_reachable x \<and> of_state 0 (sentReqs (dport x)) = [p] \<and> reqStates (dport x) 0 = Some s
    \<and> tiles (unat (cacheLineSize (dport x))) 0x80000010 [(addr p, of_nat (psize p))]
    (0x80000010 + unat (complete (gen s)))"
proof -
  obtain x s p where x: "dma_reachable x" "of_state 0 (sentReqs (dport x)) = [p]" "reqStates (dport x) 0 = Some s" "transmitList (dport x) = [0]"
      "startAddr (gen s) = 0x80000010"
    using sample_dma_run by blast
  then show ?thesis using dma_packets_tile [OF x(1,3)] by (intro exI [of _ x] exI [of _ s] exI [of _ p]) (auto simp: unat_exp)
qed

end
