(* ===== verification/Page_Table.thy ===== *)
theory Page_Table
  imports Bit_Utils Mem_Request
begin

text \<open>
  The page table of emulated processes (\<^verbatim>\<open>mem/page_table.hh\<close>, \<^verbatim>\<open>mem/page_table.cc\<close>) and the generator that
  translates a range of addresses piece by piece (\<^verbatim>\<open>mem/translation_gen.hh\<close>), through which the DMA engine
  reaches virtual memory. Sizes are \<^verbatim>\<open>int64_t\<close> in the code and integers here.
\<close>

section \<open>The table\<close>

record PTEntry =
  e_paddr :: Addr
  e_flags :: "64 word"

record EmulationPageTable =
  pTable :: "Addr \<rightharpoonup> PTEntry"
  pageSize :: Addr
  offsetMask :: Addr
  pt_pid :: "64 word"

definition newEmulationPageTable :: "64 word \<Rightarrow> Addr \<Rightarrow> EmulationPageTable res" where
  "newEmulationPageTable pid page_size =
     rbind (floorLog2 page_size) (\<lambda>n.
       ensure (isPowerOf2 page_size) AssertFail
         (Inr \<lparr>pTable = Map.empty, pageSize = page_size, offsetMask = mask_bits n, pt_pid = pid\<rparr>))"

definition pageAlign :: "EmulationPageTable \<Rightarrow> Addr \<Rightarrow> Addr" where
  "pageAlign t a = a AND NOT (offsetMask t)"

definition pageOffset :: "EmulationPageTable \<Rightarrow> Addr \<Rightarrow> Addr" where
  "pageOffset t a = a AND offsetMask t"

abbreviation (input) Clobber :: "64 word" where "Clobber \<equiv> 1"

text \<open>The name of the table and the flag \<^verbatim>\<open>shared\<close>, which no function below reads, are left out. The loops over pages; the page size is not 0, by the assertion of the constructor.\<close>

function map_loop :: "bool \<Rightarrow> 64 word \<Rightarrow> EmulationPageTable \<Rightarrow> Addr \<Rightarrow> Addr \<Rightarrow> int \<Rightarrow> EmulationPageTable res" where
  "map_loop clobber flags t vaddr paddr sz =
     (if sz > 0 \<and> pageSize t \<noteq> 0 then
        if pTable t vaddr \<noteq> None \<and> \<not> clobber then Inl Panic
        else map_loop clobber flags (t\<lparr>pTable := (pTable t)(vaddr \<mapsto> \<lparr>e_paddr = paddr, e_flags = flags\<rparr>)\<rparr>)
               (vaddr + pageSize t) (paddr + pageSize t) (sz - uint (pageSize t))
      else Inr t)"
  by pat_completeness auto
termination
  by (relation "measure (\<lambda>(_, _, _, _, _, sz). nat sz)") (auto simp: word_neq_0_conv word_less_def)

definition pt_map :: "EmulationPageTable \<Rightarrow> Addr \<Rightarrow> Addr \<Rightarrow> int \<Rightarrow> 64 word \<Rightarrow> EmulationPageTable res" where
  "pt_map t vaddr paddr sz flags =
     ensure (pageOffset t vaddr = 0) AssertFail (map_loop (flags AND Clobber \<noteq> 0) flags t vaddr paddr sz)"

function remap_loop :: "EmulationPageTable \<Rightarrow> Addr \<Rightarrow> int \<Rightarrow> Addr \<Rightarrow> EmulationPageTable res" where
  "remap_loop t vaddr sz new_vaddr =
     (if sz > 0 \<and> pageSize t \<noteq> 0 then
        case pTable t vaddr of
          None \<Rightarrow> Inl AssertFail
        | Some e \<Rightarrow>
            if pTable t new_vaddr \<noteq> None then Inl AssertFail
            else remap_loop (t\<lparr>pTable := ((pTable t)(new_vaddr \<mapsto> e))(vaddr := None)\<rparr>)
                   (vaddr + pageSize t) (sz - uint (pageSize t)) (new_vaddr + pageSize t)
      else Inr t)"
  by pat_completeness auto
termination
  by (relation "measure (\<lambda>(_, _, sz, _). nat sz)") (auto simp: word_neq_0_conv word_less_def)

definition remap :: "EmulationPageTable \<Rightarrow> Addr \<Rightarrow> int \<Rightarrow> Addr \<Rightarrow> EmulationPageTable res" where
  "remap t vaddr sz new_vaddr =
     ensure (pageOffset t vaddr = 0) AssertFail
      (ensure (pageOffset t new_vaddr = 0) AssertFail (remap_loop t vaddr sz new_vaddr))"

function unmap_loop :: "EmulationPageTable \<Rightarrow> Addr \<Rightarrow> int \<Rightarrow> EmulationPageTable res" where
  "unmap_loop t vaddr sz =
     (if sz > 0 \<and> pageSize t \<noteq> 0 then
        if pTable t vaddr = None then Inl AssertFail
        else unmap_loop (t\<lparr>pTable := (pTable t)(vaddr := None)\<rparr>) (vaddr + pageSize t) (sz - uint (pageSize t))
      else Inr t)"
  by pat_completeness auto
termination
  by (relation "measure (\<lambda>(_, _, sz). nat sz)") (auto simp: word_neq_0_conv word_less_def)

definition unmap :: "EmulationPageTable \<Rightarrow> Addr \<Rightarrow> int \<Rightarrow> EmulationPageTable res" where
  "unmap t vaddr sz = ensure (pageOffset t vaddr = 0) AssertFail (unmap_loop t vaddr sz)"

function isUnmapped_loop :: "EmulationPageTable \<Rightarrow> Addr \<Rightarrow> int \<Rightarrow> int \<Rightarrow> bool" where
  "isUnmapped_loop t vaddr offset sz =
     (if offset < sz \<and> pageSize t \<noteq> 0 then
        if pTable t (vaddr + word_of_int offset) \<noteq> None then False
        else isUnmapped_loop t vaddr (offset + uint (pageSize t)) sz
      else True)"
  by pat_completeness auto
termination
  by (relation "measure (\<lambda>(_, _, offset, sz). nat (sz - offset))") (auto simp: word_neq_0_conv word_less_def)

definition isUnmapped :: "EmulationPageTable \<Rightarrow> Addr \<Rightarrow> int \<Rightarrow> bool res" where
  "isUnmapped t vaddr sz = ensure (pageOffset t vaddr = 0) AssertFail (Inr (isUnmapped_loop t vaddr 0 sz))"

declare map_loop.simps [simp del] remap_loop.simps [simp del] unmap_loop.simps [simp del] isUnmapped_loop.simps [simp del]

definition pt_lookup :: "EmulationPageTable \<Rightarrow> Addr \<Rightarrow> PTEntry option" where
  "pt_lookup t vaddr = pTable t (pageAlign t vaddr)"

definition pt_translate :: "EmulationPageTable \<Rightarrow> Addr \<Rightarrow> Addr option" where
  "pt_translate t vaddr = map_option (\<lambda>e. pageOffset t vaddr + e_paddr e) (pt_lookup t vaddr)"

text \<open>\<^verbatim>\<open>translate(const RequestPtr &req)\<close>; \<open>None\<close> as a result is the page-table fault.\<close>

definition pt_translate_req :: "EmulationPageTable \<Rightarrow> Request \<Rightarrow> Request option res" where
  "pt_translate_req t r =
     rbind (getVaddr r) (\<lambda>v.
     rbind (req_getSize r) (\<lambda>n.
       ensure (pageAlign t (v + of_nat n - 1) = pageAlign t v) AssertFail
         (case pt_translate t v of
            None \<Rightarrow> Inr None
          | Some p \<Rightarrow> ensure (\<not> ((p AND (pageSize t - 1)) + of_nat n > pageSize t)) Panic (Inr (Some (setPaddr r p))))))"

section \<open>Translating a range\<close>

record TRange =
  tr_vaddr :: Addr
  tr_size :: Addr
  tr_paddr :: Addr
  tr_flags :: FlagsType
  tr_fault :: "Addr option"

definition gen_translate :: "EmulationPageTable \<Rightarrow> TRange \<Rightarrow> TRange res" where
  "gen_translate t r =
     rbind (roundUp (tr_vaddr r) (pageSize t)) (\<lambda>nxt.
       let nxt = (if nxt = tr_vaddr r then nxt + pageSize t else nxt);
           r = r\<lparr>tr_size := min (tr_size r) (nxt - tr_vaddr r)\<rparr>
       in case pt_translate t (tr_vaddr r) of
            None \<Rightarrow> Inr (r\<lparr>tr_fault := Some (tr_vaddr r)\<rparr>)
          | Some p \<Rightarrow> Inr (r\<lparr>tr_paddr := p\<rparr>))"

text \<open>The iterator holds the region of its generator, \<open>None\<close> for the end iterator.\<close>

record TIter =
  current :: TRange
  it_gen :: "(Addr \<times> Addr) option"
  it_end :: bool

definition it_update :: "EmulationPageTable \<Rightarrow> TIter \<Rightarrow> TIter res" where
  "it_update t it =
     (case it_gen it of
        None \<Rightarrow> Inl AssertFail
      | Some (start, sz) \<Rightarrow>
          let r = (current it)\<lparr>tr_paddr := 0, tr_size := sz - (tr_vaddr (current it) - start)\<rparr>
          in if tr_size r = 0 then Inr (it\<lparr>current := r\<lparr>tr_vaddr := 0\<rparr>, it_gen := None, it_end := True\<rparr>)
             else rbind (gen_translate t r) (\<lambda>r. Inr (it\<lparr>current := r\<rparr>)))"

definition it_begin :: "EmulationPageTable \<Rightarrow> Addr \<Rightarrow> Addr \<Rightarrow> TIter res" where
  "it_begin t start sz =
     it_update t \<lparr>current = \<lparr>tr_vaddr = start, tr_size = 0, tr_paddr = 0, tr_flags = 0, tr_fault = None\<rparr>, it_gen = Some (start, sz), it_end = False\<rparr>"

definition it_finish :: TIter where
  "it_finish = \<lparr>current = \<lparr>tr_vaddr = 0, tr_size = 0, tr_paddr = 0, tr_flags = 0, tr_fault = None\<rparr>, it_gen = None, it_end = True\<rparr>"

definition it_copy :: "TIter \<Rightarrow> TIter" where
  "it_copy other = \<lparr>current = current other, it_gen = it_gen other, it_end = True\<rparr>"

definition it_next :: "EmulationPageTable \<Rightarrow> TIter \<Rightarrow> TIter res" where
  "it_next t it =
     ensure (\<not> it_end it) Panic
      (ensure (it_gen it \<noteq> None) AssertFail
        (let r = current it;
             r = (if tr_fault r = None then r\<lparr>tr_vaddr := tr_vaddr r + tr_size r\<rparr> else r\<lparr>tr_fault := None\<rparr>)
         in it_update t (it\<lparr>current := r\<rparr>)))"

definition it_eq :: "TIter \<Rightarrow> TIter \<Rightarrow> bool" where
  "it_eq a b \<longleftrightarrow> it_gen a = it_gen b \<and> tr_vaddr (current a) = tr_vaddr (current b)"

record TranslationGen =
  tg_table :: EmulationPageTable
  tg_start :: Addr
  tg_size :: Addr

definition translateRange :: "EmulationPageTable \<Rightarrow> Addr \<Rightarrow> Addr \<Rightarrow> TranslationGen" where
  "translateRange t vaddr sz = \<lparr>tg_table = t, tg_start = vaddr, tg_size = sz\<rparr>"

definition tg_begin :: "TranslationGen \<Rightarrow> TIter res" where
  "tg_begin g = it_begin (tg_table g) (tg_start g) (tg_size g)"

text \<open>The ranges that a range-based \<^verbatim>\<open>for\<close> loop over the generator sees, up to the first fault, where the
  users of the generator stop; with fuel.\<close>

fun ranges_from :: "nat \<Rightarrow> EmulationPageTable \<Rightarrow> TIter \<Rightarrow> TRange list res option" where
  "ranges_from 0 t it = None"
| "ranges_from (Suc n) t it =
     (if it_eq it it_finish then Some (Inr [])
      else if tr_fault (current it) \<noteq> None then Some (Inr [current it])
      else case it_next t it of
             Inl e \<Rightarrow> Some (Inl e)
           | Inr it' \<Rightarrow> map_option (map_sum id (Cons (current it))) (ranges_from n t it'))"

definition tg_ranges :: "nat \<Rightarrow> TranslationGen \<Rightarrow> TRange list res option" where
  "tg_ranges fuel g = (case tg_begin g of Inl e \<Rightarrow> Some (Inl e) | Inr it \<Rightarrow> ranges_from fuel (tg_table g) it)"

section \<open>Pages\<close>

definition pt_ok :: "nat \<Rightarrow> EmulationPageTable \<Rightarrow> bool" where
  "pt_ok k t \<longleftrightarrow> k < 63 \<and> pageSize t = 2 ^ k \<and> offsetMask t = mask k"

lemma newEmulationPageTable_ok: "k < 63 \<Longrightarrow> \<exists>t. newEmulationPageTable pid (2 ^ k) = Inr t \<and> pt_ok k t \<and> pTable t = Map.empty"
proof -
  assume k: "k < 63"
  obtain y where y: "floorLog2 (2 ^ k) = Inr y" "2 ^ y \<le> unat (2 ^ k :: Addr)" "unat (2 ^ k :: Addr) < 2 ^ (y + 1)"
    using floorLog2_spec [of "2 ^ k"] k by (auto simp: unat_exp word_unat_eq_iff)
  then have "y = k" using log2_unique [of y "2 ^ k" k] k by (simp add: unat_exp)
  then show ?thesis using y(1) k isPowerOf2_exp [of k] by (simp add: newEmulationPageTable_def pt_ok_def mask_bits_eq)
qed

lemma page_split:
  assumes "pt_ok k t"
  shows "unat (pageAlign t a) = unat a div 2 ^ k * 2 ^ k" and "unat (pageOffset t a) = unat a mod 2 ^ k"
    and "pageAlign t a + pageOffset t a = a"
proof -
  have m: "offsetMask t = mask k" using assms by (simp add: pt_ok_def)
  show al: "unat (pageAlign t a) = unat a div 2 ^ k * 2 ^ k" by (simp add: pageAlign_def m unat_and_not_mask)
  show off: "unat (pageOffset t a) = unat a mod 2 ^ k" by (simp add: pageOffset_def m unat_take_bit flip: take_bit_eq_mask)
  have "unat (pageAlign t a) + unat (pageOffset t a) = unat a" unfolding al off by (simp add: div_mult_mod_eq)
  moreover from this have "unat (pageAlign t a) + unat (pageOffset t a) < 2 ^ 64" using unsigned_less [of a, where 'a = nat] by simp
  ultimately show "pageAlign t a + pageOffset t a = a" by (simp add: word_unat_eq_iff unat_add_small)
qed

text \<open>The pages of a region: the addresses a loop over it visits.\<close>

definition page_in :: "nat \<Rightarrow> Addr \<Rightarrow> int \<Rightarrow> Addr \<Rightarrow> bool" where
  "page_in k v sz a \<longleftrightarrow> unat v \<le> unat a \<and> int (unat a - unat v) < sz \<and> 2 ^ k dvd unat a - unat v"

lemma page_in_step:
  assumes "k < 63" and "0 < sz" and "int (unat v) + sz + 2 ^ k \<le> 2 ^ 64"
  shows "page_in k v sz a \<longleftrightarrow> a = v \<or> 0 < sz - 2 ^ k \<and> page_in k (v + 2 ^ k) (sz - 2 ^ k) a"
    and "0 < sz - 2 ^ k \<Longrightarrow> unat (v + 2 ^ k) = unat v + 2 ^ k"
    and "0 < sz - 2 ^ k \<Longrightarrow> \<not> page_in k (v + 2 ^ k) (sz - 2 ^ k) v"
proof -
  have e: "unat (2 ^ k :: Addr) = 2 ^ k" using assms(1) by (simp add: unat_exp)
  show u: "unat (v + 2 ^ k) = unat v + 2 ^ k" if "0 < sz - 2 ^ k"
  proof -
    have "int (unat v + 2 ^ k) < 2 ^ 64" using that assms(2,3) by simp
    then have "unat v + unat (2 ^ k :: Addr) < 2 ^ 64" unfolding e by (simp only: of_nat_less_numeral_power_cancel_iff)
    then show ?thesis by (simp add: unat_add_small e)
  qed
  show "\<not> page_in k (v + 2 ^ k) (sz - 2 ^ k) v" if "0 < sz - 2 ^ k" using u [OF that] by (simp add: page_in_def)
  show "page_in k v sz a \<longleftrightarrow> a = v \<or> 0 < sz - 2 ^ k \<and> page_in k (v + 2 ^ k) (sz - 2 ^ k) a"
  proof (cases "a = v")
    case True
    then show ?thesis using assms(2) by (simp add: page_in_def)
  next
    case False
    show ?thesis
    proof (cases "0 < sz - 2 ^ k")
      case True
      have d: "2 ^ k dvd unat a - unat v \<and> unat v \<le> unat a \<longleftrightarrow> 2 ^ k dvd unat a - (unat v + 2 ^ k) \<and> unat v + 2 ^ k \<le> unat a"
      proof
        assume a: "2 ^ k dvd unat a - unat v \<and> unat v \<le> unat a"
        then have "unat v < unat a" using False by (simp add: word_unat_eq_iff le_neq_implies_less)
        then have "2 ^ k \<le> unat a - unat v" using a by (intro dvd_imp_le) auto
        then show "2 ^ k dvd unat a - (unat v + 2 ^ k) \<and> unat v + 2 ^ k \<le> unat a"
          using a dvd_diff_nat [of "2 ^ k" "unat a - unat v" "2 ^ k"] by (auto simp: diff_diff_add)
      next
        assume a: "2 ^ k dvd unat a - (unat v + 2 ^ k) \<and> unat v + 2 ^ k \<le> unat a"
        then have e: "unat a - unat v = unat a - (unat v + 2 ^ k) + 2 ^ k" and le: "unat v \<le> unat a" by simp_all
        have "2 ^ k dvd unat a - (unat v + 2 ^ k) + 2 ^ k" using a by (intro dvd_add) simp_all
        then show "2 ^ k dvd unat a - unat v \<and> unat v \<le> unat a" using le unfolding e [symmetric] by blast
      qed
      have "int (unat a - unat v) < sz \<longleftrightarrow> int (unat a - (unat v + 2 ^ k)) < sz - 2 ^ k" if "unat v + 2 ^ k \<le> unat a"
        using that by (simp add: of_nat_diff)
      then show ?thesis using False True d u [OF True] unfolding page_in_def by auto
    next
      case notmore: False
      have "\<not> page_in k v sz a"
      proof
        assume "page_in k v sz a"
        then have p: "unat v \<le> unat a" "int (unat a - unat v) < sz" "2 ^ k dvd unat a - unat v" by (auto simp: page_in_def)
        then have "unat v < unat a" using False by (simp add: word_unat_eq_iff le_neq_implies_less)
        then have "2 ^ k \<le> unat a - unat v" using p(3) by (intro dvd_imp_le) auto
        then have "(2 :: int) ^ k \<le> int (unat a - unat v)" by (metis of_nat_le_iff of_nat_numeral of_nat_power)
        then show False using p(2) notmore by linarith
      qed
      then show ?thesis using False notmore by simp
    qed
  qed
qed

lemma map_loop_spec:
  assumes "pt_ok k t" and "int (unat v) + sz + 2 ^ k \<le> 2 ^ 64" and "clobber \<or> (\<forall>a. page_in k v sz a \<longrightarrow> pTable t a = None)"
  shows "map_loop clobber fl t v p sz =
    Inr (t\<lparr>pTable := (\<lambda>a. if page_in k v sz a then Some \<lparr>e_paddr = p + (a - v), e_flags = fl\<rparr> else pTable t a)\<rparr>)"
  using assms
proof (induction clobber fl t v p sz rule: map_loop.induct)
  case (1 clobber fl t v p sz)
  have k: "k < 63" "pageSize t = 2 ^ k" "uint (2 ^ k :: Addr) = 2 ^ k" "pageSize t \<noteq> 0"
    using "1.prems"(1) by (auto simp: pt_ok_def uint_nat unat_exp word_unat_eq_iff)
  show ?case
  proof (cases "0 < sz")
    case False
    then have "\<not> page_in k v sz a" for a by (simp add: page_in_def)
    then show ?thesis using False by (subst map_loop.simps) simp
  next
    case True
    note pi = page_in_step [OF k(1) True "1.prems"(2)]
    let ?t = "t\<lparr>pTable := (pTable t)(v \<mapsto> \<lparr>e_paddr = p, e_flags = fl\<rparr>)\<rparr>"
    have free: "pTable t v = None \<or> clobber" using "1.prems"(3) pi(1) by blast
    have step: "map_loop clobber fl t v p sz = map_loop clobber fl ?t (v + 2 ^ k) (p + 2 ^ k) (sz - 2 ^ k)"
      using True free k by (subst map_loop.simps) auto
    show ?thesis
    proof (cases "0 < sz - 2 ^ k")
      case False
      then have "map_loop clobber fl ?t (v + 2 ^ k) (p + 2 ^ k) (sz - 2 ^ k) = Inr ?t" by (subst map_loop.simps) simp
      moreover have "?t = t\<lparr>pTable := (\<lambda>a. if page_in k v sz a then Some \<lparr>e_paddr = p + (a - v), e_flags = fl\<rparr> else pTable t a)\<rparr>"
        using False by (auto simp: pi(1) fun_eq_iff intro!: EmulationPageTable.fold_congs(1))
      ultimately show ?thesis using step by simp
    next
      case more: True
      have "map_loop clobber fl ?t (v + 2 ^ k) (p + 2 ^ k) (sz - 2 ^ k) = Inr (?t\<lparr>pTable := (\<lambda>a. if page_in k (v + 2 ^ k) (sz - 2 ^ k) a
          then Some \<lparr>e_paddr = p + 2 ^ k + (a - (v + 2 ^ k)), e_flags = fl\<rparr> else pTable ?t a)\<rparr>)"
      proof (rule "1.IH" [unfolded k(2,3)])
        show "0 < sz \<and> (2 ^ k :: Addr) \<noteq> 0" using True k(2,4) by simp
        show "\<not> (pTable t v \<noteq> None \<and> \<not> clobber)" using free by auto
        show "pt_ok k ?t" using "1.prems"(1) by (simp add: pt_ok_def)
        show "int (unat (v + 2 ^ k)) + (sz - 2 ^ k) + 2 ^ k \<le> 2 ^ 64" using "1.prems"(2) pi(2) [OF more] by simp
        show "clobber \<or> (\<forall>a. page_in k (v + 2 ^ k) (sz - 2 ^ k) a \<longrightarrow> pTable ?t a = None)"
          using "1.prems"(3) pi(1,3) more by auto
      qed
      moreover have "?t\<lparr>pTable := (\<lambda>a. if page_in k (v + 2 ^ k) (sz - 2 ^ k) a
          then Some \<lparr>e_paddr = p + 2 ^ k + (a - (v + 2 ^ k)), e_flags = fl\<rparr> else pTable ?t a)\<rparr>
        = t\<lparr>pTable := (\<lambda>a. if page_in k v sz a then Some \<lparr>e_paddr = p + (a - v), e_flags = fl\<rparr> else pTable t a)\<rparr>"
        using pi(3) [OF more] more by (auto simp: pi(1) fun_eq_iff algebra_simps intro!: EmulationPageTable.fold_congs(1))
      ultimately show ?thesis using step by simp
    qed
  qed
qed

lemma page_offset_0: "pt_ok k t \<Longrightarrow> pageOffset t v = 0 \<longleftrightarrow> 2 ^ k dvd unat v"
  using page_split(2) [of k t v] by (simp add: unat_eq_zero [symmetric] dvd_eq_mod_eq_0 del: unat_eq_zero)

text \<open>An address belongs to a region of whole pages when its page does.\<close>

lemma page_in_align:
  assumes "pt_ok k t" and "2 ^ k dvd unat v" and "2 ^ k dvd n"
  shows "page_in k v (int n) (pageAlign t a) \<longleftrightarrow> unat v \<le> unat a \<and> unat a < unat v + n"
proof -
  let ?b = "unat a div 2 ^ k * 2 ^ k"
  have al: "unat (pageAlign t a) = ?b" by (rule page_split(1) [OF assms(1)])
  obtain i j where ij: "unat v = 2 ^ k * i" "n = 2 ^ k * j" using assms(2,3) by (auto simp: dvd_def)
  have dv: "2 ^ k dvd ?b - unat v" using assms(2) by simp
  have "unat v \<le> ?b \<longleftrightarrow> i \<le> unat a div 2 ^ k" by (simp add: ij mult.commute)
  also have "\<dots> \<longleftrightarrow> unat v \<le> unat a" by (simp add: ij less_eq_div_iff_mult_less_eq mult.commute)
  finally have le: "unat v \<le> ?b \<longleftrightarrow> unat v \<le> unat a" .
  have "?b < unat v + n \<longleftrightarrow> unat a div 2 ^ k < i + j" by (simp add: ij mult.commute flip: distrib_right)
  also have "\<dots> \<longleftrightarrow> unat a < unat v + n" by (simp add: ij div_less_iff_less_mult mult.commute algebra_simps)
  finally have "?b < unat v + n \<longleftrightarrow> unat a < unat v + n" .
  then show ?thesis using le dv unfolding page_in_def al by auto
qed

lemma map_loop_panic:
  assumes "pt_ok k t" and "int (unat v) + sz + 2 ^ k \<le> 2 ^ 64" and "\<not> clobber" and "page_in k v sz a" and "pTable t a \<noteq> None"
  shows "map_loop clobber fl t v p sz = Inl Panic"
  using assms
proof (induction clobber fl t v p sz rule: map_loop.induct)
  case (1 clobber fl t v p sz)
  have k: "k < 63" "pageSize t = 2 ^ k" "uint (2 ^ k :: Addr) = 2 ^ k" "pageSize t \<noteq> 0"
    using "1.prems"(1) by (auto simp: pt_ok_def uint_nat unat_exp word_unat_eq_iff)
  have pos: "0 < sz" using "1.prems"(4) by (auto simp: page_in_def)
  note pi = page_in_step [OF k(1) pos "1.prems"(2)]
  show ?case
  proof (cases "pTable t v = None")
    case False
    then show ?thesis using pos k(4) "1.prems"(3) by (subst map_loop.simps) simp
  next
    case True
    then have a: "0 < sz - 2 ^ k" "page_in k (v + 2 ^ k) (sz - 2 ^ k) a" "a \<noteq> v" using pi(1) "1.prems"(4,5) by auto
    let ?t = "t\<lparr>pTable := (pTable t)(v \<mapsto> \<lparr>e_paddr = p, e_flags = fl\<rparr>)\<rparr>"
    have "map_loop clobber fl ?t (v + 2 ^ k) (p + 2 ^ k) (sz - 2 ^ k) = Inl Panic"
    proof (rule "1.IH" [unfolded k(2,3)])
      show "0 < sz \<and> (2 ^ k :: Addr) \<noteq> 0" using pos k(2,4) by simp
      show "\<not> (pTable t v \<noteq> None \<and> \<not> clobber)" using True by auto
      show "pt_ok k ?t" using "1.prems"(1) by (simp add: pt_ok_def)
      show "int (unat (v + 2 ^ k)) + (sz - 2 ^ k) + 2 ^ k \<le> 2 ^ 64" using "1.prems"(2) pi(2) [OF a(1)] by simp
      show "pTable ?t a \<noteq> None" using "1.prems"(5) a(3) by simp
    qed (use "1.prems"(3) a in simp_all)
    then show ?thesis using True pos k by (subst map_loop.simps) simp
  qed
qed

lemma unmap_loop_spec:
  assumes "pt_ok k t" and "int (unat v) + sz + 2 ^ k \<le> 2 ^ 64" and "\<And>a. page_in k v sz a \<Longrightarrow> pTable t a \<noteq> None"
  shows "unmap_loop t v sz = Inr (t\<lparr>pTable := (\<lambda>a. if page_in k v sz a then None else pTable t a)\<rparr>)"
  using assms
proof (induction t v sz rule: unmap_loop.induct)
  case (1 t v sz)
  have k: "k < 63" "pageSize t = 2 ^ k" "uint (2 ^ k :: Addr) = 2 ^ k" "pageSize t \<noteq> 0"
    using "1.prems"(1) by (auto simp: pt_ok_def uint_nat unat_exp word_unat_eq_iff)
  show ?case
  proof (cases "0 < sz")
    case False
    then have "\<not> page_in k v sz a" for a by (simp add: page_in_def)
    then show ?thesis using False by (subst unmap_loop.simps) simp
  next
    case True
    note pi = page_in_step [OF k(1) True "1.prems"(2)]
    let ?t = "t\<lparr>pTable := (pTable t)(v := None)\<rparr>"
    have map: "pTable t v \<noteq> None" using "1.prems"(3) pi(1) by blast
    have step: "unmap_loop t v sz = unmap_loop ?t (v + 2 ^ k) (sz - 2 ^ k)" using True map k by (subst unmap_loop.simps) auto
    show ?thesis
    proof (cases "0 < sz - 2 ^ k")
      case False
      then have "unmap_loop ?t (v + 2 ^ k) (sz - 2 ^ k) = Inr ?t" by (subst unmap_loop.simps) simp
      moreover have "?t = t\<lparr>pTable := (\<lambda>a. if page_in k v sz a then None else pTable t a)\<rparr>"
        using False by (auto simp: pi(1) fun_eq_iff intro!: EmulationPageTable.fold_congs(1))
      ultimately show ?thesis using step by simp
    next
      case more: True
      have "unmap_loop ?t (v + 2 ^ k) (sz - 2 ^ k) = Inr (?t\<lparr>pTable := (\<lambda>a. if page_in k (v + 2 ^ k) (sz - 2 ^ k) a then None else pTable ?t a)\<rparr>)"
      proof (rule "1.IH" [unfolded k(2,3)])
        show "0 < sz \<and> (2 ^ k :: Addr) \<noteq> 0" using True k(2,4) by simp
        show "pTable t v \<noteq> None" by (rule map)
        show "pt_ok k ?t" using "1.prems"(1) by (simp add: pt_ok_def)
        show "int (unat (v + 2 ^ k)) + (sz - 2 ^ k) + 2 ^ k \<le> 2 ^ 64" using "1.prems"(2) pi(2) [OF more] by simp
        show "pTable ?t a \<noteq> None" if "page_in k (v + 2 ^ k) (sz - 2 ^ k) a" for a
          using that "1.prems"(3) [of a] pi(1) [of a] pi(3) [OF more] more by auto
      qed
      moreover have "?t\<lparr>pTable := (\<lambda>a. if page_in k (v + 2 ^ k) (sz - 2 ^ k) a then None else pTable ?t a)\<rparr>
        = t\<lparr>pTable := (\<lambda>a. if page_in k v sz a then None else pTable t a)\<rparr>"
        using more by (auto simp: pi(1) fun_eq_iff intro!: EmulationPageTable.fold_congs(1))
      ultimately show ?thesis using step by simp
    qed
  qed
qed

lemma translate_region:
  assumes "pt_ok k t" and "2 ^ k dvd unat v" and "2 ^ k dvd n"
  shows "pt_translate (t\<lparr>pTable := (\<lambda>a. if page_in k v (int n) a then f a else pTable t a)\<rparr>) a =
    (if unat v \<le> unat a \<and> unat a < unat v + n then map_option (\<lambda>e. pageOffset t a + e_paddr e) (f (pageAlign t a)) else pt_translate t a)"
  unfolding page_in_align [OF assms, symmetric] pt_translate_def pt_lookup_def pageAlign_def pageOffset_def by simp

lemma region_free:
  assumes "pt_ok k t" and "2 ^ k dvd unat v" and "2 ^ k dvd n" and "page_in k v (int n) a"
    and free: "\<And>x. unat v \<le> unat x \<Longrightarrow> unat x < unat v + n \<Longrightarrow> pt_translate t x = None"
  shows "pTable t a = None"
proof -
  have "2 ^ k dvd unat a - unat v" "unat v \<le> unat a" using assms(4) by (auto simp: page_in_def)
  then have "2 ^ k dvd unat a" using assms(2) dvd_diffD by blast
  then have "unat (pageAlign t a) = unat a" unfolding page_split(1) [OF assms(1)] by simp
  then have a: "pageAlign t a = a" by (rule word_unat_eq_iff [THEN iffD2])
  then have "unat v \<le> unat a \<and> unat a < unat v + n" using page_in_align [OF assms(1-3), of a] assms(4) by (metis (full_types))
  then have "pt_translate t a = None" by (intro free) blast+
  then show ?thesis by (simp only: pt_translate_def pt_lookup_def a option.map_disc_iff)
qed

text \<open>
  C12: mapping whole pages makes exactly the addresses of the region translate to the physical region, at the
  same distance from its start, and leaves all other translations alone; unmapping the region afterwards
  removes exactly these translations, so a mapping of free pages is undone.
\<close>

theorem page_map_translate:
  assumes "pt_ok k t" and "2 ^ k dvd unat v" and "2 ^ k dvd n" and "unat v + n + 2 ^ k \<le> 2 ^ 64"
    and "flags AND 1 \<noteq> 0 \<or> (\<forall>a. unat v \<le> unat a \<and> unat a < unat v + n \<longrightarrow> pt_translate t a = None)"
  shows "\<exists>t' t''. pt_map t v p (int n) flags = Inr t'
    \<and> (\<forall>a. pt_translate t' a = (if unat v \<le> unat a \<and> unat a < unat v + n then Some (p + (a - v)) else pt_translate t a))
    \<and> unmap t' v (int n) = Inr t''
    \<and> (\<forall>a. pt_translate t'' a = (if unat v \<le> unat a \<and> unat a < unat v + n then None else pt_translate t a))"
proof -
  have b: "int (unat v) + int n + 2 ^ k \<le> 2 ^ 64"
  proof -
    have "int (unat v + n + 2 ^ k) \<le> int (2 ^ 64)" using assms(4) by (simp only: of_nat_le_iff)
    then show ?thesis by simp
  qed
  have off: "pageOffset t v = 0" using page_offset_0 [OF assms(1)] assms(2) by simp
  have free: "flags AND 1 \<noteq> 0 \<or> (\<forall>a. page_in k v (int n) a \<longrightarrow> pTable t a = None)"
    using assms(5) region_free [OF assms(1-3)] by metis
  define f where "f = (\<lambda>a. Some \<lparr>e_paddr = p + (a - v), e_flags = flags\<rparr>)"
  define t' where "t' = t\<lparr>pTable := (\<lambda>a. if page_in k v (int n) a then f a else pTable t a)\<rparr>"
  define t'' where "t'' = t'\<lparr>pTable := (\<lambda>a. if page_in k v (int n) a then None else pTable t' a)\<rparr>"
  have ok: "pt_ok k t'" using assms(1) by (simp add: pt_ok_def t'_def)
  have m: "pt_map t v p (int n) flags = Inr t'"
    unfolding t'_def f_def using off map_loop_spec [OF assms(1) b free] by (simp add: pt_map_def)
  have "unmap_loop t' v (int n) = Inr t''" unfolding t''_def
    by (rule unmap_loop_spec [OF ok b]) (simp add: t'_def f_def)
  moreover have "pageOffset t' v = 0" using off by (simp add: t'_def pageOffset_def)
  ultimately have u: "unmap t' v (int n) = Inr t''" by (simp add: unmap_def)
  have sum: "pageOffset t a + (p + (pageAlign t a - v)) = p + (a - v)" for a
  proof -
    have "pageOffset t a + (p + (pageAlign t a - v)) = p + ((pageAlign t a + pageOffset t a) - v)" by (simp add: algebra_simps)
    then show ?thesis unfolding page_split(3) [OF assms(1)] .
  qed
  have tr: "pt_translate t' a = (if unat v \<le> unat a \<and> unat a < unat v + n then Some (p + (a - v)) else pt_translate t a)" for a
    unfolding t'_def translate_region [OF assms(1-3)] f_def option.map PTEntry.select_convs sum ..
  have "t'' = t\<lparr>pTable := (\<lambda>a. if page_in k v (int n) a then None else pTable t a)\<rparr>"
    unfolding t''_def t'_def by (simp add: fun_eq_iff cong: if_cong)
  then have "pt_translate t'' a = (if unat v \<le> unat a \<and> unat a < unat v + n then None else pt_translate t a)" for a
    using translate_region [OF assms(1-3), of "\<lambda>_. None" a] by (simp only: option.map)
  then show ?thesis using m u tr by blast
qed

text \<open>
  C36: the error behaviour of mapping. A region that does not start at a page boundary fails an assertion;
  one with a page that is already mapped panics unless the clobber flag is set; any other region, up to
  the end of the address space, is mapped.
\<close>

theorem page_map_errors:
  assumes "pt_ok k t" and "0 \<le> sz" and "int (unat v) + sz + 2 ^ k \<le> 2 ^ 64"
  shows "pt_map t v p sz flags =
    (if pageOffset t v \<noteq> 0 then Inl AssertFail
     else if flags AND 1 = 0 \<and> (\<exists>a. page_in k v sz a \<and> pTable t a \<noteq> None) then Inl Panic
     else Inr (t\<lparr>pTable := (\<lambda>a. if page_in k v sz a then Some \<lparr>e_paddr = p + (a - v), e_flags = flags\<rparr> else pTable t a)\<rparr>))"
proof (cases "flags AND 1 = 0 \<and> (\<exists>a. page_in k v sz a \<and> pTable t a \<noteq> None)")
  case True
  then obtain a where "page_in k v sz a" "pTable t a \<noteq> None" by blast
  then show ?thesis using True map_loop_panic [OF assms(1,3), of "flags AND 1 \<noteq> 0" a flags p] by (simp add: pt_map_def)
next
  case False
  then have "flags AND 1 \<noteq> 0 \<or> (\<forall>a. page_in k v sz a \<longrightarrow> pTable t a = None)" by auto
  from map_loop_spec [OF assms(1,3) this, of flags p] show ?thesis
    by (cases "pageOffset t v = 0") (simp_all only: pt_map_def ensure_def False if_False if_True simp_thms)
qed

section \<open>Walking a range\<close>

text \<open>How many bytes from an address on lie in its page, and their translations.\<close>

definition page_rest :: "nat \<Rightarrow> Addr \<Rightarrow> nat" where
  "page_rest k a = 2 ^ k - unat a mod 2 ^ k"

lemma page_rest_pos: "0 < page_rest k a" "page_rest k a \<le> 2 ^ k"
  by (simp_all add: page_rest_def)

lemma translate_in_page:
  assumes "pt_ok k t" and "j < page_rest k a"
  shows "pt_translate t (a + of_nat j) = map_option (\<lambda>p. p + of_nat j) (pt_translate t a)"
proof -
  have k: "k < 63" using assms(1) by (simp add: pt_ok_def)
  have off: "unat a mod 2 ^ k + j < 2 ^ k" using assms(2) mod_less_divisor [of "2 ^ k" "unat a"] by (simp add: page_rest_def)
  have pw: "(2 :: nat) ^ 64 = 2 ^ (64 - k) * 2 ^ k" using k by (simp flip: power_add)
  have "unat a < 2 ^ 64" using unsigned_less [of a, where 'a = nat] by simp
  then have "unat a div 2 ^ k < 2 ^ (64 - k)" unfolding pw by (rule less_mult_imp_div_less)
  then have "Suc (unat a div 2 ^ k) * 2 ^ k \<le> 2 ^ 64" unfolding pw by (intro mult_le_mono1) simp
  moreover have d: "unat a = unat a div 2 ^ k * 2 ^ k + unat a mod 2 ^ k" by (rule div_mult_mod_eq [symmetric])
  ultimately have lt: "unat a + j < 2 ^ 64" using off unfolding mult_Suc by linarith
  then have j: "unat (of_nat j :: Addr) = j" by (simp add: unat_of_nat take_bit_nat_eq_self)
  then have a: "unat (a + of_nat j) = unat a + j" using lt by (simp add: unat_add_small)
  have "(unat a + j) div 2 ^ k = unat a div 2 ^ k"
  proof -
    have "(unat a + j) div 2 ^ k = (unat a div 2 ^ k * 2 ^ k + (unat a mod 2 ^ k + j)) div 2 ^ k" by (subst d) (simp only: add.assoc)
    also have "\<dots> = unat a div 2 ^ k + (unat a mod 2 ^ k + j) div 2 ^ k" by (simp add: div_mult_self3)
    finally show ?thesis using off by simp
  qed
  then have al: "pageAlign t (a + of_nat j) = pageAlign t a" by (simp add: word_unat_eq_iff page_split(1) [OF assms(1)] a)
  then have "pageOffset t (a + of_nat j) = pageOffset t a + of_nat j"
  proof -
    have "pageAlign t a + pageOffset t (a + of_nat j) = pageAlign t a + (pageOffset t a + of_nat j)"
      using page_split(3) [OF assms(1), of "a + of_nat j"] unfolding add.assoc [symmetric] page_split(3) [OF assms(1), of a] al .
    then show ?thesis by (rule add_left_imp_eq)
  qed
  then show ?thesis unfolding pt_translate_def pt_lookup_def al by (cases "pTable t (pageAlign t a)") (simp_all add: algebra_simps)
qed

lemma gen_translate_spec:
  assumes "pt_ok k t" and "unat (tr_vaddr r) + 2 ^ k < 2 ^ 64"
  shows "\<exists>r'. gen_translate t r = Inr r' \<and> tr_vaddr r' = tr_vaddr r \<and> unat (tr_size r') = min (unat (tr_size r)) (page_rest k (tr_vaddr r))
    \<and> (case pt_translate t (tr_vaddr r) of None \<Rightarrow> tr_fault r' = Some (tr_vaddr r) | Some p \<Rightarrow> tr_paddr r' = p \<and> tr_fault r' = tr_fault r)"
proof -
  let ?a = "tr_vaddr r"
  have k: "k < 63" "pageSize t = 2 ^ k" "unat (2 ^ k :: Addr) = 2 ^ k" using assms(1) by (auto simp: pt_ok_def unat_exp)
  obtain x where x: "roundUp ?a (2 ^ k) = Inr x" "unat x = (unat ?a + 2 ^ k - 1) div 2 ^ k * 2 ^ k"
    using roundUp_spec [of k ?a] k assms(2) by auto
  define y where "y = (if x = ?a then x + 2 ^ k else x)"
  have d: "unat ?a = unat ?a div 2 ^ k * 2 ^ k + unat ?a mod 2 ^ k" by (rule div_mult_mod_eq [symmetric])
  have "unat (y - ?a) = page_rest k ?a"
  proof (cases "unat ?a mod 2 ^ k = 0")
    case True
    have "(unat ?a + 2 ^ k - 1) div 2 ^ k = (unat ?a div 2 ^ k * 2 ^ k + (2 ^ k - 1)) div 2 ^ k" using True by (subst d) simp
    also have "\<dots> = unat ?a div 2 ^ k" by (subst div_mult_self3) simp_all
    finally have "x = ?a" using x(2) d True by (simp add: word_unat_eq_iff)
    then show ?thesis using k(3) True by (simp add: y_def page_rest_def)
  next
    case False
    have "unat ?a + 2 ^ k - 1 = Suc (unat ?a div 2 ^ k) * 2 ^ k + (unat ?a mod 2 ^ k - 1)"
      using False d unfolding mult_Suc by linarith
    then have "(unat ?a + 2 ^ k - 1) div 2 ^ k = (Suc (unat ?a div 2 ^ k) * 2 ^ k + (unat ?a mod 2 ^ k - 1)) div 2 ^ k"
      by (rule arg_cong)
    also have "\<dots> = Suc (unat ?a div 2 ^ k)"
    proof -
      have "unat ?a mod 2 ^ k < 2 ^ k" by simp
      then have "unat ?a mod 2 ^ k - 1 < 2 ^ k" by linarith
      then show ?thesis by (subst div_mult_self3) simp_all
    qed
    finally have u: "unat x = unat ?a div 2 ^ k * 2 ^ k + 2 ^ k" using x(2) by simp
    then have lt: "unat ?a < unat x" using d mod_less_divisor [of "2 ^ k" "unat ?a", OF zero_less_power [OF zero_less_numeral]] by linarith
    then have "unat (x - ?a) = unat x - unat ?a" by (simp add: unat_sub word_le_nat_alt)
    then show ?thesis using lt u d by (auto simp: y_def page_rest_def)
  qed
  then have "unat (min (tr_size r) (y - ?a)) = min (unat (tr_size r)) (page_rest k ?a)" by (simp add: min_def word_le_nat_alt)
  then show ?thesis using x(1) unfolding gen_translate_def k(2) by (auto simp: Let_def y_def split: option.split)
qed

text \<open>An iterator at some distance into the region.\<close>

definition iter_at :: "nat \<Rightarrow> EmulationPageTable \<Rightarrow> Addr \<Rightarrow> nat \<Rightarrow> nat \<Rightarrow> TIter \<Rightarrow> bool" where
  "iter_at k t v n i it \<longleftrightarrow>
     (if i = n then it_eq it it_finish
      else i < n \<and> it_gen it = Some (v, of_nat n) \<and> \<not> it_end it \<and> tr_vaddr (current it) = v + of_nat i
        \<and> unat (tr_size (current it)) = min (n - i) (page_rest k (v + of_nat i))
        \<and> (case pt_translate t (v + of_nat i) of
             None \<Rightarrow> tr_fault (current it) = Some (v + of_nat i)
           | Some p \<Rightarrow> tr_paddr (current it) = p \<and> tr_fault (current it) = None))"

lemma unat_of_nat_addr: "n < 2 ^ 64 \<Longrightarrow> unat (of_nat n :: Addr) = n"
  by (simp add: unat_of_nat take_bit_nat_eq_self)

lemma unat_offset: "unat (v :: Addr) + n < 2 ^ 64 \<Longrightarrow> i \<le> n \<Longrightarrow> unat (v + of_nat i) = unat v + i"
  by (simp add: unat_add_small unat_of_nat_addr)

lemma it_update_at:
  assumes "pt_ok k t" and "unat v + n + 2 ^ k < 2 ^ 64" and "i \<le> n" and "it_gen it = Some (v, of_nat n)" and "\<not> it_end it"
    and "tr_vaddr (current it) = v + of_nat i" and "tr_fault (current it) = None"
  shows "\<exists>it'. it_update t it = Inr it' \<and> iter_at k t v n i it'"
proof -
  have n: "unat (of_nat n :: Addr) = n" "unat (of_nat i :: Addr) = i" using assms(2,3) by (simp_all add: unat_of_nat_addr)
  then have sz: "unat (of_nat n - (of_nat i :: Addr)) = n - i" using assms(3) by (simp add: unat_sub word_le_nat_alt)
  show ?thesis
  proof (cases "i = n")
    case True
    then show ?thesis using assms(4,6) by (simp add: it_update_def Let_def iter_at_def it_eq_def it_finish_def)
  next
    case False
    define r where "r = (current it)\<lparr>tr_paddr := 0, tr_size := of_nat n - (of_nat i :: Addr)\<rparr>"
    have ne: "of_nat n - (of_nat i :: Addr) \<noteq> 0" using sz False assms(3) by (metis diff_is_0_eq le_antisym unat_0)
    have "unat (tr_vaddr r) + 2 ^ k < 2 ^ 64" using assms(2,3,6) unat_offset [of v n i] by (simp add: r_def)
    note spec = gen_translate_spec [OF assms(1) this]
    have r: "tr_vaddr r = v + of_nat i" "tr_fault r = None" "unat (tr_size r) = n - i" using assms(6,7) sz by (simp_all add: r_def)
    obtain r' where r': "gen_translate t r = Inr r'" "tr_vaddr r' = v + of_nat i"
      "unat (tr_size r') = min (n - i) (page_rest k (v + of_nat i))"
      "case pt_translate t (v + of_nat i) of None \<Rightarrow> tr_fault r' = Some (v + of_nat i) | Some p \<Rightarrow> tr_paddr r' = p \<and> tr_fault r' = None"
      using spec unfolding r by blast
    have "it_update t it = Inr (it\<lparr>current := r'\<rparr>)"
      using assms(4,6) r'(1) ne by (simp add: it_update_def Let_def r_def)
    then show ?thesis using r' False assms(3-5) by (simp add: iter_at_def split: option.splits)
  qed
qed

text \<open>The bytes of a list of ranges with their translations.\<close>

definition range_bytes :: "TRange \<Rightarrow> (Addr \<times> Addr) list" where
  "range_bytes r = map (\<lambda>j. (tr_vaddr r + of_nat j, tr_paddr r + of_nat j)) [0..<unat (tr_size r)]"

lemma iter_at_step:
  assumes "pt_ok k t" and "unat v + n + 2 ^ k < 2 ^ 64" and "iter_at k t v n i it" and "i < n" and "pt_translate t (v + of_nat i) = Some p"
    and m: "m = unat (tr_size (current it))"
  shows "0 < m" and "m \<le> 2 ^ k" and "i + m \<le> n" and "tr_paddr (current it) = p" and "tr_vaddr (current it) = v + of_nat i"
    and "tr_fault (current it) = None" and "\<not> it_eq it it_finish"
    and "j < m \<Longrightarrow> pt_translate t (v + of_nat (i + j)) = Some (p + of_nat j)"
    and "\<exists>it'. it_next t it = Inr it' \<and> iter_at k t v n (i + m) it'"
proof -
  have it: "it_gen it = Some (v, of_nat n)" "\<not> it_end it" "tr_vaddr (current it) = v + of_nat i" "m = min (n - i) (page_rest k (v + of_nat i))"
    "tr_paddr (current it) = p" "tr_fault (current it) = None"
    using assms(3-6) by (simp_all add: iter_at_def)
  show "0 < m" "m \<le> 2 ^ k" and le: "i + m \<le> n" using it(4) assms(4) page_rest_pos [where k = k and a = "v + of_nat i"] by auto
  show "tr_paddr (current it) = p" "tr_vaddr (current it) = v + of_nat i" "tr_fault (current it) = None" by (fact it)+
  show "\<not> it_eq it it_finish" using it(1) by (simp add: it_eq_def it_finish_def)
  show "pt_translate t (v + of_nat (i + j)) = Some (p + of_nat j)" if "j < m"
  proof -
    have "j < page_rest k (v + of_nat i)" using that it(4) by simp
    from translate_in_page [OF assms(1) this] show ?thesis using assms(5) by (simp add: add.assoc)
  qed
  let ?it = "it\<lparr>current := (current it)\<lparr>tr_vaddr := tr_vaddr (current it) + tr_size (current it)\<rparr>\<rparr>"
  have "it_next t it = it_update t ?it" using it by (simp add: it_next_def Let_def)
  moreover have "tr_size (current it) = of_nat m" using m by simp
  then have "tr_vaddr (current ?it) = v + of_nat (i + m)" using it(3) by (simp add: add.assoc)
  then have "\<exists>it'. it_update t ?it = Inr it' \<and> iter_at k t v n (i + m) it'"
    by (intro it_update_at [OF assms(1,2) le]) (use it in simp_all)
  ultimately show "\<exists>it'. it_next t it = Inr it' \<and> iter_at k t v n (i + m) it'" by simp
qed

definition tiles :: "nat \<Rightarrow> EmulationPageTable \<Rightarrow> Addr \<Rightarrow> nat \<Rightarrow> nat \<Rightarrow> TRange list \<Rightarrow> bool" where
  "tiles k t v i m rs \<longleftrightarrow> concat (map range_bytes rs) = map (\<lambda>j. (v + of_nat j, the (pt_translate t (v + of_nat j)))) [i..<m]
     \<and> (\<forall>j\<in>{i..<m}. pt_translate t (v + of_nat j) \<noteq> None)
     \<and> (\<forall>r\<in>set rs. tr_fault r = None \<and> 0 < tr_size r \<and> unat (tr_size r) \<le> 2 ^ k)"

lemma ranges_from_spec:
  assumes "pt_ok k t" and "unat v + n + 2 ^ k < 2 ^ 64" and "i \<le> n" and "iter_at k t v n i it" and "n - i < fuel"
  shows "\<exists>rs m. i \<le> m \<and> m \<le> n \<and> tiles k t v i m rs
    \<and> (m = n \<and> ranges_from fuel t it = Some (Inr rs)
       \<or> m < n \<and> pt_translate t (v + of_nat m) = None
         \<and> (\<exists>r. ranges_from fuel t it = Some (Inr (rs @ [r])) \<and> tr_fault r = Some (v + of_nat m)))"
  using assms(3-5)
proof (induction fuel arbitrary: i it)
  case (Suc fuel)
  show ?case
  proof (cases "i = n")
    case True
    then show ?thesis using Suc.prems(2) by (intro exI [of _ "[]"] exI [of _ n]) (simp add: iter_at_def tiles_def)
  next
    case False
    then have i: "i < n" using Suc.prems(1) by simp
    show ?thesis
    proof (cases "pt_translate t (v + of_nat i)")
      case None
      then show ?thesis using Suc.prems(2) i
        by (intro exI [of _ "[]"] exI [of _ i]) (auto simp: iter_at_def tiles_def it_eq_def it_finish_def)
    next
      case (Some p)
      define m where "m = unat (tr_size (current it))"
      note st = iter_at_step [OF assms(1,2) Suc.prems(2) i Some m_def]
      obtain it' where it': "it_next t it = Inr it'" "iter_at k t v n (i + m) it'" using st(9) by blast
      have "n - (i + m) < fuel" using Suc.prems(3) st(1) i by linarith
      from Suc.IH [OF st(3) it'(2) this] obtain rs l where rs: "i + m \<le> l" "l \<le> n" "tiles k t v (i + m) l rs"
        "l = n \<and> ranges_from fuel t it' = Some (Inr rs) \<or> l < n \<and> pt_translate t (v + of_nat l) = None
         \<and> (\<exists>r. ranges_from fuel t it' = Some (Inr (rs @ [r])) \<and> tr_fault r = Some (v + of_nat l))" by blast
      have walk: "ranges_from (Suc fuel) t it = map_option (map_sum id (Cons (current it))) (ranges_from fuel t it')"
        using it'(1) st(6,7) by simp
      have b: "range_bytes (current it) = map (\<lambda>j. (v + of_nat j, the (pt_translate t (v + of_nat j)))) [i..<i + m]"
        unfolding range_bytes_def m_def [symmetric] st(4,5)
        by (rule nth_equalityI) (simp_all add: st(8) del: of_nat_add, simp add: add.assoc)
      have up: "[i..<l] = [i..<i + m] @ [i + m..<l]" using rs(1) by (metis le_add1 le_add_diff_inverse upt_add_eq_append)
      have dom: "pt_translate t (v + of_nat j) \<noteq> None" if "j \<in> {i..<l}" for j
        using that rs(3) st(8) [of "j - i"] by (cases "j < i + m") (auto simp: tiles_def simp del: of_nat_add)
      have "tr_size (current it) \<noteq> 0" using st(1) by (auto simp: m_def)
      then have sz: "0 < tr_size (current it) \<and> unat (tr_size (current it)) \<le> 2 ^ k" using st(2) by (simp add: m_def word_neq_0_conv)
      have "tiles k t v i l (current it # rs)"
        unfolding tiles_def using rs(3) b up dom st(6) sz by (simp add: tiles_def)
      then show ?thesis using rs(1,2,4) walk
        by (intro exI [of _ "current it # rs"] exI [of _ l]) auto
    qed
  qed
qed simp


text \<open>A table with pages of 16 bytes that maps two adjacent pages to frames in the opposite order.\<close>

definition sample_table :: EmulationPageTable where
  "sample_table = \<lparr>pTable = [0x40 \<mapsto> \<lparr>e_paddr = 0x90, e_flags = 0\<rparr>, 0x50 \<mapsto> \<lparr>e_paddr = 0x80, e_flags = 0\<rparr>],
     pageSize = 16, offsetMask = 15, pt_pid = 1\<rparr>"

lemma sample_table_ok: "pt_ok 4 sample_table"
  by (simp add: pt_ok_def sample_table_def mask_eq_exp_minus_1)

theorem page_map_translate_witness:
  "\<exists>t' t''. pt_map sample_table 0x60 0xA0 (int 32) 0 = Inr t' \<and> pt_translate t' 0x75 = Some 0xB5 \<and> pt_translate t' 0x45 = Some 0x95
    \<and> unmap t' 0x60 (int 32) = Inr t'' \<and> pt_translate t'' 0x75 = None \<and> pt_translate t'' 0x45 = Some 0x95"
proof -
  have n: "pt_translate sample_table a = None" if a: "96 \<le> unat a \<and> unat a < 96 + 32" for a
  proof -
    have "unat (pageAlign sample_table a) = unat a div 16 * 16" using page_split(1) [OF sample_table_ok, of a] by simp
    then have "unat (pageAlign sample_table a) \<ge> 96" using a div_le_mono [of 96 "unat a" 16] by simp
    then have "pageAlign sample_table a \<noteq> 0x40" "pageAlign sample_table a \<noteq> 0x50" by auto
    then show ?thesis by (simp add: pt_translate_def pt_lookup_def) (simp add: sample_table_def)
  qed
  have "unat (0x60 :: Addr) = 96" by simp
  then obtain t' t'' where t: "pt_map sample_table 0x60 0xA0 (int 32) 0 = Inr t'" "unmap t' 0x60 (int 32) = Inr t''"
    "\<And>a. pt_translate t' a = (if unat (0x60 :: Addr) \<le> unat a \<and> unat a < unat (0x60 :: Addr) + 32 then Some (0xA0 + (a - 0x60)) else pt_translate sample_table a)"
    "\<And>a. pt_translate t'' a = (if unat (0x60 :: Addr) \<le> unat a \<and> unat a < unat (0x60 :: Addr) + 32 then None else pt_translate sample_table a)"
    using page_map_translate [OF sample_table_ok, of "0x60" 32 0 "0xA0"] n by auto
  have s: "pt_translate sample_table 0x45 = Some 0x95"
    by (simp add: pt_translate_def pt_lookup_def pageAlign_def pageOffset_def sample_table_def)
  have "pt_translate t' 0x75 = Some 0xB5" "pt_translate t' 0x45 = Some 0x95" "pt_translate t'' 0x75 = None" "pt_translate t'' 0x45 = Some 0x95"
    by (simp_all add: t(3,4) s)
  then show ?thesis using t(1,2) by blast
qed

theorem page_map_errors_witness: "pt_map sample_table 0x30 0xA0 (int 32) 0 = Inl Panic \<and> pt_map sample_table 0x31 0xA0 (int 32) 1 = Inl AssertFail"
proof -
  have a: "page_in 4 0x30 (int 32) 0x40" "pTable sample_table 0x40 \<noteq> None" by (simp_all add: page_in_def sample_table_def)
  have "pageOffset sample_table 0x30 = 0" "pageOffset sample_table 0x31 \<noteq> 0" by (simp_all add: pageOffset_def sample_table_def)
  then show ?thesis using page_map_errors [OF sample_table_ok, of "int 32" "0x30" "0xA0" 0] page_map_errors [OF sample_table_ok, of "int 32" "0x31" "0xA0" 1] a
    by auto
qed


end
