(* ===== verification/Dma_Virt.thy ===== *)
theory Dma_Virt
  imports Page_Table Dma_Port
begin

text \<open>
  DMA over virtual addresses: the callback class of \<^verbatim>\<open>dev/dma_device.hh\<close>, which waits for all the chunks of
  a transfer, and the device of \<^verbatim>\<open>dev/dma_virt_device.hh\<close> and \<^verbatim>\<open>dev/dma_virt_device.cc\<close>, which translates a region
  range by range and starts a DMA for each. The callbacks and their events are heap objects, named by numbers.
\<close>

section \<open>Callbacks\<close>

record 'f DmaCallback =
  cb_count :: "32 word"
  cb_function :: 'f
  cb_drainState :: DrainState

record 'f CallbackHeap =
  callbacks :: "nat \<rightharpoonup> 'f DmaCallback"
  nextCallback :: nat
  chunkEvents :: "nat \<rightharpoonup> nat"
  nextEvent :: nat
  drainSignals :: nat

definition newDmaVirtCallback :: "'f \<Rightarrow> 'f CallbackHeap \<Rightarrow> nat \<times> 'f CallbackHeap" where
  "newDmaVirtCallback f cs =
     (nextCallback cs,
      cs\<lparr>callbacks := (callbacks cs)(nextCallback cs \<mapsto> \<lparr>cb_count = 0, cb_function = f, cb_drainState = Running\<rparr>),
         nextCallback := nextCallback cs + 1\<rparr>)"

definition cb_drain :: "'f DmaCallback \<Rightarrow> DrainState" where
  "cb_drain cb = (if cb_count cb \<noteq> 0 then Draining else Drained)"

definition cb_deref :: "'f CallbackHeap \<Rightarrow> nat \<Rightarrow> 'f DmaCallback res" where
  "cb_deref cs c = (case callbacks cs c of None \<Rightarrow> Inl AssertFail | Some cb \<Rightarrow> Inr cb)"

definition getChunkEvent :: "nat \<Rightarrow> 'f CallbackHeap \<Rightarrow> (nat \<times> 'f CallbackHeap) res" where
  "getChunkEvent c cs =
     rbind (cb_deref cs c) (\<lambda>cb.
       Inr (nextEvent cs,
            cs\<lparr>callbacks := (callbacks cs)(c \<mapsto> cb\<lparr>cb_count := cb_count cb + 1\<rparr>),
               chunkEvents := (chunkEvents cs)(nextEvent cs \<mapsto> c), nextEvent := nextEvent cs + 1\<rparr>))"

text \<open>The state of a device with callbacks, of its port, and of the memory behind it.\<close>

type_synonym ('s, 'f, 'w) virt_world = "'s \<times> 'f CallbackHeap \<times> 'w dma_world"

text \<open>\<^verbatim>\<open>chunkComplete\<close>; \<open>proc\<close> is the virtual method \<^verbatim>\<open>process\<close>, which may run for long, so its fuel is \<open>None\<close>.\<close>

definition chunkComplete ::
  "('f \<Rightarrow> ('s, 'f, 'w) virt_world \<Rightarrow> ('s, 'f, 'w) virt_world res option) \<Rightarrow> nat \<Rightarrow> ('s, 'f, 'w) virt_world
    \<Rightarrow> ('s, 'f, 'w) virt_world res option" where
  "chunkComplete proc c x =
     (case x of (s, cs, dw) \<Rightarrow>
      case cb_deref cs c of
        Inl e \<Rightarrow> Some (Inl e)
      | Inr cb \<Rightarrow>
          let cb = cb\<lparr>cb_count := cb_count cb - 1\<rparr>;
              cs = cs\<lparr>callbacks := (callbacks cs)(c \<mapsto> cb)\<rparr>
          in if cb_count cb = 0 then
               (case proc (cb_function cb) (s, cs, dw) of
                  None \<Rightarrow> None
                | Some (Inl e) \<Rightarrow> Some (Inl e)
                | Some (Inr (s, cs, dw)) \<Rightarrow>
                    let n = snd (signalDrainDone (cb_drainState cb, drainSignals cs))
                    in Some (Inr (s, cs\<lparr>drainSignals := n, callbacks := (callbacks cs)(c := None)\<rparr>, dw)))
             else Some (Inr (s, cs, dw)))"

text \<open>The event queue runs a chunk event, which is deleted after it.\<close>

definition chunk_event_process ::
  "('f \<Rightarrow> ('s, 'f, 'w) virt_world \<Rightarrow> ('s, 'f, 'w) virt_world res option) \<Rightarrow> nat \<Rightarrow> ('s, 'f, 'w) virt_world
    \<Rightarrow> ('s, 'f, 'w) virt_world res option" where
  "chunk_event_process proc e x =
     (case x of (s, cs, d, h, w) \<Rightarrow>
      case chunkEvents cs e of
        None \<Rightarrow> Some (Inl AssertFail)
      | Some c \<Rightarrow> chunkComplete proc c
          (s, cs\<lparr>chunkEvents := (chunkEvents cs)(e := None)\<rparr>, d\<lparr>devEvents := (devEvents d)(e := None)\<rparr>, h, w))"

section \<open>Transfers\<close>

type_synonym 'w dma_fn = "Addr \<Rightarrow> 32 word \<Rightarrow> nat option \<Rightarrow> nat \<Rightarrow> Tick \<Rightarrow> 'w dma_world \<Rightarrow> 'w dma_world res option"

definition chunk_event_opt :: "nat option \<Rightarrow> 'f CallbackHeap \<Rightarrow> (nat option \<times> 'f CallbackHeap) res" where
  "chunk_event_opt cb cs =
     (case cb of None \<Rightarrow> Inr (None, cs) | Some c \<Rightarrow> rbind (getChunkEvent c cs) (\<lambda>(e, cs). Inr (Some e, cs)))"

text \<open>The loop of \<^verbatim>\<open>dmaVirt\<close> over the ranges of the generator, with fuel. The sizes of ranges are \<^verbatim>\<open>Addr\<close>, cut to
  an \<^verbatim>\<open>int\<close> in the call.\<close>

fun virt_loop ::
  "nat \<Rightarrow> 'w dma_fn \<Rightarrow> EmulationPageTable \<Rightarrow> nat option \<Rightarrow> Tick \<Rightarrow> TIter \<Rightarrow> nat \<Rightarrow> 'f CallbackHeap \<times> 'w dma_world
    \<Rightarrow> ('f CallbackHeap \<times> 'w dma_world) res option" where
  "virt_loop 0 dmaFn t cb delay it loc_data x = None"
| "virt_loop (Suc n) dmaFn t cb delay it loc_data (cs, dw) =
     (if it_eq it it_finish then Some (Inr (cs, dw))
      else if tr_fault (current it) \<noteq> None then Some (Inl Fatal)
      else case chunk_event_opt cb cs of
             Inl e \<Rightarrow> Some (Inl e)
           | Inr (ev, cs) \<Rightarrow>
               (case dmaFn (tr_paddr (current it)) (ucast (tr_size (current it))) ev loc_data delay dw of
                  None \<Rightarrow> None
                | Some (Inl e) \<Rightarrow> Some (Inl e)
                | Some (Inr dw) \<Rightarrow>
                    (case it_next t it of
                       Inl e \<Rightarrow> Some (Inl e)
                     | Inr it' \<Rightarrow> virt_loop n dmaFn t cb delay it' (loc_data + unat (tr_size (current it))) (cs, dw))))"

definition dmaVirt ::
  "nat \<Rightarrow> 'w dma_fn \<Rightarrow> (Addr \<Rightarrow> Addr \<Rightarrow> TranslationGen res) \<Rightarrow> Tick \<Rightarrow> Addr \<Rightarrow> 32 word \<Rightarrow> nat option \<Rightarrow> nat \<Rightarrow> Tick
    \<Rightarrow> 'f CallbackHeap \<times> 'w dma_world \<Rightarrow> ('f CallbackHeap \<times> 'w dma_world) res option" where
  "dmaVirt fuel dmaFn translate now a sz cb dat delay x =
     (case x of (cs, d, h, w) \<Rightarrow>
      if sz = 0 then
        (case cb of
           None \<Rightarrow> Some (Inr x)
         | Some c \<Rightarrow>
             Some (rbind (getChunkEvent c cs) (\<lambda>(e, cs). rbind (dev_schedule now e (now + delay) d) (\<lambda>d. Inr (cs, d, h, w)))))
      else case translate a (ucast sz) of
             Inl e \<Rightarrow> Some (Inl e)
           | Inr g \<Rightarrow>
               (case tg_begin g of
                  Inl e \<Rightarrow> Some (Inl e)
                | Inr it \<Rightarrow> virt_loop fuel dmaFn (tg_table g) cb delay it dat x))"

text \<open>The answers of the peer to timing requests may depend on all requests so far.\<close>

definition dmaReadVirt ::
  "nat \<Rightarrow> MemoryMode \<Rightarrow> 'w peer \<Rightarrow> 'w bd_peer \<Rightarrow> (Packet list \<Rightarrow> bool) \<Rightarrow> (Addr \<Rightarrow> Addr \<Rightarrow> TranslationGen res) \<Rightarrow> Tick \<Rightarrow> Addr
    \<Rightarrow> 32 word \<Rightarrow> nat option \<Rightarrow> nat \<Rightarrow> Tick \<Rightarrow> 'f CallbackHeap \<times> 'w dma_world \<Rightarrow> ('f CallbackHeap \<times> 'w dma_world) res option" where
  "dmaReadVirt fuel mode sa sab accepts translate now host_addr sz cb dat delay x =
     dmaVirt fuel (\<lambda>a n ev p dl y. dmaRead fuel mode sa sab now (accepts (sentReqs (fst y))) a n ev p dl y)
       translate now host_addr sz cb dat delay x"

definition dmaWriteVirt ::
  "nat \<Rightarrow> MemoryMode \<Rightarrow> 'w peer \<Rightarrow> 'w bd_peer \<Rightarrow> (Packet list \<Rightarrow> bool) \<Rightarrow> (Addr \<Rightarrow> Addr \<Rightarrow> TranslationGen res) \<Rightarrow> Tick \<Rightarrow> Addr
    \<Rightarrow> 32 word \<Rightarrow> nat option \<Rightarrow> nat \<Rightarrow> Tick \<Rightarrow> 'f CallbackHeap \<times> 'w dma_world \<Rightarrow> ('f CallbackHeap \<times> 'w dma_world) res option" where
  "dmaWriteVirt fuel mode sa sab accepts translate now host_addr sz cb dat delay x =
     dmaVirt fuel (\<lambda>a n ev p dl y. dmaWrite fuel mode sa sab now (accepts (sentReqs (fst y))) a n ev p dl y)
       translate now host_addr sz cb dat delay x"

section \<open>What a transfer leaves behind\<close>

text \<open>Chunk events are given out for a callback and each of them is scheduled.\<close>

definition issued :: "Tick \<Rightarrow> nat \<Rightarrow> nat \<Rightarrow> 'f CallbackHeap \<Rightarrow> DmaPort \<Rightarrow> 'f CallbackHeap \<Rightarrow> DmaPort \<Rightarrow> bool" where
  "issued now b m cs d cs' d' \<longleftrightarrow>
     (\<exists>cb. callbacks cs b = Some cb \<and> callbacks cs' = (callbacks cs)(b \<mapsto> cb\<lparr>cb_count := cb_count cb + of_nat m\<rparr>))
     \<and> nextEvent cs' = nextEvent cs + m \<and> nextCallback cs' = nextCallback cs \<and> drainSignals cs' = drainSignals cs
     \<and> chunkEvents cs' = (\<lambda>e. if nextEvent cs \<le> e \<and> e < nextEvent cs + m then Some b else chunkEvents cs e)
     \<and> (\<forall>e. if nextEvent cs \<le> e \<and> e < nextEvent cs + m then \<exists>w\<ge>now. devEvents d' e = Some w else devEvents d' e = devEvents d e)"

definition fresh_events :: "'f CallbackHeap \<Rightarrow> DmaPort \<Rightarrow> bool" where
  "fresh_events cs d \<longleftrightarrow> (\<forall>e\<ge>nextEvent cs. devEvents d e = None)"

lemma issued_none: "callbacks cs b = Some cb \<Longrightarrow> issued t b 0 cs d cs d"
  by (auto simp: issued_def fun_upd_idem fun_eq_iff)

lemma issued_step:
  assumes "getChunkEvent b cs = Inr (e, cs1)" and "devEvents d1 = (devEvents d)(e := Some w)" and "t \<le> w" and "issued t b m cs1 d1 cs' d'"
  shows "issued t b (Suc m) cs d cs' d'"
proof -
  obtain cb where cb: "callbacks cs b = Some cb" and e: "e = nextEvent cs" and cs1: "callbacks cs1 = (callbacks cs)(b \<mapsto> cb\<lparr>cb_count := cb_count cb + 1\<rparr>)"
    "chunkEvents cs1 = (chunkEvents cs)(e \<mapsto> b)" "nextEvent cs1 = Suc e" "nextCallback cs1 = nextCallback cs" "drainSignals cs1 = drainSignals cs"
    using assms(1) by (auto simp: getChunkEvent_def cb_deref_def res_simps split: option.splits)
  have i: "callbacks cs' = (callbacks cs)(b \<mapsto> cb\<lparr>cb_count := cb_count cb + of_nat (Suc m)\<rparr>)" "nextEvent cs' = nextEvent cs + Suc m"
    "nextCallback cs' = nextCallback cs" "drainSignals cs' = drainSignals cs"
    using assms(4) cs1 e by (auto simp: issued_def algebra_simps)
  have ce: "chunkEvents cs' x = (if e \<le> x \<and> x < e + Suc m then Some b else chunkEvents cs x)" for x
    using assms(4) cs1 by (auto simp: issued_def)
  have de: "if e \<le> x \<and> x < e + Suc m then \<exists>w\<ge>t. devEvents d' x = Some w else devEvents d' x = devEvents d x" for x
  proof -
    have "if Suc e \<le> x \<and> x < Suc e + m then \<exists>w\<ge>t. devEvents d' x = Some w else devEvents d' x = devEvents d1 x"
      using assms(4) cs1(3) unfolding issued_def by metis
    then show ?thesis using assms(2,3) by (cases "x = e") (auto split: if_splits)
  qed
  show ?thesis unfolding issued_def using cb i ce de e by (auto simp: fun_eq_iff)
qed

lemma getChunkEvent_ok: "callbacks cs b = Some cb \<Longrightarrow> \<exists>cs1. getChunkEvent b cs = Inr (nextEvent cs, cs1) \<and> callbacks cs1 b \<noteq> None \<and> nextEvent cs1 = Suc (nextEvent cs)"
  by (simp add: getChunkEvent_def cb_deref_def)

lemma virt_loop_spec:
  assumes pt: "pt_ok k t" "unat v + n + 2 ^ k < 2 ^ 64" "\<And>j. j < n \<Longrightarrow> pt_translate t (v + of_nat j) \<noteq> None"
    and step: "\<And>i m p d h w e. 0 < m \<Longrightarrow> i + m \<le> n \<Longrightarrow> (\<And>j. j < m \<Longrightarrow> pt_translate t (v + of_nat (i + j)) = Some (p + of_nat j))
      \<Longrightarrow> idle_port c d \<Longrightarrow> devEvents d e = None \<Longrightarrow> P i h w \<Longrightarrow> \<exists>d' h' w' x. dmaFn p (of_nat m) (Some e) (D + i) delay (d, h, w) = Some (Inr (d', h', w'))
        \<and> idle_port c d' \<and> devEvents d' = (devEvents d)(e := Some x) \<and> now \<le> x \<and> P (i + m) h' w'"
    and "iter_at k t v n i it" "i \<le> n" "n - i < fuel" and "idle_port c d" "P i h w" "fresh_events cs d" "callbacks cs b = Some cb"
  shows "\<exists>m cs' d' h' w'. virt_loop fuel dmaFn t (Some b) delay it (D + i) (cs, d, h, w) = Some (Inr (cs', d', h', w'))
    \<and> idle_port c d' \<and> P n h' w' \<and> issued now b m cs d cs' d' \<and> m \<le> n - i \<and> (i < n \<longrightarrow> 0 < m)"
  using assms(5-)
proof (induction fuel arbitrary: i it cs d h w cb)
  case (Suc fuel)
  show ?case
  proof (cases "i = n")
    case True
    then show ?thesis using Suc.prems issued_none [OF Suc.prems(7)]
      by (intro exI [of _ 0] exI [of _ cs] exI [of _ d] exI [of _ h] exI [of _ w]) (simp add: iter_at_def)
  next
    case False
    then have i: "i < n" using Suc.prems(2) by simp
    then obtain p where p: "pt_translate t (v + of_nat i) = Some p" using pt(3) by blast
    define m where "m = unat (tr_size (current it))"
    note st = iter_at_step [OF pt(1,2) Suc.prems(1) i p m_def]
    obtain it' where it': "it_next t it = Inr it'" "iter_at k t v n (i + m) it'" using st(9) by blast
    obtain cs1 cb1 where e: "getChunkEvent b cs = Inr (nextEvent cs, cs1)" "callbacks cs1 b = Some cb1" "nextEvent cs1 = Suc (nextEvent cs)"
      using getChunkEvent_ok [OF Suc.prems(7)] by auto
    have free: "devEvents d (nextEvent cs) = None" using Suc.prems(6) by (simp add: fresh_events_def)
    obtain d1 h1 w1 x where d1: "dmaFn p (of_nat m) (Some (nextEvent cs)) (D + i) delay (d, h, w) = Some (Inr (d1, h1, w1))" "idle_port c d1"
      "devEvents d1 = (devEvents d)(nextEvent cs := Some x)" "now \<le> x" "P (i + m) h1 w1"
      using step [OF st(1,3,8) Suc.prems(4) free Suc.prems(5)] by blast
    have "n - (i + m) < fuel" using Suc.prems(3) st(1) i by linarith
    moreover have "fresh_events cs1 d1" using Suc.prems(6) e(3) d1(3) by (simp add: fresh_events_def)
    ultimately obtain m' cs' d' h' w' where r: "virt_loop fuel dmaFn t (Some b) delay it' (D + (i + m)) (cs1, d1, h1, w1) = Some (Inr (cs', d', h', w'))"
      "idle_port c d'" "P n h' w'" "issued now b m' cs1 d1 cs' d'" "m' \<le> n - (i + m)"
      using Suc.IH [OF it'(2) st(3) _ d1(2,5) _ e(2)] by blast
    have uc: "ucast (tr_size (current it)) = (of_nat m :: 32 word)" by (simp add: m_def)
    have "virt_loop (Suc fuel) dmaFn t (Some b) delay it (D + i) (cs, d, h, w) = Some (Inr (cs', d', h', w'))"
      using st(4,6,7) e(1) d1(1) it'(1) r(1) uc by (simp add: chunk_event_opt_def m_def [symmetric] add.assoc)
    moreover have "issued now b (Suc m') cs d cs' d'" by (rule issued_step [OF e(1) d1(3,4) r(4)])
    moreover have "Suc m' \<le> n - i" using r(5) st(1,3) by linarith
    ultimately show ?thesis using r(2,3) by blast
  qed
qed simp

section \<open>Atomic transfers over virtual addresses\<close>

text \<open>Every byte of a region is mapped, and every physically contiguous piece of it is served by the memory with its
  part of a buffer.\<close>

definition region_ok :: "('w \<Rightarrow> Addr \<Rightarrow> nat \<Rightarrow> nat \<Rightarrow> bool) \<Rightarrow> nat \<Rightarrow> EmulationPageTable \<Rightarrow> 'w \<Rightarrow> Addr \<Rightarrow> nat \<Rightarrow> nat \<Rightarrow> bool" where
  "region_ok reach c t w v n D \<longleftrightarrow> (\<forall>j<n. pt_translate t (v + of_nat j) \<noteq> None)
     \<and> (\<forall>i m p. 0 < m \<and> i + m \<le> n \<and> (\<forall>j<m. pt_translate t (v + of_nat (i + j)) = Some (p + of_nat j))
          \<longrightarrow> reach w p m (D + i) \<and> unat p + 2 ^ c < 2 ^ 64)"

definition phys :: "EmulationPageTable \<Rightarrow> Addr \<Rightarrow> nat \<Rightarrow> Addr" where
  "phys t v j = the (pt_translate t (v + of_nat j))"

lemma region_piece:
  assumes "region_ok reach c t w v n D" and "0 < m" and "i + m \<le> n" and "\<And>j. j < m \<Longrightarrow> pt_translate t (v + of_nat (i + j)) = Some (p + of_nat j)"
  shows "reach w p m (D + i)" and "unat p + 2 ^ c < 2 ^ 64" and "j < m \<Longrightarrow> phys t v (i + j) = p + of_nat j"
  using assms unfolding region_ok_def phys_def by (blast, blast, simp add: assms(4) del: of_nat_add)

lemma region_byte: "region_ok reach c t w v n D \<Longrightarrow> j < n \<Longrightarrow> reach w (phys t v j) 1 (D + j)"
  using region_piece(1) [of reach c t w v n D 1 j "phys t v j"] by (auto simp: region_ok_def phys_def)

text \<open>A write to a contiguous piece, seen through the offsets of the region.\<close>

lemma piece_write:
  assumes "unat p + m < 2 ^ 64" and "\<And>j. j < m \<Longrightarrow> f (i + j) = (p :: Addr) + of_nat j"
    and "\<And>x. V' x = (if unat p \<le> unat x \<and> unat x < unat p + m then g (D + (unat x - unat p)) else V x)"
  shows "j < m \<Longrightarrow> V' (f (i + j)) = g (D + j)" and "x \<notin> f ` {i..<i + m} \<Longrightarrow> V' x = V x"
proof -
  show "V' (f (i + j)) = g (D + j)" if "j < m"
    using unat_offset [OF assms(1), of j] that assms(3) [of "p + of_nat j"] assms(2) [OF that] by simp
  show "V' x = V x" if "x \<notin> f ` {i..<i + m}"
  proof -
    have "\<not> (unat p \<le> unat x \<and> unat x < unat p + m)"
    proof
      assume x: "unat p \<le> unat x \<and> unat x < unat p + m"
      let ?j = "unat x - unat p"
      have "unat (p + of_nat ?j) = unat x" using unat_offset [OF assms(1), of ?j] x by simp
      then have "p + of_nat ?j = x" by (rule word_unat_eq_iff [THEN iffD2])
      moreover have "?j < m" using x by linarith
      ultimately have "x = f (i + ?j)" using assms(2) [of ?j] by simp
      moreover have "i + ?j \<in> {i..<i + m}" using x by auto
      ultimately show False using that by blast
    qed
    then show ?thesis using assms(3) [of x] by (simp only: if_False)
  qed
qed

lemma unat_of_nat_32: "m < 2 ^ 32 \<Longrightarrow> unat (of_nat m :: 32 word) = m"
  by (simp add: unat_of_nat take_bit_nat_eq_self)

lemma dmaVirt_start:
  assumes "pt_ok k t" and "unat v + unat sz + 2 ^ k < 2 ^ 64" and "sz \<noteq> 0"
  shows "\<exists>it. iter_at k t v (unat sz) 0 it
    \<and> dmaVirt fuel dmaFn (\<lambda>a n. Inr (translateRange t a n)) now v sz cb D delay (cs, d, h, w) = virt_loop fuel dmaFn t cb delay it D (cs, d, h, w)"
proof -
  have "\<exists>it. it_begin t v (of_nat (unat sz)) = Inr it \<and> iter_at k t v (unat sz) 0 it"
    unfolding it_begin_def by (rule it_update_at [OF assms(1,2)]) simp_all
  then obtain it where "it_begin t v (ucast sz) = Inr it" "iter_at k t v (unat sz) 0 it" by auto
  then show ?thesis using assms(3) by (intro exI [of _ it]) (simp add: dmaVirt_def translateRange_def tg_begin_def)
qed

text \<open>A transfer of length zero only schedules an event.\<close>

lemma dmaVirt_zero:
  assumes "callbacks cs b = Some cb" and "fresh_events cs d" and "idle_port c d"
  shows "\<exists>cs' d'. dmaVirt fuel dmaFn tr now v 0 (Some b) D delay (cs, d, h, w) = Some (Inr (cs', d', h, w)) \<and> idle_port c d' \<and> issued now b 1 cs d cs' d'"
proof -
  obtain cs1 cb1 where e: "getChunkEvent b cs = Inr (nextEvent cs, cs1)" "callbacks cs1 b = Some cb1" using getChunkEvent_ok [OF assms(1)] by auto
  let ?d = "d\<lparr>devEvents := (devEvents d)(nextEvent cs := Some (now + delay))\<rparr>"
  have "dev_schedule now (nextEvent cs) (now + delay) d = Inr ?d"
    using assms(2) by (simp add: dev_schedule_def ev_schedule_def fresh_events_def)
  moreover have "issued now b (Suc 0) cs d cs1 ?d" by (rule issued_step [OF e(1) _ _ issued_none [OF e(2)]]) auto
  ultimately show ?thesis using e(1) assms(3) by (simp add: dmaVirt_def idle_port_def)
qed

context memory_peer
begin

lemma dmaReadVirt_atomic:
  assumes pt: "pt_ok k t" "unat v + unat sz + 2 ^ k < 2 ^ 64" and reg: "region_ok reach c t w v (unat sz) D"
    and port: "idle_port c d" "fresh_events cs d" "callbacks cs b = Some cb" and "D \<noteq> 0" and "unat sz < 2 ^ 31" and "unat sz + 3 \<le> fuel"
  shows "\<exists>m cs' d' w'. dmaReadVirt fuel mode_atomic send bd ok (\<lambda>a n. Inr (translateRange t a n)) now v sz (Some b) D delay (cs, d, h, w)
      = Some (Inr (cs', d', write_bytes h D (map (\<lambda>j. view h w (phys t v j)) [0..<unat sz]), w'))
    \<and> idle_port c d' \<and> issued now b m cs d cs' d' \<and> 0 < m \<and> m \<le> max 1 (unat sz) \<and> reach w' = reach w
    \<and> view (write_bytes h D (map (\<lambda>j. view h w (phys t v j)) [0..<unat sz])) w' = view h w"
proof (cases "sz = 0")
  case True
  have "\<exists>cs' d'. dmaReadVirt fuel mode_atomic send bd ok (\<lambda>a n. Inr (translateRange t a n)) now v 0 (Some b) D delay (cs, d, h, w) = Some (Inr (cs', d', h, w))
      \<and> idle_port c d' \<and> issued now b 1 cs d cs' d'"
    unfolding dmaReadVirt_def by (rule dmaVirt_zero [OF port(3,2,1)])
  then obtain cs' d' where "dmaReadVirt fuel mode_atomic send bd ok (\<lambda>a n. Inr (translateRange t a n)) now v 0 (Some b) D delay (cs, d, h, w) = Some (Inr (cs', d', h, w))"
    "idle_port c d'" "issued now b 1 cs d cs' d'" by blast
  then show ?thesis using True by (intro exI [of _ 1] exI [of _ cs'] exI [of _ d'] exI [of _ w]) simp
next
  case False
  let ?n = "unat sz" and ?fn = "\<lambda>a n ev p dl y. dmaRead fuel mode_atomic send bd now (ok (sentReqs (fst y))) a n ev p dl y"
  let ?g = "\<lambda>j. view h w (phys t v j)"
  define P where "P i h1 w1 \<longleftrightarrow> h1 = write_bytes h D (map ?g [0..<i]) \<and> reach w1 = reach w \<and> (\<forall>h. view h w1 = view h w) \<and> view h1 w = view h w" for i h1 w1
  obtain it where it: "iter_at k t v ?n 0 it"
    "dmaReadVirt fuel mode_atomic send bd ok (\<lambda>a n. Inr (translateRange t a n)) now v sz (Some b) D delay (cs, d, h, w) = virt_loop fuel ?fn t (Some b) delay it D (cs, d, h, w)"
    using dmaVirt_start [OF pt False, of fuel ?fn now "Some b" D delay cs d h w] unfolding dmaReadVirt_def by blast
  have "\<exists>m cs' d' h' w'. virt_loop fuel ?fn t (Some b) delay it (D + 0) (cs, d, h, w) = Some (Inr (cs', d', h', w'))
    \<and> idle_port c d' \<and> P ?n h' w' \<and> issued now b m cs d cs' d' \<and> m \<le> ?n - 0 \<and> (0 < ?n \<longrightarrow> 0 < m)"
  proof (rule virt_loop_spec [OF pt _ _ it(1) _ _ port(1) _ port(2,3)])
    show "pt_translate t (v + of_nat j) \<noteq> None" if "j < ?n" for j using reg that by (simp add: region_ok_def)
    show "P 0 h w" by (simp add: P_def)
    fix i m p d h1 w1 e
    assume m: "0 < m" "i + m \<le> ?n" "\<And>j. j < m \<Longrightarrow> pt_translate t (v + of_nat (i + j)) = Some (p + of_nat j)"
      and d: "idle_port c d" "devEvents d e = None" and "P i h1 w1"
    then have P: "h1 = write_bytes h D (map ?g [0..<i])" "reach w1 = reach w" "\<And>h. view h w1 = view h w" "view h1 w = view h w" by (auto simp: P_def)
    note piece = region_piece [OF reg m]
    have u: "unat (of_nat m :: 32 word) = m" using m(2) assms(8) by (intro unat_of_nat_32) simp
    have pre: "0 < unat (of_nat m :: 32 word)" "unat (of_nat m :: 32 word) < 2 ^ 31" "D + i \<noteq> 0" "reach w1 p (unat (of_nat m :: 32 word)) (D + i)"
      "unat (of_nat m :: 32 word) + 3 \<le> fuel" "\<And>x. Some e = Some x \<Longrightarrow> devEvents d x = None"
      unfolding u P(2) using m(1,2) assms(7-9) piece(1) d(2) by auto
    obtain d' w' lat where r: "dmaRead fuel mode_atomic send bd now (ok (sentReqs d)) p (of_nat m) (Some e) (D + i) delay (d, h1, w1) = Some (Inr (d',
        write_bytes h1 (D + i) (map (\<lambda>j. view h1 w1 (p + of_nat j)) [0..<m]), w'))" "idle_port c d'" "devEvents d' = (devEvents d)(e := Some (now + (lat + delay)))"
      "reach w' = reach w1" "\<forall>h. view h w' = view h w1"
      using dmaRead_atomic [where ev = "Some e" and bd = bd and t = now and ok = "ok (sentReqs d)" and delay = delay and h = h1,
          OF d(1) pre(1-4) piece(2) pre(6,5)] unfolding u option.case by blast
    have map: "map (\<lambda>j. view h1 w1 (p + of_nat j)) [0..<m] = map ?g [i..<i + m]"
      unfolding P(3,4) by (rule nth_equalityI) (simp_all add: piece(3))
    have "write_bytes h1 (D + i) (map ?g [i..<i + m]) = write_bytes h D (map ?g [0..<i + m])"
      using write_bytes_append [of h D "map ?g [0..<i]" "map ?g [i..<i + m]"] upt_add_eq_append [of 0 i m] by (simp add: P(1))
    moreover have "view (write_bytes h1 (D + i) (map ?g [i..<i + m])) w = view h w"
      using view_frame [OF piece(1), of "map ?g [i..<i + m]" h1] P(4) by simp
    ultimately have "P (i + m) (write_bytes h1 (D + i) (map (\<lambda>j. view h1 w1 (p + of_nat j)) [0..<m])) w'"
      unfolding P_def map using r(4,5) P(2,3) by simp
    then show "\<exists>d' h' w' x. ?fn p (of_nat m) (Some e) (D + i) delay (d, h1, w1) = Some (Inr (d', h', w'))
        \<and> idle_port c d' \<and> devEvents d' = (devEvents d)(e := Some x) \<and> now \<le> x \<and> P (i + m) h' w'"
      using r(1-3) by (auto intro!: exI [of _ "now + (lat + delay)"])
  qed (use assms(9) in simp_all)
  then obtain m cs' d' h' w' where r: "virt_loop fuel ?fn t (Some b) delay it D (cs, d, h, w) = Some (Inr (cs', d', h', w'))"
    "idle_port c d'" "P ?n h' w'" "issued now b m cs d cs' d'" "m \<le> ?n" "0 < ?n \<longrightarrow> 0 < m" by auto
  moreover have "0 < ?n" using False by (simp add: unat_gt_0)
  ultimately show ?thesis using it(2) assms(8)
    by (intro exI [of _ m] exI [of _ cs'] exI [of _ d'] exI [of _ w']) (auto simp: P_def)
qed

lemma dmaWriteVirt_atomic:
  assumes pt: "pt_ok k t" "unat v + unat sz + 2 ^ k < 2 ^ 64" and reg: "region_ok reach c t w v (unat sz) D"
    and inj: "inj_on (phys t v) {..<unat sz}"
    and port: "idle_port c d" "fresh_events cs d" "callbacks cs b = Some cb" and "D \<noteq> 0" and "unat sz < 2 ^ 31" and "unat sz + 3 \<le> fuel"
  shows "\<exists>m cs' d' h' w'. dmaWriteVirt fuel mode_atomic send bd ok (\<lambda>a n. Inr (translateRange t a n)) now v sz (Some b) D delay (cs, d, h, w)
      = Some (Inr (cs', d', h', w'))
    \<and> idle_port c d' \<and> issued now b m cs d cs' d' \<and> 0 < m \<and> m \<le> max 1 (unat sz) \<and> reach w' = reach w
    \<and> (\<forall>j<unat sz. view h' w' (phys t v j) = h (D + j)) \<and> (\<forall>x. x \<notin> phys t v ` {..<unat sz} \<longrightarrow> view h' w' x = view h w x)"
proof (cases "sz = 0")
  case True
  have "\<exists>cs' d'. dmaWriteVirt fuel mode_atomic send bd ok (\<lambda>a n. Inr (translateRange t a n)) now v 0 (Some b) D delay (cs, d, h, w) = Some (Inr (cs', d', h, w))
      \<and> idle_port c d' \<and> issued now b 1 cs d cs' d'"
    unfolding dmaWriteVirt_def by (rule dmaVirt_zero [OF port(3,2,1)])
  then obtain cs' d' where "dmaWriteVirt fuel mode_atomic send bd ok (\<lambda>a n. Inr (translateRange t a n)) now v 0 (Some b) D delay (cs, d, h, w) = Some (Inr (cs', d', h, w))"
    "idle_port c d'" "issued now b 1 cs d cs' d'" by blast
  then show ?thesis using True by (intro exI [of _ 1] exI [of _ cs'] exI [of _ d'] exI [of _ h] exI [of _ w]) simp
next
  case False
  let ?n = "unat sz" and ?fn = "\<lambda>a n ev p dl y. dmaWrite fuel mode_atomic send bd now (ok (sentReqs (fst y))) a n ev p dl y"
  let ?f = "phys t v"
  define P where "P i h1 w1 \<longleftrightarrow> reach w1 = reach w \<and> (\<forall>j<i. view h1 w1 (?f j) = h (D + j))
    \<and> (\<forall>x. x \<notin> ?f ` {..<i} \<longrightarrow> view h1 w1 x = view h w x) \<and> (\<forall>j<?n. h1 (D + j) = h (D + j))" for i h1 w1
  obtain it where it: "iter_at k t v ?n 0 it"
    "dmaWriteVirt fuel mode_atomic send bd ok (\<lambda>a n. Inr (translateRange t a n)) now v sz (Some b) D delay (cs, d, h, w) = virt_loop fuel ?fn t (Some b) delay it D (cs, d, h, w)"
    using dmaVirt_start [OF pt False, of fuel ?fn now "Some b" D delay cs d h w] unfolding dmaWriteVirt_def by blast
  have "\<exists>m cs' d' h' w'. virt_loop fuel ?fn t (Some b) delay it (D + 0) (cs, d, h, w) = Some (Inr (cs', d', h', w'))
    \<and> idle_port c d' \<and> P ?n h' w' \<and> issued now b m cs d cs' d' \<and> m \<le> ?n - 0 \<and> (0 < ?n \<longrightarrow> 0 < m)"
  proof (rule virt_loop_spec [OF pt _ _ it(1) _ _ port(1) _ port(2,3)])
    show "pt_translate t (v + of_nat j) \<noteq> None" if "j < ?n" for j using reg that by (simp add: region_ok_def)
    show "P 0 h w" by (simp add: P_def)
    fix i m p d h1 w1 e
    assume m: "0 < m" "i + m \<le> ?n" "\<And>j. j < m \<Longrightarrow> pt_translate t (v + of_nat (i + j)) = Some (p + of_nat j)"
      and d: "idle_port c d" "devEvents d e = None" and "P i h1 w1"
    then have P: "reach w1 = reach w" "\<And>j. j < i \<Longrightarrow> view h1 w1 (?f j) = h (D + j)" "\<And>x. x \<notin> ?f ` {..<i} \<Longrightarrow> view h1 w1 x = view h w x"
      "\<And>j. j < ?n \<Longrightarrow> h1 (D + j) = h (D + j)" by (auto simp: P_def)
    note piece = region_piece [OF reg m]
    have u: "unat (of_nat m :: 32 word) = m" using m(2) assms(9) by (intro unat_of_nat_32) simp
    have pre: "0 < unat (of_nat m :: 32 word)" "unat (of_nat m :: 32 word) < 2 ^ 31" "D + i \<noteq> 0" "reach w1 p (unat (of_nat m :: 32 word)) (D + i)"
      "unat (of_nat m :: 32 word) + 3 \<le> fuel" "\<And>x. Some e = Some x \<Longrightarrow> devEvents d x = None"
      unfolding u P(1) using m(1,2) assms(8-10) piece(1) d(2) by auto
    obtain d' h' w' lat where r: "dmaWrite fuel mode_atomic send bd now (ok (sentReqs d)) p (of_nat m) (Some e) (D + i) delay (d, h1, w1) = Some (Inr (d', h', w'))"
      "idle_port c d'" "devEvents d' = (devEvents d)(e := Some (now + (lat + delay)))" "reach w' = reach w1"
      "\<And>x. view h' w' x = (if unat p \<le> unat x \<and> unat x < unat p + m then h1 (D + i + (unat x - unat p)) else view h1 w1 x)"
      "\<And>a n d j. reach w1 a n d \<Longrightarrow> d \<le> j \<Longrightarrow> j < d + n \<Longrightarrow> h' j = h1 j"
      using dmaWrite_atomic [where ev = "Some e" and bd = bd and t = now and ok = "ok (sentReqs d)" and delay = delay and h = h1,
          OF d(1) pre(1-4) piece(2) pre(6,5)] unfolding u option.case by blast
    have fits: "unat p + m < 2 ^ 64" using reach_fits piece(1) by blast
    note range = piece_write [where f = ?f and V = "view h1 w1" and V' = "view h' w'" and g = h1 and D = "D + i", OF fits piece(3) r(5)]
    have old: "view h' w' (?f j) = h (D + j)" if "j < i + m" for j
    proof (cases "j < i")
      case True
      then have "?f j \<notin> ?f ` {i..<i + m}" using inj m(2) by (auto dest: inj_onD)
      then show ?thesis using range(2) P(2) True by simp
    next
      case False
      then show ?thesis using range(1) [of "j - i"] P(4) [of j] that m(2) by simp
    qed
    have other: "view h' w' x = view h w x" if "x \<notin> ?f ` {..<i + m}" for x
    proof -
      have "x \<notin> ?f ` {i..<i + m}" "x \<notin> ?f ` {..<i}" using that by auto
      then show ?thesis using range(2) P(3) by simp
    qed
    have buf: "h' (D + j) = h (D + j)" if "j < ?n" for j
      using r(6) [of "?f j" 1 "D + j" "D + j"] region_byte [OF reg that] P(1,4) that by simp
    have "P (i + m) h' w'" unfolding P_def using r(4) P(1) old other buf by simp
    then show "\<exists>d' h' w' x. ?fn p (of_nat m) (Some e) (D + i) delay (d, h1, w1) = Some (Inr (d', h', w'))
        \<and> idle_port c d' \<and> devEvents d' = (devEvents d)(e := Some x) \<and> now \<le> x \<and> P (i + m) h' w'"
      using r(1-3) by (auto intro!: exI [of _ "now + (lat + delay)"])
  qed (use assms(10) in simp_all)
  then obtain m cs' d' h' w' where r: "virt_loop fuel ?fn t (Some b) delay it D (cs, d, h, w) = Some (Inr (cs', d', h', w'))"
    "idle_port c d'" "P ?n h' w'" "issued now b m cs d cs' d'" "m \<le> ?n" "0 < ?n \<longrightarrow> 0 < m" by auto
  moreover have "0 < ?n" using False by (simp add: unat_gt_0)
  ultimately show ?thesis using it(2) assms(9)
    by (intro exI [of _ m] exI [of _ cs'] exI [of _ d'] exI [of _ h'] exI [of _ w']) (simp add: P_def)
qed

end

end
