(* ===== verification/Simple_Memory.thy ===== *)
theory Simple_Memory
  imports Abstract_Memory Sim_Object
begin

text \<open>
  The memory controller \<^verbatim>\<open>SimpleMemory\<close> of \<^verbatim>\<open>mem/simple_mem.hh\<close> and \<^verbatim>\<open>mem/simple_mem.cc\<close>. The peer of its
  port appears in two ways: what it answers to a response is an argument of \<^verbatim>\<open>dequeue\<close>, and what is
  sent to it is recorded, the accepted responses in \<open>responses\<close> and the request retries in
  \<open>retriesSent\<close>. The bandwidth of the code is a floating-point number of ticks per byte; the model
  keeps the function from packet sizes to whole ticks it stands for. Random latencies are arguments.
\<close>

section \<open>The controller\<close>

record DeferredPacket =
  dp_tick :: Tick
  dp_pkt :: Packet

record SimpleMemory =
  base :: AbstractMemory
  latency :: Tick
  latency_var :: Tick
  bandwidth :: "nat \<Rightarrow> Tick"
  packetQueue :: "DeferredPacket list"
  isBusy :: bool
  retryReq :: bool
  retryResp :: bool
  releaseEvent :: "Tick option"
  dequeueEvent :: "Tick option"
  pendingDelete :: "Packet option"
  drainSt :: "DrainState \<times> nat"
  retriesSent :: nat
  responses :: "Packet list"

definition newSimpleMemory :: "AbstractMemory \<Rightarrow> Tick \<Rightarrow> Tick \<Rightarrow> (nat \<Rightarrow> Tick) \<Rightarrow> SimpleMemory" where
  "newSimpleMemory b lat var bw =
     \<lparr>base = b, latency = lat, latency_var = var, bandwidth = bw, packetQueue = [], isBusy = False,
      retryReq = False, retryResp = False, releaseEvent = None, dequeueEvent = None, pendingDelete = None,
      drainSt = (Running, 0), retriesSent = 0, responses = []\<rparr>"

definition getLatency :: "SimpleMemory \<Rightarrow> Tick \<Rightarrow> Tick" where
  "getLatency s rnd = latency s + (if latency_var s \<noteq> 0 then rnd else 0)"

definition recvAtomic :: "Tick \<Rightarrow> mem \<Rightarrow> SimpleMemory \<Rightarrow> Packet \<Rightarrow> (Tick \<times> mem \<times> SimpleMemory \<times> Packet) res" where
  "recvAtomic rnd h s p =
     ensure (\<not> cacheResponding p) Panic
       (rbind (access h (base s) p) (\<lambda>(h, b, p). Inr (getLatency s rnd, h, s\<lparr>base := b\<rparr>, p)))"

definition recvAtomicBackdoor ::
  "Tick \<Rightarrow> mem \<Rightarrow> SimpleMemory \<Rightarrow> Packet \<Rightarrow> MemBackdoor option
    \<Rightarrow> (Tick \<times> MemBackdoor option \<times> mem \<times> SimpleMemory \<times> Packet) res" where
  "recvAtomicBackdoor rnd h s p bd =
     rbind (recvAtomic rnd h s p) (\<lambda>(lat, h, s, p). Inr (lat, getBackdoor (base s) bd, h, s, p))"

text \<open>The loop of \<^verbatim>\<open>recvFunctional\<close> over the queued responses.\<close>

fun satisfy_queue :: "mem \<Rightarrow> Packet \<Rightarrow> DeferredPacket list \<Rightarrow> (mem \<times> Packet) res" where
  "satisfy_queue h p [] = Inr (h, p)"
| "satisfy_queue h p (d # ds) =
     rbind (trySatisfyFunctional_pkt h p (dp_pkt d)) (\<lambda>(h, p, finished).
       if finished then Inr (h, p) else satisfy_queue h p ds)"

definition recvFunctional :: "mem \<Rightarrow> SimpleMemory \<Rightarrow> Packet \<Rightarrow> (mem \<times> Packet) res" where
  "recvFunctional h s p =
     rbind (functionalAccess h (base s) p) (\<lambda>(h, p). satisfy_queue h p (packetQueue s))"

definition recvMemBackdoorReq :: "SimpleMemory \<Rightarrow> MemBackdoor option \<Rightarrow> MemBackdoor option" where
  "recvMemBackdoorReq s bd = getBackdoor (base s) bd"

text \<open>The insertion into the queue of responses, from its end: the search stops at the first
  element, at one that is not later than the new one, or at one with the same address. On an empty
  queue it stops at once.\<close>

definition matchAddr_pkt :: "Packet \<Rightarrow> Packet \<Rightarrow> bool res" where
  "matchAddr_pkt q p = rbind (getAddr p) (\<lambda>a. rbind (isSecure p) (\<lambda>sec. matchAddr a sec q))"

fun emplace_rev :: "DeferredPacket \<Rightarrow> DeferredPacket list \<Rightarrow> DeferredPacket list res" where
  "emplace_rev d [] = Inr [d]"
| "emplace_rev d [y] = Inr [d, y]"
| "emplace_rev d (y # z # ys) =
     (if dp_tick d < dp_tick y then
        rbind (matchAddr_pkt (dp_pkt y) (dp_pkt d)) (\<lambda>m.
          if m then Inr (d # y # z # ys)
          else rbind (emplace_rev d (z # ys)) (\<lambda>r. Inr (y # r)))
      else Inr (d # y # z # ys))"

definition emplace :: "DeferredPacket \<Rightarrow> DeferredPacket list \<Rightarrow> DeferredPacket list res" where
  "emplace d q = rbind (emplace_rev d (rev q)) (\<lambda>r. Inr (rev r))"

definition enqueue_response :: "Tick \<Rightarrow> Tick \<Rightarrow> SimpleMemory \<Rightarrow> Packet \<Rightarrow> SimpleMemory res" where
  "enqueue_response now when_to_send s p =
     rbind (emplace \<lparr>dp_tick = when_to_send, dp_pkt = p\<rparr> (packetQueue s)) (\<lambda>pq.
       if \<not> retryResp s \<and> dequeueEvent s = None then
         rbind (ev_schedule now (dequeueEvent s) (dp_tick (last pq))) (\<lambda>ev. Inr (s\<lparr>packetQueue := pq, dequeueEvent := ev\<rparr>))
       else Inr (s\<lparr>packetQueue := pq\<rparr>))"

definition start_busy :: "Tick \<Rightarrow> Tick \<Rightarrow> SimpleMemory \<Rightarrow> SimpleMemory res" where
  "start_busy now duration s =
     (if duration \<noteq> 0 then
        rbind (ev_schedule now (releaseEvent s) (now + duration)) (\<lambda>ev. Inr (s\<lparr>releaseEvent := ev, isBusy := True\<rparr>))
      else Inr s)"

definition recvTimingReq ::
  "Tick \<Rightarrow> Tick \<Rightarrow> Tick \<Rightarrow> mem \<Rightarrow> SimpleMemory \<Rightarrow> Packet \<Rightarrow> (bool \<times> mem \<times> SimpleMemory) res" where
  "recvTimingReq now rnd1 rnd2 h s p =
     ensure (\<not> cacheResponding p) Panic
     (ensure (isRead (cmd p) \<or> isWrite (cmd p)) Panic
      (if retryReq s then Inr (False, h, s)
       else if isBusy s then Inr (False, h, s\<lparr>retryReq := True\<rparr>)
       else
         let receive_delay = headerDelay p + payloadDelay p;
             p = p\<lparr>headerDelay := 0, payloadDelay := 0\<rparr>
         in rbind (getSize p) (\<lambda>n.
            rbind (start_busy now (bandwidth s n) s) (\<lambda>s.
            let needs_response = needsResponse (cmd p) in
            rbind (recvAtomic rnd1 h s p) (\<lambda>(_, h, s, p).
              if needs_response then
                ensure (isResponse (cmd p)) AssertFail
                  (rbind (enqueue_response now (now + receive_delay + getLatency s rnd2) s p) (\<lambda>s. Inr (True, h, s)))
              else Inr (True, h, s\<lparr>pendingDelete := Some p\<rparr>))))))"

definition mem_release :: "SimpleMemory \<Rightarrow> SimpleMemory res" where
  "mem_release s =
     ensure (isBusy s) AssertFail
       (let s = s\<lparr>isBusy := False\<rparr>
        in Inr (if retryReq s then s\<lparr>retryReq := False, retriesSent := retriesSent s + 1\<rparr> else s))"

text \<open>\<^verbatim>\<open>dequeue\<close>, with the answer of the peer to the response.\<close>

definition dequeue :: "Tick \<Rightarrow> bool \<Rightarrow> SimpleMemory \<Rightarrow> SimpleMemory res" where
  "dequeue now peer_accepts s =
     (case packetQueue s of
        [] \<Rightarrow> Inl AssertFail
      | d # ds \<Rightarrow>
          (let s = s\<lparr>retryResp := \<not> peer_accepts\<rparr> in
           if \<not> retryResp s then
             let s = s\<lparr>packetQueue := ds, responses := responses s @ [dp_pkt d]\<rparr> in
             if ds \<noteq> [] then
               rbind (ev_reschedule now (dequeueEvent s) (max (dp_tick (hd ds)) now) True) (\<lambda>ev. Inr (s\<lparr>dequeueEvent := ev\<rparr>))
             else if fst (drainSt s) = Draining then Inr (s\<lparr>drainSt := signalDrainDone (drainSt s)\<rparr>)
             else Inr s
           else Inr s))"

definition recvRespRetry :: "Tick \<Rightarrow> bool \<Rightarrow> SimpleMemory \<Rightarrow> SimpleMemory res" where
  "recvRespRetry now peer_accepts s = ensure (retryResp s) AssertFail (dequeue now peer_accepts s)"

definition drain :: "SimpleMemory \<Rightarrow> DrainState" where
  "drain s = (if packetQueue s \<noteq> [] then Draining else Drained)"

definition getAddrRanges :: "SimpleMemory \<Rightarrow> AddrRange list" where
  "getAddrRanges s = [mrange (base s)]"

section \<open>What a request changes\<close>

text \<open>The parts of a packet that identify it on its way through the memory.\<close>

type_synonym ident = "Addr \<times> bool \<times> nat \<times> nat"

definition ident :: "Packet \<Rightarrow> ident" where
  "ident p = (addr p, p_secure p, data p, psize p)"

lemma ident_upd [simp]:
  "ident (p\<lparr>cmd := c\<rparr>) = ident p" "ident (p\<lparr>req := r\<rparr>) = ident p" "ident (p\<lparr>pflags := f\<rparr>) = ident p"
  "ident (p\<lparr>headerDelay := d\<rparr>) = ident p" "ident (p\<lparr>payloadDelay := d\<rparr>) = ident p" "ident (clearf m p) = ident p"
  by (simp_all add: ident_def clearf_def)

lemma checkLockedAddrList_ident:
  assumes "checkLockedAddrList s p = Inr (ok, s', p')"
  shows "ident p' = ident p \<and> cmd p' = cmd p"
proof -
  define q where "q b = (if isLLSC (cmd p) then p\<lparr>req := setExtraData (req p) (if b then 1 else 0)\<rparr> else p)" for b
  have q: "ident (q b) = ident p" "cmd (q b) = cmd p" for b by (simp_all add: q_def)
  have "p' = q ok"
    using assms unfolding checkLockedAddrList_def Let_def q_def [symmetric]
    by (auto elim!: rbindE split: if_splits prod.splits)
  then show ?thesis using q by simp
qed

lemma writeOK_ident: "writeOK s p = Inr (ok, s', p') \<Longrightarrow> ident p' = ident p \<and> cmd p' = cmd p"
  unfolding writeOK_def by (auto dest: checkLockedAddrList_ident split: if_splits)

lemma makeResponse_ident: "makeResponse p = Inr p' \<Longrightarrow> ident p' = ident p"
  by (auto simp: makeResponse_def res_simps)

lemma swap_access_pkt: "swap_access h s p a = Inr (h', s', p') \<Longrightarrow> p' = p"
  by (auto simp: swap_access_def Let_def elim!: rbindE ensureE split: option.splits if_splits)

lemma read_access_pkt: "read_access h s p a = Inr (h', s', p') \<Longrightarrow> p' = p"
  unfolding read_access_def by (elim rbindE ensureE) simp

lemma write_access_ident: "write_access h s p a = Inr (h', s', p') \<Longrightarrow> ident p' = ident p"
  unfolding write_access_def by (auto elim!: rbindE ensureE split: if_splits prod.splits dest!: writeOK_ident)

lemma access_data_ident: "access_data h s p a = Inr (h', s', p') \<Longrightarrow> ident p' = ident p"
  by (auto simp: access_data_def res_simps split: if_splits dest: swap_access_pkt read_access_pkt write_access_ident)

lemma access_ident:
  assumes "access h s p = Inr (h', s', p')"
  shows "ident p' = ident p"
proof -
  consider "p' = p" | a h1 s1 p1 where "access_data h s p a = Inr (h1, s1, p1)"
    "(if needsResponse (cmd p1) then rbind (makeResponse p1) (\<lambda>p. Inr (h1, s1, p)) else Inr (h1, s1, p1)) = Inr (h', s', p')"
    using assms unfolding access_def by (auto elim!: rbindE ensureE split: if_split_asm prod.splits)
  then show ?thesis
  proof cases
    case 2
    then show ?thesis using access_data_ident [OF 2(1)] by (auto simp: res_simps split: if_splits dest: makeResponse_ident)
  qed simp
qed

lemma getSize_eq: "getSize p = Inr n \<Longrightarrow> n = psize p"
  by (simp add: getSize_def res_simps)

lemma recvTimingReq_cases:
  assumes "recvTimingReq now r1 r2 h s p = Inr (acc, h', s')"
  obtains (retry) "\<not> acc" "h' = h" "retryReq s" "s' = s"
  | (busy) "\<not> acc" "h' = h" "\<not> retryReq s" "isBusy s" "s' = s\<lparr>retryReq := True\<rparr>"
  | (accepted) s1 b p' d where "acc" "\<not> retryReq s" "\<not> isBusy s" "start_busy now (bandwidth s (psize p)) s = Inr s1" "ident p' = ident p"
    "now \<le> d" "if needsResponse (cmd p) then enqueue_response now d (s1\<lparr>base := b\<rparr>) p' = Inr s'
      else s' = s1\<lparr>base := b, pendingDelete := Some p'\<rparr>"
proof -
  consider "retryReq s" | "\<not> retryReq s" "isBusy s" | "\<not> retryReq s" "\<not> isBusy s" by blast
  then show ?thesis
  proof cases
    case 1
    then show ?thesis using assms retry unfolding recvTimingReq_def by (auto elim!: ensureE)
  next
    case 2
    then show ?thesis using assms busy unfolding recvTimingReq_def by (auto elim!: ensureE)
  next
    case 3
    let ?p = "p\<lparr>headerDelay := 0, payloadDelay := 0\<rparr>"
    let ?d = "\<lambda>s. now + (headerDelay p + payloadDelay p) + getLatency s r2"
    obtain n s1 b p' where n: "getSize ?p = Inr n" and s1: "start_busy now (bandwidth s n) s = Inr s1"
      and a: "access h (base s1) ?p = Inr (h', b, p')" and acc: "acc"
      and r: "if needsResponse (cmd p) then enqueue_response now (?d (s1\<lparr>base := b\<rparr>)) (s1\<lparr>base := b\<rparr>) p' = Inr s'
        else s' = s1\<lparr>base := b, pendingDelete := Some p'\<rparr>"
      using assms 3 unfolding recvTimingReq_def Let_def recvAtomic_def
      by (auto elim!: rbindE ensureE split: if_split_asm prod.splits)
    have "n = psize p" using getSize_eq [OF n] by simp
    moreover have "ident p' = ident p" using access_ident [OF a] by simp
    ultimately show ?thesis using 3 s1 r acc accepted [of s1 p' "?d (s1\<lparr>base := b\<rparr>)" b] by (auto split: if_splits)
  qed
qed

definition same_addr :: "Packet \<Rightarrow> Packet \<Rightarrow> bool" where
  "same_addr q p \<longleftrightarrow> addr q = addr p \<and> p_secure q = p_secure p"

lemma matchAddr_pkt_same: "matchAddr_pkt q p = Inr b \<Longrightarrow> b = same_addr q p"
  unfolding matchAddr_pkt_def matchAddr_def getAddr_def isSecure_def same_addr_def
  by (auto elim!: rbindE ensureE split: if_splits)

lemma emplace_rev_split:
  "emplace_rev d q = Inr r \<Longrightarrow> \<exists>a b. q = a @ b \<and> r = a @ d # b \<and> (\<forall>x \<in> set a. \<not> same_addr (dp_pkt x) (dp_pkt d))"
proof (induction d q arbitrary: r rule: emplace_rev.induct)
  case (1 d)
  then show ?case by simp
next
  case (2 d y)
  then show ?case by (intro exI [of _ "[]"] exI [of _ "[y]"]) simp
next
  case (3 d y z ys)
  show ?case
  proof (cases "dp_tick d < dp_tick y")
    case True
    obtain m where m: "matchAddr_pkt (dp_pkt y) (dp_pkt d) = Inr m" using 3(2) True by (auto elim: rbindE)
    show ?thesis
    proof (cases m)
      case True
      then have "r = d # y # z # ys" using 3(2) m \<open>dp_tick d < dp_tick y\<close> by simp
      then show ?thesis by (intro exI [of _ "[]"] exI [of _ "y # z # ys"]) simp
    next
      case False
      then obtain r' where r': "emplace_rev d (z # ys) = Inr r'" "r = y # r'"
        using 3(2) m \<open>dp_tick d < dp_tick y\<close> by (auto elim: rbindE)
      obtain a b where "z # ys = a @ b" "r' = a @ d # b" "\<forall>x \<in> set a. \<not> same_addr (dp_pkt x) (dp_pkt d)"
        using 3(1) [OF \<open>dp_tick d < dp_tick y\<close> m False r'(1)] by blast
      moreover have "\<not> same_addr (dp_pkt y) (dp_pkt d)" using matchAddr_pkt_same [OF m] False by simp
      ultimately show ?thesis using r'(2) by (intro exI [of _ "y # a"] exI [of _ b]) simp
    qed
  next
    case False
    then have "r = d # y # z # ys" using 3(2) by simp
    then show ?thesis by (intro exI [of _ "[]"] exI [of _ "y # z # ys"]) simp
  qed
qed

lemma emplace_split:
  assumes "emplace d q = Inr r"
  shows "\<exists>a b. q = a @ b \<and> r = a @ d # b \<and> (\<forall>x \<in> set b. \<not> same_addr (dp_pkt x) (dp_pkt d))"
proof -
  obtain r' where r': "emplace_rev d (rev q) = Inr r'" "r = rev r'" using assms by (auto simp: emplace_def elim: rbindE)
  obtain a b where "rev q = a @ b" "r' = a @ d # b" "\<forall>x \<in> set a. \<not> same_addr (dp_pkt x) (dp_pkt d)"
    using emplace_rev_split [OF r'(1)] by blast
  then show ?thesis using r'(2) rev_eq_append_conv [of q a b] by (intro exI [of _ "rev b"] exI [of _ "rev a"]) simp
qed

section \<open>Invariant and runs\<close>

text \<open>A busy controller has its release scheduled and is the only one that owes a request retry; a
  queued response is either scheduled or waits for the retry of the peer, never both and never
  neither.\<close>

definition mem_inv :: "SimpleMemory \<Rightarrow> bool" where
  "mem_inv s \<longleftrightarrow> (isBusy s \<longleftrightarrow> releaseEvent s \<noteq> None) \<and> (retryReq s \<longrightarrow> isBusy s)
     \<and> (packetQueue s = [] \<longrightarrow> dequeueEvent s = None \<and> \<not> retryResp s)
     \<and> (packetQueue s \<noteq> [] \<longrightarrow> (dequeueEvent s \<noteq> None) \<noteq> retryResp s)"

text \<open>The controller in its environment: requests, answers and retries come at any time, time passes
  up to the next scheduled event. The history keeps the requests that wait for a response and the
  times and sizes of the accepted ones.\<close>

record MemSys =
  ctrl :: SimpleMemory
  store :: mem
  now :: Tick
  expected :: "ident list"
  accs :: "(Tick \<times> nat) list"

inductive mem_step :: "MemSys \<Rightarrow> MemSys \<Rightarrow> bool" where
  tick: "now m \<le> t \<Longrightarrow> (\<And>u. releaseEvent (ctrl m) = Some u \<Longrightarrow> t \<le> u) \<Longrightarrow> (\<And>u. dequeueEvent (ctrl m) = Some u \<Longrightarrow> t \<le> u)
    \<Longrightarrow> mem_step m (m\<lparr>now := t\<rparr>)"
| request: "recvTimingReq (now m) r1 r2 (store m) (ctrl m) p = Inr (acc, h, s)
    \<Longrightarrow> mem_step m (m\<lparr>ctrl := s, store := h, expected := expected m @ (if acc \<and> needsResponse (cmd p) then [ident p] else []),
          accs := accs m @ (if acc then [(now m, psize p)] else [])\<rparr>)"
| release: "releaseEvent (ctrl m) = Some (now m) \<Longrightarrow> mem_release ((ctrl m)\<lparr>releaseEvent := None\<rparr>) = Inr s
    \<Longrightarrow> mem_step m (m\<lparr>ctrl := s\<rparr>)"
| respond: "dequeueEvent (ctrl m) = Some (now m) \<Longrightarrow> dequeue (now m) ok ((ctrl m)\<lparr>dequeueEvent := None\<rparr>) = Inr s
    \<Longrightarrow> mem_step m (m\<lparr>ctrl := s\<rparr>)"
| retry: "recvRespRetry (now m) ok (ctrl m) = Inr s \<Longrightarrow> mem_step m (m\<lparr>ctrl := s\<rparr>)"
| functional: "recvFunctional (store m) (ctrl m) p = Inr (h, p') \<Longrightarrow> mem_step m (m\<lparr>store := h\<rparr>)"

definition mem_init :: "MemSys \<Rightarrow> bool" where
  "mem_init m \<longleftrightarrow> (\<exists>b lat var bw. ctrl m = newSimpleMemory b lat var bw) \<and> expected m = [] \<and> accs m = []"

inductive mem_reachable :: "MemSys \<Rightarrow> bool" where
  init: "mem_init m \<Longrightarrow> mem_reachable m"
| step: "mem_reachable m \<Longrightarrow> mem_step m m' \<Longrightarrow> mem_reachable m'"

lemma ev_scheduleE: "ev_schedule t ev w = Inr x \<Longrightarrow> (x = Some w \<Longrightarrow> ev = None \<Longrightarrow> t \<le> w \<Longrightarrow> P) \<Longrightarrow> P"
  by (auto simp: ev_schedule_def elim: ensureE)

lemma ev_rescheduleE: "ev_reschedule t ev w al = Inr x \<Longrightarrow> (x = Some w \<Longrightarrow> t \<le> w \<Longrightarrow> P) \<Longrightarrow> P"
  by (auto simp: ev_reschedule_def elim: ensureE)

lemma start_busy_cases:
  assumes "start_busy t d s = Inr s1"
  shows "(d = 0 \<and> s1 = s) \<or> (d \<noteq> 0 \<and> releaseEvent s = None \<and> s1 = s\<lparr>releaseEvent := Some (t + d), isBusy := True\<rparr>)"
  using assms unfolding start_busy_def by (auto elim!: rbindE ev_scheduleE split: if_splits)

lemma enqueue_response_cases:
  assumes "enqueue_response t d s p = Inr s'"
  shows "\<exists>a b. packetQueue s = a @ b \<and> (\<forall>x \<in> set b. \<not> same_addr (dp_pkt x) p) \<and>
    s' = (let pq = a @ \<lparr>dp_tick = d, dp_pkt = p\<rparr> # b in
      if \<not> retryResp s \<and> dequeueEvent s = None then s\<lparr>packetQueue := pq, dequeueEvent := Some (dp_tick (last pq))\<rparr>
      else s\<lparr>packetQueue := pq\<rparr>)"
proof -
  obtain pq where pq: "emplace \<lparr>dp_tick = d, dp_pkt = p\<rparr> (packetQueue s) = Inr pq"
    and s': "s' = (if \<not> retryResp s \<and> dequeueEvent s = None then s\<lparr>packetQueue := pq, dequeueEvent := Some (dp_tick (last pq))\<rparr>
      else s\<lparr>packetQueue := pq\<rparr>)"
    using assms unfolding enqueue_response_def by (auto elim!: rbindE ev_scheduleE split: if_splits)
  obtain a b where "packetQueue s = a @ b" "pq = a @ \<lparr>dp_tick = d, dp_pkt = p\<rparr> # b" "\<forall>x \<in> set b. \<not> same_addr (dp_pkt x) p"
    using emplace_split [OF pq] by auto
  then show ?thesis unfolding s' Let_def by blast
qed

lemma drainSt_id:
  "s\<lparr>retryResp := a, packetQueue := b, responses := c, drainSt := drainSt s\<rparr> = s\<lparr>retryResp := a, packetQueue := b, responses := c\<rparr>"
  by (cases s) simp

lemma dequeue_cases:
  assumes "dequeue t ok s = Inr s'"
  obtains (refused) d ds where "packetQueue s = d # ds" "\<not> ok" "s' = s\<lparr>retryResp := True\<rparr>"
  | (more) d e ds where "packetQueue s = d # e # ds" "ok" "t \<le> max (dp_tick e) t"
      "s' = s\<lparr>retryResp := False, packetQueue := e # ds, responses := responses s @ [dp_pkt d], dequeueEvent := Some (max (dp_tick e) t)\<rparr>"
  | (empty) d where "packetQueue s = [d]" "ok"
      "s' = s\<lparr>retryResp := False, packetQueue := [], responses := responses s @ [dp_pkt d],
        drainSt := (if fst (drainSt s) = Draining then signalDrainDone (drainSt s) else drainSt s)\<rparr>"
proof (cases "packetQueue s")
  case Nil
  then show ?thesis using assms by (simp add: dequeue_def)
next
  case (Cons d ds)
  show ?thesis
  proof (cases ok)
    case False
    then show ?thesis using assms Cons refused by (simp add: dequeue_def)
  next
    case True
    show ?thesis
    proof (cases ds)
      case Nil
      then show ?thesis using assms Cons True empty by (simp add: dequeue_def Let_def drainSt_id split: if_splits)
    next
      case (Cons e es)
      then show ?thesis using assms \<open>packetQueue s = d # ds\<close> True more
        by (auto simp: dequeue_def Let_def elim!: rbindE ev_rescheduleE)
    qed
  qed
qed

lemma mem_release_cases:
  assumes "mem_release s = Inr s'"
  obtains (owed) "isBusy s" "retryReq s" "s' = s\<lparr>isBusy := False, retryReq := False, retriesSent := retriesSent s + 1\<rparr>"
  | (quiet) "isBusy s" "\<not> retryReq s" "s' = s\<lparr>isBusy := False\<rparr>"
  using assms unfolding mem_release_def Let_def by (cases "retryReq s") (auto elim!: ensureE)

lemma enqueue_response_inv:
  assumes "enqueue_response t d s p = Inr s'" and "mem_inv s"
  shows "mem_inv s'"
proof -
  obtain a b where "packetQueue s = a @ b" "s' = (let pq = a @ \<lparr>dp_tick = d, dp_pkt = p\<rparr> # b in
      if \<not> retryResp s \<and> dequeueEvent s = None then s\<lparr>packetQueue := pq, dequeueEvent := Some (dp_tick (last pq))\<rparr>
      else s\<lparr>packetQueue := pq\<rparr>)"
    using enqueue_response_cases [OF assms(1)] by blast
  then show ?thesis using assms(2) by (cases "packetQueue s = []") (auto simp: mem_inv_def Let_def)
qed

lemma start_busy_inv: "start_busy t d s = Inr s1 \<Longrightarrow> mem_inv s \<Longrightarrow> \<not> isBusy s \<Longrightarrow> mem_inv s1"
  using start_busy_cases [of t d s s1] by (auto simp: mem_inv_def)

lemma dequeue_inv:
  assumes "dequeue t ok s = Inr s'" and "mem_inv (s\<lparr>dequeueEvent := None, retryResp := True\<rparr>)" and "dequeueEvent s = None"
  shows "mem_inv s'"
  using assms(1)
proof (cases rule: dequeue_cases)
  case refused
  then show ?thesis using assms(2,3) by (auto simp: mem_inv_def)
next
  case more
  then show ?thesis using assms(2) by (auto simp: mem_inv_def)
next
  case empty
  then show ?thesis using assms(2,3) by (auto simp: mem_inv_def)
qed

lemma mem_inv_step:
  assumes "mem_step m m'" and "mem_inv (ctrl m)"
  shows "mem_inv (ctrl m')"
  using assms
proof (induction rule: mem_step.induct)
  case (request m r1 r2 p acc h s)
  from request(1) show ?case
  proof (cases rule: recvTimingReq_cases)
    case (accepted s1 b p' d)
    then have s1: "mem_inv s1" using start_busy_inv request(2) by blast
    then have "mem_inv (s1\<lparr>base := b\<rparr>)" "mem_inv (s1\<lparr>base := b, pendingDelete := Some p'\<rparr>)" unfolding mem_inv_def by auto
    then show ?thesis using accepted(7) enqueue_response_inv by (auto split: if_splits)
  qed (use request(2) in \<open>auto simp: mem_inv_def\<close>)
next
  case (release m s)
  show ?case using release(2,3) by (cases rule: mem_release_cases) (auto simp: mem_inv_def)
next
  case (respond m ok s)
  have "packetQueue (ctrl m) \<noteq> []" using respond(1,3) by (auto simp: mem_inv_def)
  then have "mem_inv ((ctrl m)\<lparr>dequeueEvent := None, retryResp := True\<rparr>)" using respond(1,3) by (auto simp: mem_inv_def)
  then show ?case using dequeue_inv [OF respond(2)] by simp
next
  case (retry m ok s)
  have r: "retryResp (ctrl m)" "dequeue (now m) ok (ctrl m) = Inr s" using retry(1) by (auto simp: recvRespRetry_def elim!: ensureE)
  then have "dequeueEvent (ctrl m) = None" "mem_inv ((ctrl m)\<lparr>dequeueEvent := None, retryResp := True\<rparr>)"
    using retry(2) by (auto simp: mem_inv_def)
  then show ?case using dequeue_inv [OF r(2)] by simp
qed simp_all

text \<open>Per address, the responses sent and queued are the accepted requests, in order.\<close>

definition at_addr :: "Addr \<Rightarrow> bool \<Rightarrow> ident list \<Rightarrow> ident list" where
  "at_addr a sec = filter (\<lambda>i. fst i = a \<and> fst (snd i) = sec)"

definition order_inv :: "MemSys \<Rightarrow> bool" where
  "order_inv m \<longleftrightarrow> (\<forall>a sec. at_addr a sec (map ident (responses (ctrl m)) @ map (\<lambda>d. ident (dp_pkt d)) (packetQueue (ctrl m)))
     = at_addr a sec (expected m))"

lemma at_addr_append: "at_addr a sec (xs @ ys) = at_addr a sec xs @ at_addr a sec ys"
  by (simp add: at_addr_def)

lemma enqueue_order:
  assumes "enqueue_response t d s p = Inr s'"
  shows "responses s' = responses s"
    and "at_addr a sec (map (\<lambda>d. ident (dp_pkt d)) (packetQueue s')) = at_addr a sec (map (\<lambda>d. ident (dp_pkt d)) (packetQueue s)) @ at_addr a sec [ident p]"
proof -
  obtain u v where uv: "packetQueue s = u @ v" "\<forall>x \<in> set v. \<not> same_addr (dp_pkt x) p"
    and s': "packetQueue s' = u @ \<lparr>dp_tick = d, dp_pkt = p\<rparr> # v" "responses s' = responses s"
    using enqueue_response_cases [OF assms] by (auto simp: Let_def)
  show "responses s' = responses s" by (rule s'(2))
  have "at_addr a sec (map (\<lambda>d. ident (dp_pkt d)) v) = []" if "at_addr a sec [ident p] \<noteq> []"
  proof -
    have "a = addr p" "sec = p_secure p" using that by (auto simp: at_addr_def ident_def split: if_splits)
    then show ?thesis using uv(2) by (auto simp: at_addr_def ident_def same_addr_def filter_empty_conv)
  qed
  then show "at_addr a sec (map (\<lambda>d. ident (dp_pkt d)) (packetQueue s')) = at_addr a sec (map (\<lambda>d. ident (dp_pkt d)) (packetQueue s)) @ at_addr a sec [ident p]"
    unfolding s'(1) uv(1) by (cases "at_addr a sec [ident p] = []") (auto simp: at_addr_def split: if_splits)
qed

lemma dequeue_order:
  assumes "dequeue t ok s = Inr s'"
  shows "map ident (responses s') @ map (\<lambda>d. ident (dp_pkt d)) (packetQueue s') = map ident (responses s) @ map (\<lambda>d. ident (dp_pkt d)) (packetQueue s)"
  using assms by (cases rule: dequeue_cases) simp_all

lemma start_busy_order: "start_busy t d s = Inr s1 \<Longrightarrow> responses s1 = responses s \<and> packetQueue s1 = packetQueue s"
  using start_busy_cases [of t d s s1] by auto

lemma order_inv_step:
  assumes "mem_step m m'" and "order_inv m"
  shows "order_inv m'"
  using assms
proof (induction rule: mem_step.induct)
  case (request m r1 r2 p acc h s)
  from request(1) show ?case
  proof (cases rule: recvTimingReq_cases)
    case (accepted s1 b p' d)
    note o = start_busy_order [OF accepted(4)]
    show ?thesis
    proof (cases "needsResponse (cmd p)")
      case True
      then have e: "enqueue_response (now m) d (s1\<lparr>base := b\<rparr>) p' = Inr s" using accepted(7) by simp
      let ?m = "m\<lparr>ctrl := s, store := h, expected := expected m @ (if acc \<and> needsResponse (cmd p) then [ident p] else []),
          accs := accs m @ (if acc then [(now m, psize p)] else [])\<rparr>"
      show ?thesis unfolding order_inv_def
      proof (intro allI)
        fix a sec
        have "at_addr a sec (map ident (responses (ctrl m)) @ map (\<lambda>d. ident (dp_pkt d)) (packetQueue (ctrl m))) = at_addr a sec (expected m)"
          using request(2) by (simp only: order_inv_def)
        then show "at_addr a sec (map ident (responses (ctrl ?m)) @ map (\<lambda>d. ident (dp_pkt d)) (packetQueue (ctrl ?m))) = at_addr a sec (expected ?m)"
          using True accepted(1,5) o enqueue_order(1) [OF e] enqueue_order(2) [OF e, of a sec] by (simp add: at_addr_append)
      qed
    next
      case False
      then show ?thesis using request(2) accepted(7) o by (simp add: order_inv_def)
    qed
  qed (use request(2) in \<open>simp_all add: order_inv_def\<close>)
next
  case (release m s)
  have "responses s = responses (ctrl m)" "packetQueue s = packetQueue (ctrl m)"
    using release(2) by (cases rule: mem_release_cases; simp)+
  then show ?case using release(3) by (simp add: order_inv_def)
next
  case (respond m ok s)
  then show ?case using dequeue_order [OF respond(2)] by (simp add: order_inv_def)
next
  case (retry m ok s)
  then have "dequeue (now m) ok (ctrl m) = Inr s" by (auto simp: recvRespRetry_def elim!: ensureE)
  then show ?case using retry(2) dequeue_order by (simp add: order_inv_def)
qed (simp_all add: order_inv_def)

text \<open>Between two accepted requests lies the time the first one keeps the memory busy.\<close>

definition gap :: "(nat \<Rightarrow> Tick) \<Rightarrow> Tick \<times> nat \<Rightarrow> Tick \<times> nat \<Rightarrow> bool" where
  "gap bw x y \<longleftrightarrow> fst x + bw (snd x) \<le> fst y"

definition busy_inv :: "(nat \<Rightarrow> Tick) \<Rightarrow> MemSys \<Rightarrow> bool" where
  "busy_inv bw m \<longleftrightarrow> bandwidth (ctrl m) = bw \<and> successively (gap bw) (accs m)
     \<and> (isBusy (ctrl m) \<longrightarrow> accs m \<noteq> [] \<and> releaseEvent (ctrl m) = Some (fst (last (accs m)) + bw (snd (last (accs m)))))
     \<and> (\<not> isBusy (ctrl m) \<longrightarrow> accs m = [] \<or> fst (last (accs m)) + bw (snd (last (accs m))) \<le> now m)"

lemma dequeue_busy:
  assumes "dequeue t ok s = Inr s'"
  shows "isBusy s' = isBusy s \<and> releaseEvent s' = releaseEvent s \<and> bandwidth s' = bandwidth s"
  using assms by (cases rule: dequeue_cases) simp_all

lemma enqueue_busy:
  assumes "enqueue_response t d s p = Inr s'"
  shows "isBusy s' = isBusy s \<and> releaseEvent s' = releaseEvent s \<and> bandwidth s' = bandwidth s"
proof -
  obtain a b where "s' = (let pq = a @ \<lparr>dp_tick = d, dp_pkt = p\<rparr> # b in
      if \<not> retryResp s \<and> dequeueEvent s = None then s\<lparr>packetQueue := pq, dequeueEvent := Some (dp_tick (last pq))\<rparr>
      else s\<lparr>packetQueue := pq\<rparr>)"
    using enqueue_response_cases [OF assms] by blast
  then show ?thesis by (simp add: Let_def)
qed

lemma successively_snoc: "successively P (xs @ [x]) \<longleftrightarrow> successively P xs \<and> (xs = [] \<or> P (last xs) x)"
  by (auto simp: successively_append_iff)

lemma busy_inv_step:
  assumes "mem_step m m'" and "busy_inv bw m" and "mem_inv (ctrl m)"
  shows "busy_inv bw m'"
  using assms
proof (induction rule: mem_step.induct)
  case (tick m t)
  then show ?case by (auto simp: busy_inv_def)
next
  case (request m r1 r2 p acc h s)
  from request(1) show ?case
  proof (cases rule: recvTimingReq_cases)
    case (accepted s1 b p' d)
    have "isBusy s = isBusy s1 \<and> releaseEvent s = releaseEvent s1 \<and> bandwidth s = bandwidth s1"
      using accepted(7) enqueue_busy [of "now m" d "s1\<lparr>base := b\<rparr>" p' s] by (auto split: if_splits)
    moreover have "accs m = [] \<or> gap bw (last (accs m)) (now m, psize p)"
      using request(2) accepted(3) by (auto simp: busy_inv_def gap_def)
    ultimately show ?thesis
      using request(2) accepted(1,3) start_busy_cases [OF accepted(4)] by (auto simp: busy_inv_def successively_snoc)
  qed (use request(2) in \<open>auto simp: busy_inv_def\<close>)
next
  case (release m s)
  have s: "\<not> isBusy s" "bandwidth s = bandwidth (ctrl m)" "isBusy (ctrl m)"
    using release(2) by (cases rule: mem_release_cases; simp)+
  then show ?case using release(1,3) by (auto simp: busy_inv_def)
next
  case (respond m ok s)
  then show ?case using dequeue_busy [OF respond(2)] by (auto simp: busy_inv_def)
next
  case (retry m ok s)
  then have "dequeue (now m) ok (ctrl m) = Inr s" by (auto simp: recvRespRetry_def elim!: ensureE)
  then show ?case using retry(2) dequeue_busy by (auto simp: busy_inv_def)
next
  case (functional m p h p')
  then show ?case by (simp add: busy_inv_def)
qed

lemma reachable_invs: "mem_reachable m \<Longrightarrow> mem_inv (ctrl m) \<and> order_inv m \<and> (\<exists>bw. busy_inv bw m)"
proof (induction rule: mem_reachable.induct)
  case (init m)
  then show ?case by (auto simp: mem_init_def newSimpleMemory_def mem_inv_def order_inv_def busy_inv_def)
next
  case (step m m')
  then show ?case using mem_inv_step order_inv_step busy_inv_step by blast
qed

section \<open>Properties\<close>

text \<open>
  C7: the controller never gets stuck. In every reachable state a busy controller has its release
  scheduled, and a queued response is scheduled or waits for the peer; the handlers of these events
  succeed, the release sends the retry that is owed, and an accepted response leaves the queue.
\<close>

theorem memory_never_stuck:
  assumes "mem_reachable m"
  shows "(isBusy (ctrl m) \<or> retryReq (ctrl m) \<longrightarrow> releaseEvent (ctrl m) \<noteq> None)
    \<and> (packetQueue (ctrl m) \<noteq> [] \<longrightarrow> dequeueEvent (ctrl m) \<noteq> None \<or> retryResp (ctrl m))
    \<and> (releaseEvent (ctrl m) = Some t \<longrightarrow> (\<exists>s. mem_release ((ctrl m)\<lparr>releaseEvent := None\<rparr>) = Inr s \<and> \<not> isBusy s \<and> \<not> retryReq s
        \<and> retriesSent s = retriesSent (ctrl m) + (if retryReq (ctrl m) then 1 else 0)))
    \<and> (dequeueEvent (ctrl m) = Some t \<longrightarrow> (\<exists>s. dequeue t True ((ctrl m)\<lparr>dequeueEvent := None\<rparr>) = Inr s
        \<and> packetQueue s = tl (packetQueue (ctrl m)) \<and> responses s = responses (ctrl m) @ [dp_pkt (hd (packetQueue (ctrl m)))]))
    \<and> (retryResp (ctrl m) \<longrightarrow> (\<exists>s. recvRespRetry t True (ctrl m) = Inr s
        \<and> packetQueue s = tl (packetQueue (ctrl m)) \<and> responses s = responses (ctrl m) @ [dp_pkt (hd (packetQueue (ctrl m)))]))"
proof -
  have inv: "mem_inv (ctrl m)" using reachable_invs [OF assms] by simp
  have deq: "\<exists>s'. dequeue t True s = Inr s' \<and> packetQueue s' = tl (packetQueue s) \<and> responses s' = responses s @ [dp_pkt (hd (packetQueue s))]"
    if "packetQueue s \<noteq> []" for s
    using that by (cases "packetQueue s") (auto simp: dequeue_def Let_def ev_reschedule_def)
  have "\<exists>s. dequeue t True ((ctrl m)\<lparr>dequeueEvent := None\<rparr>) = Inr s \<and> packetQueue s = tl (packetQueue (ctrl m))
      \<and> responses s = responses (ctrl m) @ [dp_pkt (hd (packetQueue (ctrl m)))]" if "dequeueEvent (ctrl m) = Some t"
  proof -
    have "packetQueue (ctrl m) \<noteq> []" using inv that by (auto simp: mem_inv_def)
    then show ?thesis using deq [of "(ctrl m)\<lparr>dequeueEvent := None\<rparr>"] by simp
  qed
  moreover have "\<exists>s. recvRespRetry t True (ctrl m) = Inr s \<and> packetQueue s = tl (packetQueue (ctrl m))
      \<and> responses s = responses (ctrl m) @ [dp_pkt (hd (packetQueue (ctrl m)))]" if "retryResp (ctrl m)"
  proof -
    have "packetQueue (ctrl m) \<noteq> []" using inv that by (auto simp: mem_inv_def)
    then show ?thesis using deq [of "ctrl m"] that by (simp add: recvRespRetry_def)
  qed
  moreover have "\<exists>s. mem_release ((ctrl m)\<lparr>releaseEvent := None\<rparr>) = Inr s \<and> \<not> isBusy s \<and> \<not> retryReq s
        \<and> retriesSent s = retriesSent (ctrl m) + (if retryReq (ctrl m) then 1 else 0)" if "releaseEvent (ctrl m) = Some t"
    using inv that by (simp add: mem_inv_def mem_release_def Let_def)
  moreover have "isBusy (ctrl m) \<or> retryReq (ctrl m) \<longrightarrow> releaseEvent (ctrl m) \<noteq> None"
    "packetQueue (ctrl m) \<noteq> [] \<longrightarrow> dequeueEvent (ctrl m) \<noteq> None \<or> retryResp (ctrl m)"
    using inv by (auto simp: mem_inv_def)
  ultimately show ?thesis by blast
qed

text \<open>
  C8: responses are never lost, duplicated or reordered for an address. In every reachable state,
  for each address and security state, the responses sent so far followed by those in the queue are
  exactly the accepted requests that need a response, in the order in which they were accepted.
\<close>

theorem responses_in_order:
  assumes "mem_reachable m"
  shows "at_addr a sec (map ident (responses (ctrl m)) @ map (\<lambda>d. ident (dp_pkt d)) (packetQueue (ctrl m)))
    = at_addr a sec (expected m)"
  using reachable_invs [OF assms] by (simp add: order_inv_def)

text \<open>
  C33: the bandwidth limit holds. The time between two requests that the controller accepts one
  after the other is at least the time the first one takes at the configured bandwidth.
\<close>

theorem bandwidth_respected:
  assumes "mem_reachable m" and "Suc i < length (accs m)"
  shows "fst (accs m ! i) + bandwidth (ctrl m) (snd (accs m ! i)) \<le> fst (accs m ! Suc i)"
proof -
  obtain bw where "busy_inv bw m" using reachable_invs [OF assms(1)] by blast
  then have "successively (gap bw) (accs m)" "bandwidth (ctrl m) = bw" by (simp_all add: busy_inv_def)
  then show ?thesis using assms(2) by (simp add: successively_conv_nth gap_def)
qed

section \<open>A run\<close>

text \<open>A read that finds the controller idle is accepted, and its response queued.\<close>

lemma serves_delay [simp]: "serves s (p\<lparr>headerDelay := a, payloadDelay := b\<rparr>) = serves s p"
  by (simp add: serves_def pkt_ok_def in_memory_def apart_def cacheResponding_def isMaskedWrite_def)

lemma accept_read:
  assumes "serves (base s) p" and "cmd p = ReadReq" and "\<not> retryReq s" and "\<not> isBusy s" and "releaseEvent s = None"
    and "\<not> retryResp s" and "packetQueue s = [] \<and> dequeueEvent s = None \<or> (\<exists>d. packetQueue s = [d]) \<and> dequeueEvent s \<noteq> None"
    and "0 < bandwidth s (psize p)"
  shows "\<exists>h' s'. recvTimingReq t r1 r2 h s p = Inr (True, h', s') \<and> isBusy s' \<and> releaseEvent s' = Some (t + bandwidth s (psize p))
    \<and> \<not> retryReq s' \<and> \<not> retryResp s' \<and> length (packetQueue s') = Suc (length (packetQueue s)) \<and> bandwidth s' = bandwidth s
    \<and> latency s' = latency s \<and> latency_var s' = latency_var s
    \<and> dequeueEvent s' = (case dequeueEvent s of None \<Rightarrow> Some (t + (headerDelay p + payloadDelay p) + getLatency s r2) | Some u \<Rightarrow> Some u)
    \<and> responses s' = responses s \<and> (\<forall>x. serves (base s) x \<longrightarrow> serves (base s') x)"
proof -
  let ?p = "p\<lparr>headerDelay := 0, payloadDelay := 0\<rparr>" and ?s = "s\<lparr>releaseEvent := Some (t + bandwidth s (psize p)), isBusy := True\<rparr>"
  let ?w = "t + (headerDelay p + payloadDelay p) + getLatency s r2"
  have p: "pkt_ok p" "\<not> cacheResponding p" "\<not> cacheResponding ?p" using assms(1) by (simp_all add: serves_def cacheResponding_def)
  have n: "getSize ?p = Inr (psize p)" using p(1) by (simp add: getSize_def pkt_ok_def)
  have b: "start_busy t (bandwidth s (psize p)) s = Inr ?s" using assms(5,8) by (simp add: start_busy_def ev_schedule_def)
  obtain st h' where a: "access h (base ?s) ?p = Inr (h', (base s)\<lparr>stats := st\<rparr>, clearf EXPRESS_SNOOP (?p\<lparr>cmd := ReadResp\<rparr>))"
    (is "_ = Inr (h', ?b, ?r)") using access_read [of "base s" ?p h] assms(1,2) by auto
  have l: "getLatency (?s\<lparr>base := ?b\<rparr>) r2 = getLatency s r2" by (simp add: getLatency_def)
  have "\<exists>s'. enqueue_response t ?w (?s\<lparr>base := ?b\<rparr>) ?r = Inr s' \<and> isBusy s' \<and> releaseEvent s' = Some (t + bandwidth s (psize p))
    \<and> \<not> retryReq s' \<and> \<not> retryResp s' \<and> length (packetQueue s') = Suc (length (packetQueue s)) \<and> bandwidth s' = bandwidth s
    \<and> latency s' = latency s \<and> latency_var s' = latency_var s
    \<and> dequeueEvent s' = (case dequeueEvent s of None \<Rightarrow> Some ?w | Some u \<Rightarrow> Some u) \<and> responses s' = responses s \<and> base s' = ?b"
    using assms(3,6,7) by (auto simp: enqueue_response_def emplace_def ev_schedule_def)
  moreover have "serves ?b x" if "serves (base s) x" for x using that by (simp add: serves_def in_memory_def apart_def)
  ultimately show ?thesis using assms(2-4) p n a unfolding recvTimingReq_def Let_def
    by (auto simp: b recvAtomic_def l)
qed

definition sample_sys :: MemSys where
  "sample_sys = \<lparr>ctrl = newSimpleMemory sample_memory 1000 0 (\<lambda>n. 4 * n), store = (\<lambda>i. of_nat i), now = 0, expected = [], accs = []\<rparr>"

definition sample_req :: "nat \<Rightarrow> Packet" where
  "sample_req d = sample_packet ReadReq 0x80000010 8 d"

text \<open>Two reads of one address: the second is accepted once the first has released the controller.\<close>

lemma sample_run:
  "\<exists>m. mem_reachable m \<and> accs m = [(0, 8), (32, 8)] \<and> bandwidth (ctrl m) 8 = 32 \<and> expected m = [ident (sample_req 100), ident (sample_req 200)]
    \<and> length (packetQueue (ctrl m)) = 2 \<and> responses (ctrl m) = [] \<and> dequeueEvent (ctrl m) = Some 1000 \<and> isBusy (ctrl m)"
proof -
  let ?s = "ctrl sample_sys"
  have sv: "serves sample_memory (sample_req d)" "cmd (sample_req d) = ReadReq" "psize (sample_req d) = 8"
    "headerDelay (sample_req d) = 0" "payloadDelay (sample_req d) = 0" if "d + 8 \<le> 4096" for d
    using that by (simp_all add: sample_req_def sample_serves) (simp_all add: sample_packet_def blankPacket_def)
  have init: "mem_reachable sample_sys" by (rule mem_reachable.init) (auto simp: mem_init_def sample_sys_def)
  obtain h1 s1 where r1: "recvTimingReq 0 0 0 (store sample_sys) ?s (sample_req 100) = Inr (True, h1, s1)" "isBusy s1" "releaseEvent s1 = Some 32"
    "\<not> retryReq s1" "\<not> retryResp s1" "length (packetQueue s1) = 1" "bandwidth s1 = (\<lambda>n. 4 * n)" "latency s1 = 1000" "latency_var s1 = 0"
    "dequeueEvent s1 = Some 1000" "responses s1 = []" "\<forall>x. serves sample_memory x \<longrightarrow> serves (base s1) x"
    using accept_read [of ?s "sample_req 100" 0 0 0 "store sample_sys"] sv [of 100]
    by (auto simp: sample_sys_def newSimpleMemory_def getLatency_def)
  define m1 where "m1 = sample_sys\<lparr>ctrl := s1, store := h1, expected := [ident (sample_req 100)], accs := [(0, 8)]\<rparr>"
  have m1: "mem_reachable m1"
    using mem_reachable.step [OF init mem_step.request [of sample_sys 0 0 "sample_req 100" True h1 s1]] r1(1) sv [of 100]
    by (simp add: m1_def sample_sys_def)
  define m2 where "m2 = m1\<lparr>now := 32\<rparr>"
  have m2: "mem_reachable m2" unfolding m2_def
    by (rule mem_reachable.step [OF m1 mem_step.tick]) (use r1 in \<open>auto simp: m1_def sample_sys_def\<close>)
  define s3 where "s3 = s1\<lparr>releaseEvent := None, isBusy := False\<rparr>"
  define m3 where "m3 = m2\<lparr>ctrl := s3\<rparr>"
  have m3: "mem_reachable m3" unfolding m3_def
    by (rule mem_reachable.step [OF m2 mem_step.release]) (use r1 in \<open>simp_all add: m2_def m1_def s3_def mem_release_def\<close>)
  have q: "\<exists>d. packetQueue s3 = [d]" using r1(6) by (cases "packetQueue s3") (auto simp: s3_def)
  obtain h4 s4 where r4: "recvTimingReq 32 0 0 h1 s3 (sample_req 200) = Inr (True, h4, s4)" "isBusy s4" "length (packetQueue s4) = 2"
    "bandwidth s4 = (\<lambda>n. 4 * n)" "dequeueEvent s4 = Some 1000" "responses s4 = []"
    using accept_read [of s3 "sample_req 200" 32 0 0 h1] sv [of 200] r1 q by (auto simp: s3_def)
  define m4 where "m4 = m3\<lparr>ctrl := s4, store := h4, expected := [ident (sample_req 100), ident (sample_req 200)], accs := [(0, 8), (32, 8)]\<rparr>"
  have "mem_reachable m4"
    using mem_reachable.step [OF m3 mem_step.request [of m3 0 0 "sample_req 200" True h4 s4]] r4(1) sv [of 200]
    by (simp add: m4_def m3_def m2_def m1_def)
  then show ?thesis using r4 by (intro exI [of _ m4]) (simp add: m4_def)
qed

theorem memory_never_stuck_witness:
  "\<exists>m s. mem_reachable m \<and> dequeue 1000 True ((ctrl m)\<lparr>dequeueEvent := None\<rparr>) = Inr s \<and> length (packetQueue s) = 1
    \<and> length (responses s) = 1 \<and> releaseEvent (ctrl m) \<noteq> None"
proof -
  obtain m where m: "mem_reachable m" "length (packetQueue (ctrl m)) = 2" "responses (ctrl m) = []" "dequeueEvent (ctrl m) = Some 1000" "isBusy (ctrl m)"
    using sample_run by blast
  then show ?thesis using memory_never_stuck [OF m(1), of 1000] by auto
qed

theorem responses_in_order_witness:
  "\<exists>m. mem_reachable m \<and> at_addr 0x80000010 False (map (\<lambda>d. ident (dp_pkt d)) (packetQueue (ctrl m)))
    = [(0x80000010, False, 100, 8), (0x80000010, False, 200, 8)]"
proof -
  obtain m where m: "mem_reachable m" "expected m = [ident (sample_req 100), ident (sample_req 200)]" "responses (ctrl m) = []"
    using sample_run by blast
  have i: "ident (sample_req d) = (0x80000010, False, d, 8)" for d
    by (simp add: ident_def sample_req_def) (simp add: sample_packet_def blankPacket_def)
  show ?thesis using responses_in_order [OF m(1), of "0x80000010" False] m by (intro exI [of _ m]) (simp add: i at_addr_def)
qed

theorem bandwidth_respected_witness:
  "\<exists>m. mem_reachable m \<and> accs m = [(0, 8), (32, 8)] \<and> 0 + bandwidth (ctrl m) 8 \<le> 32"
proof -
  obtain m where m: "mem_reachable m" "accs m = [(0, 8), (32, 8)]" using sample_run by blast
  then show ?thesis using bandwidth_respected [OF m(1), of 0] by auto
qed

section \<open>The controller as the peer of a device\<close>

interpretation mem_peer: memory_peer "recvAtomic rnd" "\<lambda>h s. am_view h (base s)" "\<lambda>s. am_reach (base s)" for rnd
proof
  fix w :: SimpleMemory and a n d i m
  show "am_reach (base w) a n d \<Longrightarrow> i + m \<le> n \<Longrightarrow> am_reach (base w) (a + of_nat i) m (d + i)" by (rule am_reach_part)
  show "am_reach (base w) a n d \<Longrightarrow> unat a + n < 2 ^ 64" by (rule am_reach_fits)
  show "am_reach (base w) a n d \<Longrightarrow> length bs \<le> n \<Longrightarrow> am_view (write_bytes h d bs) (base w) = am_view h (base w)" for bs h
    by (rule am_view_frame)
next
  fix w :: SimpleMemory and p h
  assume p: "am_reach (base w) (addr p) (psize p) (data p)" "plain_request p"
  then have nc: "\<not> cacheResponding p" by (simp add: plain_request_def)
  show "\<exists>lat w' q. recvAtomic rnd h w p = Inr (lat, write_bytes h (data p) (map (\<lambda>i. am_view h (base w) (addr p + of_nat i)) [0..<psize p]), w', q)
      \<and> answers p q \<and> am_reach (base w') = am_reach (base w) \<and> (\<forall>h. am_view h (base w') = am_view h (base w))" if "cmd p = ReadReq"
    using peer_read [OF p that, of h] nc by (fastforce simp: recvAtomic_def)
  show "\<exists>lat h' w' q. recvAtomic rnd h w p = Inr (lat, h', w', q) \<and> answers p q \<and> am_reach (base w') = am_reach (base w)
      \<and> (\<forall>x. am_view h' (base w') x = (if unat (addr p) \<le> unat x \<and> unat x < unat (addr p) + psize p
            then h (data p + (unat x - unat (addr p))) else am_view h (base w) x))
      \<and> (\<forall>a n d j. am_reach (base w) a n d \<and> d \<le> j \<and> j < d + n \<longrightarrow> h' j = h j)" if c: "cmd p = WriteReq"
  proof -
    obtain h' b q where "access h (base w) p = Inr (h', b, q)" "answers p q" "am_reach b = am_reach (base w)"
      "\<forall>x. am_view h' b x = (if unat (addr p) \<le> unat x \<and> unat x < unat (addr p) + psize p
            then h (data p + (unat x - unat (addr p))) else am_view h (base w) x)"
      "\<forall>a n d j. am_reach (base w) a n d \<and> d \<le> j \<and> j < d + n \<longrightarrow> h' j = h j"
      using peer_write [OF p c, of h] by blast
    then show ?thesis using nc
      by (intro exI [of _ "getLatency (w\<lparr>base := b\<rparr>) rnd"] exI [of _ h'] exI [of _ "w\<lparr>base := b\<rparr>"] exI [of _ q]) (simp add: recvAtomic_def getLatency_def)
  qed
qed

end
