(* ===== verification/Scratchpad.thy ===== *)
theory Scratchpad
  imports Simple_Memory
begin

text \<open>
  The scratchpad memory of \<^verbatim>\<open>mem/spm/spm.hh\<close> and \<^verbatim>\<open>mem/spm/spm.cc\<close>: a \<^verbatim>\<open>SimpleMemory\<close> with a second port,
  through which the DMA engine of the core reaches the same backing store. The port has its own
  queue of responses. As for the controller, the answer of the peer to a response is an argument and
  the accepted responses are recorded.
\<close>

section \<open>The DMA port\<close>

record SpmDmaPort =
  dmaPacketQueue :: "(Packet \<times> Tick) list"
  dma_retryResp :: bool
  dmaDequeueEvent :: "Tick option"
  dma_sent :: "Packet list"

record ScratchpadMemory =
  spm :: SimpleMemory
  dmaPort :: SpmDmaPort

definition newSpmDmaPort :: SpmDmaPort where
  "newSpmDmaPort = \<lparr>dmaPacketQueue = [], dma_retryResp = False, dmaDequeueEvent = None, dma_sent = []\<rparr>"

definition newScratchpadMemory :: "SimpleMemory \<Rightarrow> ScratchpadMemory" where
  "newScratchpadMemory s = \<lparr>spm = s, dmaPort = newSpmDmaPort\<rparr>"

datatype spm_port = Port_port | Port_dma_port

definition spm_getPort :: "string \<Rightarrow> spm_port res" where
  "spm_getPort if_name =
     (if if_name = ''dma_port'' then Inr Port_dma_port
      else if if_name \<noteq> ''port'' then Inl Fatal
      else Inr Port_port)"

definition processDmaRequest ::
  "Tick \<Rightarrow> mem \<Rightarrow> ScratchpadMemory \<Rightarrow> Packet \<Rightarrow> (Tick \<times> mem \<times> ScratchpadMemory \<times> Packet) res" where
  "processDmaRequest rnd h s p =
     rbind (recvAtomic rnd h (spm s) p) (\<lambda>(lat, h, m, p). Inr (lat, h, s\<lparr>spm := m\<rparr>, p))"

definition scheduleDmaEvent :: "Tick \<Rightarrow> Tick \<Rightarrow> SpmDmaPort \<Rightarrow> SpmDmaPort res" where
  "scheduleDmaEvent t w d =
     rbind (ev_schedule t (dmaDequeueEvent d) w) (\<lambda>ev. Inr (d\<lparr>dmaDequeueEvent := ev\<rparr>))"

definition dmaDequeue :: "Tick \<Rightarrow> bool \<Rightarrow> SpmDmaPort \<Rightarrow> SpmDmaPort res" where
  "dmaDequeue t peer_accepts d =
     (case dmaPacketQueue d of
        [] \<Rightarrow> Inr d
      | (pkt, ready_time) # rest \<Rightarrow>
          if peer_accepts then
            (let d = d\<lparr>dmaPacketQueue := rest, dma_retryResp := False, dma_sent := dma_sent d @ [pkt]\<rparr> in
             case rest of
               [] \<Rightarrow> Inr d
             | (next_pkt, next_time) # _ \<Rightarrow>
                 if dmaDequeueEvent d = None then scheduleDmaEvent t (max next_time (t + 1)) d else Inr d)
          else Inr (d\<lparr>dma_retryResp := True\<rparr>))"

definition dma_getAddrRanges :: "ScratchpadMemory \<Rightarrow> AddrRange list" where
  "dma_getAddrRanges s = [mrange (base (spm s))]"

definition dma_recvAtomic ::
  "Tick \<Rightarrow> mem \<Rightarrow> ScratchpadMemory \<Rightarrow> Packet \<Rightarrow> (Tick \<times> mem \<times> ScratchpadMemory \<times> Packet) res" where
  "dma_recvAtomic rnd h s p =
     rbind (recvAtomic rnd h (spm s) p) (\<lambda>(lat, h, m, p). Inr (lat, h, s\<lparr>spm := m\<rparr>, p))"

definition dma_recvFunctional :: "mem \<Rightarrow> ScratchpadMemory \<Rightarrow> Packet \<Rightarrow> (mem \<times> Packet) res" where
  "dma_recvFunctional h s p = recvFunctional h (spm s) p"

definition dma_recvTimingReq ::
  "Tick \<Rightarrow> Tick \<Rightarrow> mem \<Rightarrow> ScratchpadMemory \<Rightarrow> Packet \<Rightarrow> (bool \<times> mem \<times> ScratchpadMemory) res" where
  "dma_recvTimingReq t rnd h s p =
     (let needs_response = needsResponse (cmd p) in
      rbind (processDmaRequest rnd h s p) (\<lambda>(lat, h, s, p).
        if needs_response then
          let when_to_send = t + lat;
              d = (dmaPort s)\<lparr>dmaPacketQueue := dmaPacketQueue (dmaPort s) @ [(p, when_to_send)]\<rparr>
          in if \<not> dma_retryResp d \<and> dmaDequeueEvent d = None
             then rbind (scheduleDmaEvent t when_to_send d) (\<lambda>d. Inr (True, h, s\<lparr>dmaPort := d\<rparr>))
             else Inr (True, h, s\<lparr>dmaPort := d\<rparr>)
        else Inr (True, h, s)))"

definition dma_recvRespRetry :: "Tick \<Rightarrow> bool \<Rightarrow> SpmDmaPort \<Rightarrow> SpmDmaPort res" where
  "dma_recvRespRetry t peer_accepts d =
     ensure (dma_retryResp d) AssertFail (dmaDequeue t peer_accepts (d\<lparr>dma_retryResp := False\<rparr>))"

section \<open>Steps of the DMA port\<close>

lemma scheduleDmaEventE:
  assumes "scheduleDmaEvent t w d = Inr d'"
  obtains "dmaDequeueEvent d = None" "t \<le> w" "d' = d\<lparr>dmaDequeueEvent := Some w\<rparr>"
  using assms unfolding scheduleDmaEvent_def by (auto elim!: rbindE ev_scheduleE)

lemma processDmaRequestE:
  assumes "processDmaRequest rnd h s p = Inr (lat, h', s', p')"
  obtains b where "access h (base (spm s)) p = Inr (h', b, p')" "s' = s\<lparr>spm := (spm s)\<lparr>base := b\<rparr>\<rparr>" "lat = getLatency (spm s) rnd"
  using assms unfolding processDmaRequest_def recvAtomic_def by (auto elim!: rbindE ensureE)

lemma dma_recvTimingReq_cases:
  assumes "dma_recvTimingReq t rnd h s p = Inr (acc, h', s')"
  obtains (respond) p' w b where "acc" "needsResponse (cmd p)" "access h (base (spm s)) p = Inr (h', b, p')"
      "w = t + getLatency (spm s) rnd" "spm s' = (spm s)\<lparr>base := b\<rparr>"
      "dmaPort s' = (dmaPort s)\<lparr>dmaPacketQueue := dmaPacketQueue (dmaPort s) @ [(p', w)],
         dmaDequeueEvent := (if \<not> dma_retryResp (dmaPort s) \<and> dmaDequeueEvent (dmaPort s) = None then Some w else dmaDequeueEvent (dmaPort s))\<rparr>"
  | (silent) p' b where "acc" "\<not> needsResponse (cmd p)" "access h (base (spm s)) p = Inr (h', b, p')"
      "spm s' = (spm s)\<lparr>base := b\<rparr>" "dmaPort s' = dmaPort s"
proof -
  have id: "d\<lparr>dmaPacketQueue := q, dmaDequeueEvent := dmaDequeueEvent d\<rparr> = d\<lparr>dmaPacketQueue := q\<rparr>" for d :: SpmDmaPort and q
    by (cases d) simp
  note inv = assms [unfolded dma_recvTimingReq_def Let_def]
  show ?thesis
  proof (cases "needsResponse (cmd p)")
    case True
    show ?thesis
      using inv True
      by (auto simp: id elim!: rbindE processDmaRequestE scheduleDmaEventE split: if_split_asm intro!: respond)
  next
    case False
    then show ?thesis using inv by (auto elim!: rbindE processDmaRequestE intro!: silent)
  qed
qed

lemma dmaDequeue_cases:
  assumes "dmaDequeue t ok d = Inr d'"
  obtains (idle) "dmaPacketQueue d = []" "d' = d"
  | (sent) p w rest where "dmaPacketQueue d = (p, w) # rest" "ok"
      "dmaPacketQueue d' = rest" "\<not> dma_retryResp d'" "dma_sent d' = dma_sent d @ [p]"
      "dmaDequeueEvent d' = (if rest \<noteq> [] \<and> dmaDequeueEvent d = None then Some (max (snd (hd rest)) (t + 1)) else dmaDequeueEvent d)"
  | (refused) p w rest where "dmaPacketQueue d = (p, w) # rest" "\<not> ok" "d' = d\<lparr>dma_retryResp := True\<rparr>"
  using assms unfolding dmaDequeue_def Let_def
  by (auto split: list.splits if_split_asm elim!: scheduleDmaEventE)

section \<open>The scratchpad between its two peers\<close>

text \<open>The controller with its CPU-side environment and the DMA port with its own. The history of the DMA
  side keeps the requests that are owed a response, and for every response the time it was ready and the
  time it was sent.\<close>

record SpmSys =
  msys :: MemSys
  dmap :: SpmDmaPort
  dma_expected :: "ident list"
  dma_times :: "(Tick \<times> Tick) list"

abbreviation (input) spm_of :: "SpmSys \<Rightarrow> ScratchpadMemory" where
  "spm_of x \<equiv> \<lparr>spm = ctrl (msys x), dmaPort = dmap x\<rparr>"

definition log_send :: "Tick \<Rightarrow> SpmDmaPort \<Rightarrow> SpmDmaPort \<Rightarrow> (Tick \<times> Tick) list \<Rightarrow> (Tick \<times> Tick) list" where
  "log_send t d d' l = (if dma_sent d' = dma_sent d then l else l @ [(snd (hd (dmaPacketQueue d)), t)])"

inductive spm_step :: "SpmSys \<Rightarrow> SpmSys \<Rightarrow> bool" where
  cpu: "mem_step (msys x) m \<Longrightarrow> (\<And>u. dmaDequeueEvent (dmap x) = Some u \<Longrightarrow> now m \<le> u) \<Longrightarrow> spm_step x (x\<lparr>msys := m\<rparr>)"
| dma_request: "dma_recvTimingReq (now (msys x)) rnd (store (msys x)) (spm_of x) p = Inr (acc, h, s)
    \<Longrightarrow> spm_step x (x\<lparr>msys := (msys x)\<lparr>ctrl := spm s, store := h\<rparr>, dmap := dmaPort s,
          dma_expected := dma_expected x @ (if acc \<and> needsResponse (cmd p) then [ident p] else [])\<rparr>)"
| dma_respond: "dmaDequeueEvent (dmap x) = Some (now (msys x))
    \<Longrightarrow> dmaDequeue (now (msys x)) ok ((dmap x)\<lparr>dmaDequeueEvent := None\<rparr>) = Inr d
    \<Longrightarrow> spm_step x (x\<lparr>dmap := d, dma_times := log_send (now (msys x)) (dmap x) d (dma_times x)\<rparr>)"
| dma_retry: "dma_recvRespRetry (now (msys x)) ok (dmap x) = Inr d
    \<Longrightarrow> spm_step x (x\<lparr>dmap := d, dma_times := log_send (now (msys x)) (dmap x) d (dma_times x)\<rparr>)"
| dma_functional: "dma_recvFunctional (store (msys x)) (spm_of x) p = Inr (h, p') \<Longrightarrow> spm_step x (x\<lparr>msys := (msys x)\<lparr>store := h\<rparr>\<rparr>)"

definition spm_init :: "SpmSys \<Rightarrow> bool" where
  "spm_init x \<longleftrightarrow> mem_init (msys x) \<and> dmap x = newSpmDmaPort \<and> dma_expected x = [] \<and> dma_times x = []"

inductive spm_reachable :: "SpmSys \<Rightarrow> bool" where
  init: "spm_init x \<Longrightarrow> spm_reachable x"
| step: "spm_reachable x \<Longrightarrow> spm_step x x' \<Longrightarrow> spm_reachable x'"

text \<open>A queued response of the DMA port is scheduled, not before it is ready, or waits for a retry.\<close>

definition dma_inv :: "Tick \<Rightarrow> SpmDmaPort \<Rightarrow> bool" where
  "dma_inv t d \<longleftrightarrow> (dmaPacketQueue d = [] \<longrightarrow> dmaDequeueEvent d = None \<and> \<not> dma_retryResp d)
     \<and> (dmaPacketQueue d \<noteq> [] \<longrightarrow> (dmaDequeueEvent d \<noteq> None) \<noteq> dma_retryResp d)
     \<and> (\<forall>u. dmaDequeueEvent d = Some u \<longrightarrow> t \<le> u \<and> snd (hd (dmaPacketQueue d)) \<le> u)
     \<and> (dma_retryResp d \<longrightarrow> snd (hd (dmaPacketQueue d)) \<le> t)"

definition fifo_inv :: "SpmSys \<Rightarrow> bool" where
  "fifo_inv x \<longleftrightarrow> map ident (dma_sent (dmap x)) @ map (\<lambda>(p, w). ident p) (dmaPacketQueue (dmap x)) = dma_expected x
     \<and> length (dma_times x) = length (dma_sent (dmap x))
     \<and> (\<forall>(ready, sent) \<in> set (dma_times x). ready \<le> sent)"

lemma mem_step_now: "mem_step m m' \<Longrightarrow> now m \<le> now m'"
  by (induction rule: mem_step.induct) auto

lemma mem_inv_base [simp]: "mem_inv (s\<lparr>base := b\<rparr>) = mem_inv s"
  by (simp add: mem_inv_def)

lemma dmaDequeue_inv:
  assumes "dmaDequeue t ok d = Inr d'" and "dmaPacketQueue d \<noteq> []" and "dmaDequeueEvent d = None" and "snd (hd (dmaPacketQueue d)) \<le> t"
  shows "dma_inv t d'"
  using assms(1)
proof (cases rule: dmaDequeue_cases)
  case sent
  then show ?thesis using assms by (auto simp: dma_inv_def)
qed (use assms in \<open>auto simp: dma_inv_def\<close>)

lemma dma_recvTimingReq_inv:
  assumes "dma_recvTimingReq t rnd h s p = Inr (acc, h', s')" and "dma_inv t (dmaPort s)"
  shows "dma_inv t (dmaPort s') \<and> mem_inv (spm s') = mem_inv (spm s)"
  using assms(1)
proof (cases rule: dma_recvTimingReq_cases)
  case (respond p' w b)
  show ?thesis
  proof (cases "dmaPacketQueue (dmaPort s) = []")
    case True
    then show ?thesis using respond assms(2) by (auto simp: dma_inv_def)
  next
    case False
    then show ?thesis using respond assms(2) by (auto simp: dma_inv_def hd_append split: if_splits)
  qed
qed (use assms(2) in auto)

lemma spm_inv_step:
  "spm_step x x' \<Longrightarrow> mem_inv (ctrl (msys x)) \<Longrightarrow> dma_inv (now (msys x)) (dmap x)
    \<Longrightarrow> mem_inv (ctrl (msys x')) \<and> dma_inv (now (msys x')) (dmap x')"
proof (induction rule: spm_step.induct)
  case (cpu x m)
  then show ?case using mem_inv_step [OF cpu(1)] mem_step_now [OF cpu(1)] by (auto simp: dma_inv_def)
next
  case (dma_request x rnd p acc h s)
  then show ?case using dma_recvTimingReq_inv [OF dma_request(1)] by auto
next
  case (dma_respond x ok d)
  then have "dmaPacketQueue (dmap x) \<noteq> []" "snd (hd (dmaPacketQueue (dmap x))) \<le> now (msys x)" by (auto simp: dma_inv_def)
  then show ?case using dmaDequeue_inv [OF dma_respond(2)] dma_respond by simp
next
  case (dma_retry x ok d)
  from dma_retry(1) have d: "dma_retryResp (dmap x)" "dmaDequeue (now (msys x)) ok ((dmap x)\<lparr>dma_retryResp := False\<rparr>) = Inr d"
    unfolding dma_recvRespRetry_def by (auto elim: ensureE)
  with dma_retry(3) have "dmaPacketQueue (dmap x) \<noteq> []" "snd (hd (dmaPacketQueue (dmap x))) \<le> now (msys x)" "dmaDequeueEvent (dmap x) = None"
    by (auto simp: dma_inv_def)
  then show ?case using dmaDequeue_inv [OF d(2)] dma_retry by simp
qed auto

lemma dmaDequeue_fifo:
  assumes "dmaDequeue t ok d0 = Inr d" and "dmaPacketQueue d0 = dmaPacketQueue (dmap x)" and "dma_sent d0 = dma_sent (dmap x)"
    and "fifo_inv x" and "snd (hd (dmaPacketQueue (dmap x))) \<le> t"
  shows "fifo_inv (x\<lparr>dmap := d, dma_times := log_send t (dmap x) d (dma_times x)\<rparr>)"
  using assms(1)
proof (cases rule: dmaDequeue_cases)
  case (sent p w rest)
  then have "map ident (dma_sent (dmap x)) @ ident p # map (\<lambda>(p, w). ident p) rest = dma_expected x"
    using assms(2,4) by (simp add: fifo_inv_def)
  then show ?thesis using sent assms by (auto simp: fifo_inv_def log_send_def)
qed (use assms in \<open>auto simp: fifo_inv_def log_send_def\<close>)

lemma fifo_inv_step:
  "spm_step x x' \<Longrightarrow> dma_inv (now (msys x)) (dmap x) \<Longrightarrow> fifo_inv x \<Longrightarrow> fifo_inv x'"
proof (induction rule: spm_step.induct)
  case (dma_request x rnd p acc h s)
  from dma_request(1) show ?case
  proof (cases rule: dma_recvTimingReq_cases)
    case (respond p' w b)
    then show ?thesis using dma_request(3) access_ident [OF respond(3)] by (auto simp: fifo_inv_def)
  qed (use dma_request(3) in \<open>auto simp: fifo_inv_def\<close>)
next
  case (dma_respond x ok d)
  then have "snd (hd (dmaPacketQueue (dmap x))) \<le> now (msys x)" by (auto simp: dma_inv_def)
  then show ?case using dmaDequeue_fifo [OF dma_respond(2)] dma_respond by simp
next
  case (dma_retry x ok d)
  from dma_retry(1) have d: "dma_retryResp (dmap x)" "dmaDequeue (now (msys x)) ok ((dmap x)\<lparr>dma_retryResp := False\<rparr>) = Inr d"
    unfolding dma_recvRespRetry_def by (auto elim: ensureE)
  then show ?case using dmaDequeue_fifo [OF d(2)] dma_retry by (simp add: dma_inv_def)
qed (auto simp: fifo_inv_def)

lemma spm_reachable_invs:
  "spm_reachable x \<Longrightarrow> mem_inv (ctrl (msys x)) \<and> dma_inv (now (msys x)) (dmap x) \<and> fifo_inv x"
proof (induction rule: spm_reachable.induct)
  case (init x)
  then show ?case by (auto simp: spm_init_def mem_init_def mem_inv_def newSimpleMemory_def dma_inv_def newSpmDmaPort_def fifo_inv_def)
next
  case (step x x')
  then show ?case using spm_inv_step fifo_inv_step by blast
qed

lemma dma_accept:
  assumes "access h (base (spm s)) p = Inr (h', b, p')" and "\<not> cacheResponding p"
  shows "\<exists>s'. dma_recvTimingReq t rnd h s p = Inr (True, h', s') \<and> spm s' = (spm s)\<lparr>base := b\<rparr>"
  using assms by (simp add: dma_recvTimingReq_def processDmaRequest_def recvAtomic_def Let_def scheduleDmaEvent_def ev_schedule_def)

lemma dma_accept_read:
  assumes "serves (base (spm s)) p" and "cmd p = ReadReq"
  shows "\<exists>h' s'. dma_recvTimingReq t rnd h s p = Inr (True, h', s')"
proof -
  obtain h' b p' where "access h (base (spm s)) p = Inr (h', b, p')" using access_read [OF assms, of h] by blast
  moreover have "\<not> cacheResponding p" using assms(1) by (simp add: serves_def)
  ultimately show ?thesis using dma_accept by blast
qed



section \<open>One store behind two ports\<close>

lemma recvTimingReq_access:
  assumes "recvTimingReq t r1 r2 h s p = Inr (True, h', s')"
  shows "\<exists>b p'. access h (base s) (p\<lparr>headerDelay := 0, payloadDelay := 0\<rparr>) = Inr (h', b, p') \<and> base s' = b"
proof -
  have q: "base z' = base z" if "enqueue_response t' w z x = Inr z'" for t' w z x z'
    using that unfolding enqueue_response_def by (auto elim!: rbindE ensureE split: if_split_asm)
  have b: "base z' = base z" if "start_busy t' w z = Inr z'" for t' w z z'
    using that unfolding start_busy_def by (auto elim!: rbindE split: if_split_asm)
  show ?thesis using assms unfolding recvTimingReq_def Let_def recvAtomic_def
    by (auto elim!: rbindE ensureE split: if_split_asm dest!: q b)
qed

lemma dma_recvTimingReq_access:
  "dma_recvTimingReq t rnd h s p = Inr (acc, h', s') \<Longrightarrow> \<exists>b p'. access h (base (spm s)) p = Inr (h', b, p') \<and> base (spm s') = b"
  by (erule dma_recvTimingReq_cases) auto

lemma access_write_then_read:
  assumes "serves s w" and "cmd w = WriteReq" and "writeable s" and "locks_ok (lockedAddrList s)" and "serves s r" and "cmd r = ReadReq"
    and "access h s w = Inr (h1, b, w')" and "access h1 b r = Inr (h2, b', r')"
  shows "\<forall>i < psize r. let a = addr r + of_nat i in h2 (data r + i) =
      (if unat (addr w) \<le> unat a \<and> unat a < unat (addr w) + psize w then h (data w + (unat a - unat (addr w)))
       else mem_at h s a)"
proof -
  obtain h1' s1 x h2' s2 y where a: "access h s w = Inr (h1', s1, x)" "access h1' s1 r = Inr (h2', s2, y)"
    and *: "\<forall>i < psize r. let a = addr r + of_nat i in h2' (data r + i) =
      (if unat (addr w) \<le> unat a \<and> unat a < unat (addr w) + psize w then h (data w + (unat a - unat (addr w)))
       else mem_at h s a)"
    using access_write_read [OF assms(1-6), of h] by blast
  have "h2' = h2" using a assms(7,8) by simp
  then show ?thesis using * by simp
qed

text \<open>
  C2: the two ports of the scratchpad see one memory. A read by the DMA engine of what the core has
  written through its port returns the bytes written, over the whole overlap of the two accesses, and
  the old contents elsewhere; and so does a read by the core after a write by the DMA engine.
\<close>

theorem scratchpad_ports_share_store:
  assumes "serves (base (spm s)) w" and "cmd w = WriteReq" and "writeable (base (spm s))" and "locks_ok (lockedAddrList (base (spm s)))"
    and "serves (base (spm s)) r" and "cmd r = ReadReq"
    and "recvTimingReq t r1 r2 h (spm s) w = Inr (True, h1, m) \<and> dma_recvTimingReq t' rnd h1 (s\<lparr>spm := m\<rparr>) r = Inr (True, h2, s2)
      \<or> dma_recvTimingReq t rnd h s w = Inr (True, h1, s1) \<and> recvTimingReq t' r1 r2 h1 (spm s1) r = Inr (True, h2, m)"
  shows "\<forall>i < psize r. let a = addr r + of_nat i in h2 (data r + i) =
      (if unat (addr w) \<le> unat a \<and> unat a < unat (addr w) + psize w then h (data w + (unat a - unat (addr w)))
       else mem_at h (base (spm s)) a)"
  using assms(7)
proof
  let ?w = "w\<lparr>headerDelay := 0, payloadDelay := 0\<rparr>" and ?r = "r\<lparr>headerDelay := 0, payloadDelay := 0\<rparr>"
  have e: "addr ?w = addr w" "data ?w = data w" "psize ?w = psize w" "addr ?r = addr r" "data ?r = data r" "psize ?r = psize r" by simp_all
  have w: "serves (base (spm s)) ?w" "cmd ?w = WriteReq" and r: "serves (base (spm s)) ?r" "cmd ?r = ReadReq" using assms(1,2,5,6) by simp_all
  show ?thesis if *: "recvTimingReq t r1 r2 h (spm s) w = Inr (True, h1, m) \<and> dma_recvTimingReq t' rnd h1 (s\<lparr>spm := m\<rparr>) r = Inr (True, h2, s2)"
  proof -
    from * obtain b w' where b: "access h (base (spm s)) ?w = Inr (h1, b, w')" "base m = b" using recvTimingReq_access by blast
    with * obtain b' r' where "access h1 b r = Inr (h2, b', r')"
      using dma_recvTimingReq_access [of t' rnd h1 "s\<lparr>spm := m\<rparr>" r True h2 s2] by auto
    from access_write_then_read [OF w assms(3-6) b(1) this] show ?thesis unfolding e .
  qed
  show ?thesis if *: "dma_recvTimingReq t rnd h s w = Inr (True, h1, s1) \<and> recvTimingReq t' r1 r2 h1 (spm s1) r = Inr (True, h2, m)"
  proof -
    from * obtain b w' where b: "access h (base (spm s)) w = Inr (h1, b, w')" "base (spm s1) = b" using dma_recvTimingReq_access by blast
    with * obtain b' r' where "access h1 b ?r = Inr (h2, b', r')" using recvTimingReq_access by blast
    from access_write_then_read [OF assms(1-4) r b(1) this] show ?thesis unfolding e .
  qed
qed

text \<open>Draining looks at the responses of the CPU port only: with a DMA response queued the scratchpad still
  reports that it is drained.\<close>

lemma drain_ignores_dma:
  assumes "serves (base (spm s)) p" and "cmd p = ReadReq" and "drain (spm s) = Drained"
  shows "\<exists>h' s'. dma_recvTimingReq t rnd h s p = Inr (True, h', s') \<and> dmaPacketQueue (dmaPort s') \<noteq> [] \<and> drain (spm s') = Drained"
proof -
  obtain h' s' where *: "dma_recvTimingReq t rnd h s p = Inr (True, h', s')" using dma_accept_read [OF assms(1,2)] by blast
  then show ?thesis
  proof (cases rule: dma_recvTimingReq_cases)
    case respond
    then show ?thesis using * assms(3) by (auto simp: drain_def)
  qed (simp add: assms(2))
qed

section \<open>A run of the DMA port\<close>

definition sample_spm :: SpmSys where
  "sample_spm = \<lparr>msys = sample_sys, dmap = newSpmDmaPort, dma_expected = [], dma_times = []\<rparr>"

lemma sample_req_ok: "d + 8 \<le> 4096 \<Longrightarrow> serves sample_memory (sample_req d) \<and> cmd (sample_req d) = ReadReq \<and> psize (sample_req d) = 8
    \<and> ident (sample_req d) = (0x80000010, False, d, 8)"
  by (simp add: sample_req_def sample_serves) (simp add: sample_packet_def blankPacket_def ident_def)

lemma sample_spm_run:
  "\<exists>x. spm_reachable x \<and> dmaDequeueEvent (dmap x) = Some 1000 \<and> length (dmaPacketQueue (dmap x)) = 1
    \<and> dma_expected x = [(0x80000010, False, 100, 8)] \<and> dma_sent (dmap x) = [] \<and> now (msys x) = 0"
proof -
  let ?x = sample_spm
  have c: "spm (spm_of ?x) = newSimpleMemory sample_memory 1000 0 (\<lambda>n. 4 * n)" "base (spm (spm_of ?x)) = sample_memory"
    by (simp_all add: sample_spm_def sample_sys_def newSimpleMemory_def)
  have ok: "serves (base (spm (spm_of ?x))) (sample_req 100)" "cmd (sample_req 100) = ReadReq" using sample_req_ok [of 100] c by auto
  obtain h s where r: "dma_recvTimingReq (now (msys ?x)) 0 (store (msys ?x)) (spm_of ?x) (sample_req 100) = Inr (True, h, s)"
    using dma_accept_read [OF ok] by blast
  let ?y = "?x\<lparr>msys := (msys ?x)\<lparr>ctrl := spm s, store := h\<rparr>, dmap := dmaPort s, dma_expected := [ident (sample_req 100)]\<rparr>"
  have "spm_reachable ?x"
    by (rule spm_reachable.init) (auto simp: spm_init_def sample_spm_def mem_init_def sample_sys_def)
  moreover have "spm_step ?x ?y" using spm_step.dma_request [OF r] ok(2) by (simp add: sample_spm_def)
  ultimately have y: "spm_reachable ?y" by (rule spm_reachable.step)
  from r have "dmaDequeueEvent (dmaPort s) = Some 1000 \<and> length (dmaPacketQueue (dmaPort s)) = 1 \<and> dma_sent (dmaPort s) = []"
  proof (cases rule: dma_recvTimingReq_cases)
    case respond
    then show ?thesis using c by (simp add: sample_spm_def newSpmDmaPort_def sample_sys_def getLatency_def newSimpleMemory_def)
  qed (simp add: ok(2))
  then show ?thesis using y sample_req_ok [of 100] by (intro exI [of _ ?y]) (simp add: sample_spm_def sample_sys_def)
qed



theorem scratchpad_ports_share_store_witness:
  "\<exists>s h1 s1 h2 m. dma_recvTimingReq 0 0 (\<lambda>i. of_nat i) s (sample_packet WriteReq 0x80000010 8 200) = Inr (True, h1, s1)
    \<and> recvTimingReq 5 0 0 h1 (spm s1) (sample_req 100) = Inr (True, h2, m) \<and> h2 103 = 203"
proof -
  let ?s = "newScratchpadMemory (newSimpleMemory sample_memory 1000 0 (\<lambda>n. 4 * n))"
  let ?w = "sample_packet WriteReq 0x80000010 8 200" and ?r = "sample_req 100"
  let ?h = "\<lambda>i. of_nat i :: byte"
  have b: "base (spm ?s) = sample_memory" by (simp add: newScratchpadMemory_def newSimpleMemory_def)
  have w: "serves (base (spm ?s)) ?w" "cmd ?w = WriteReq" "addr ?w = 0x80000010" "psize ?w = 8" "data ?w = 200"
    by (simp add: b sample_serves, simp_all add: sample_packet_def blankPacket_def)
  have m: "writeable (base (spm ?s))" "locks_ok (lockedAddrList (base (spm ?s)))" unfolding b by (simp_all add: sample_memory_def locks_ok_def)
  have r: "serves (base (spm ?s)) ?r" "cmd ?r = ReadReq" "addr ?r = 0x80000010" "psize ?r = 8" "data ?r = 100"
    using sample_req_ok [of 100] by (simp_all add: b ident_def)
  have nc: "\<not> cacheResponding ?w" using w(1) by (simp add: serves_def)
  obtain h1 ls cl st p' where "access ?h (base (spm ?s)) ?w = Inr (h1, (base (spm ?s))\<lparr>lockedAddrList := ls, clearedExclusive := cl, stats := st\<rparr>, p')"
    using access_write [OF w(1,2) m, of ?h] by blast
  from dma_accept [OF this nc] obtain s1 where d: "dma_recvTimingReq 0 0 ?h ?s ?w = Inr (True, h1, s1)"
    and s1: "spm s1 = (spm ?s)\<lparr>base := (base (spm ?s))\<lparr>lockedAddrList := ls, clearedExclusive := cl, stats := st\<rparr>\<rparr>" by blast
  have "serves (base (spm s1)) ?r" using r(1) by (simp add: s1 serves_def in_memory_def apart_def)
  then obtain h2 m where a: "recvTimingReq 5 0 0 h1 (spm s1) ?r = Inr (True, h2, m)"
    using accept_read [of "spm s1" ?r 5 0 0 h1] r by (auto simp: s1 newScratchpadMemory_def newSimpleMemory_def)
  have "h2 (data ?r + 3) = ?h (data ?w + 3)"
    using scratchpad_ports_share_store [OF w(1,2) m r(1,2) disjI2 [OF conjI [OF d a]]] r w
    by (auto dest: spec [of _ 3] simp: Let_def)
  then show ?thesis using d a r w by (intro exI [of _ ?s] exI [of _ h1] exI [of _ s1] exI [of _ h2] exI [of _ m]) simp
qed

section \<open>The DMA port as the peer of a device\<close>

text \<open>The port forwards atomic requests to the controller, so it keeps the contract of the controller.\<close>

lemma dma_recvAtomic_forward: "recvAtomic rnd h (spm w) p = Inr (lat, h', m, q) \<Longrightarrow> dma_recvAtomic rnd h w p = Inr (lat, h', w\<lparr>spm := m\<rparr>, q)"
  by (simp add: dma_recvAtomic_def)

interpretation spm_peer: memory_peer "dma_recvAtomic rnd" "\<lambda>h s. am_view h (base (spm s))" "\<lambda>s. am_reach (base (spm s))" for rnd
proof
  fix w :: ScratchpadMemory and a n d i m
  show "am_reach (base (spm w)) a n d \<Longrightarrow> i + m \<le> n \<Longrightarrow> am_reach (base (spm w)) (a + of_nat i) m (d + i)" by (rule am_reach_part)
  show "am_reach (base (spm w)) a n d \<Longrightarrow> unat a + n < 2 ^ 64" by (rule am_reach_fits)
  show "am_reach (base (spm w)) a n d \<Longrightarrow> length bs \<le> n \<Longrightarrow> am_view (write_bytes h d bs) (base (spm w)) = am_view h (base (spm w))" for bs h
    by (rule am_view_frame)
next
  fix w :: ScratchpadMemory and p h
  assume p: "am_reach (base (spm w)) (addr p) (psize p) (data p)" "plain_request p"
  show "\<exists>lat w' q. dma_recvAtomic rnd h w p = Inr (lat, write_bytes h (data p) (map (\<lambda>i. am_view h (base (spm w)) (addr p + of_nat i)) [0..<psize p]), w', q)
      \<and> answers p q \<and> am_reach (base (spm w')) = am_reach (base (spm w)) \<and> (\<forall>h. am_view h (base (spm w')) = am_view h (base (spm w)))"
    if "cmd p = ReadReq"
    using mem_peer.send_read [OF p that, of rnd h] dma_recvAtomic_forward by fastforce
  show "\<exists>lat h' w' q. dma_recvAtomic rnd h w p = Inr (lat, h', w', q) \<and> answers p q \<and> am_reach (base (spm w')) = am_reach (base (spm w))
      \<and> (\<forall>x. am_view h' (base (spm w')) x = (if unat (addr p) \<le> unat x \<and> unat x < unat (addr p) + psize p
            then h (data p + (unat x - unat (addr p))) else am_view h (base (spm w)) x))
      \<and> (\<forall>a n d j. am_reach (base (spm w)) a n d \<and> d \<le> j \<and> j < d + n \<longrightarrow> h' j = h j)" if c: "cmd p = WriteReq"
  proof -
    obtain lat h' m q where "recvAtomic rnd h (spm w) p = Inr (lat, h', m, q)" "answers p q" "am_reach (base m) = am_reach (base (spm w))"
      "\<forall>x. am_view h' (base m) x = (if unat (addr p) \<le> unat x \<and> unat x < unat (addr p) + psize p
            then h (data p + (unat x - unat (addr p))) else am_view h (base (spm w)) x)"
      "\<forall>a n d j. am_reach (base (spm w)) a n d \<and> d \<le> j \<and> j < d + n \<longrightarrow> h' j = h j"
      using mem_peer.send_write [OF p c, of rnd h] by blast
    then show ?thesis
      by (intro exI [of _ lat] exI [of _ h'] exI [of _ "w\<lparr>spm := m\<rparr>"] exI [of _ q]) (simp add: dma_recvAtomic_forward)
  qed
qed

end
