(* ===== verification/Idma.thy ===== *)
theory Idma
  imports Dma_Virt Scratchpad
begin

text \<open>
  The IDMA engine of \<^verbatim>\<open>mem/spm/idma.hh\<close> and \<^verbatim>\<open>mem/spm/idma.cc\<close>: a device with five 32-bit registers that copies a
  region of virtual memory through a buffer of its own, first reading all of it and then writing all of it, and
  the programmed I/O port of \<^verbatim>\<open>dev/io_device.hh\<close> through which the cores reach the registers.
\<close>

section \<open>The device\<close>

text \<open>The two lambdas that the engine passes to its callbacks.\<close>

datatype IdmaFunction = IdmaReadDone | IdmaWriteDone

record IDMA =
  regBase :: Addr
  srcAddrReg :: "32 word"
  dstAddrReg :: "32 word"
  sizeReg :: "32 word"
  commandReg :: "32 word"
  statusReg :: "32 word"
  dmaBuffer :: nat

abbreviation (input) IDMA_BUSY :: "32 word" where "IDMA_BUSY \<equiv> 1"
abbreviation (input) IDMA_COMPLETE :: "32 word" where "IDMA_COMPLETE \<equiv> 2"
abbreviation (input) REG_SRC_ADDR_OFFSET :: Addr where "REG_SRC_ADDR_OFFSET \<equiv> 0x00"
abbreviation (input) REG_DST_ADDR_OFFSET :: Addr where "REG_DST_ADDR_OFFSET \<equiv> 0x04"
abbreviation (input) REG_SIZE_OFFSET :: Addr where "REG_SIZE_OFFSET \<equiv> 0x08"
abbreviation (input) REG_COMMAND_OFFSET :: Addr where "REG_COMMAND_OFFSET \<equiv> 0x0C"
abbreviation (input) REG_STATUS_OFFSET :: Addr where "REG_STATUS_OFFSET \<equiv> 0x10"

text \<open>The argument is the address of the buffer allocated on the host.\<close>

definition newIDMA :: "nat \<Rightarrow> IDMA" where
  "newIDMA buf = \<lparr>regBase = 0x80060000, srcAddrReg = 0, dstAddrReg = 0, sizeReg = 0, commandReg = 0, statusReg = 0, dmaBuffer = buf\<rparr>"

text \<open>What surrounds the device: the mode of the simulation, the page table of the process, and the peer of
  the DMA port; and the fuel for the loops of a transfer.\<close>

record 'w IdmaEnv =
  fullSystem :: bool
  ptable :: EmulationPageTable
  memMode :: MemoryMode
  atomicPeer :: "'w peer"
  backdoorPeer :: "'w bd_peer"
  timingAccepts :: "Packet list \<Rightarrow> bool"
  loopFuel :: nat

type_synonym 'w idma_world = "(IDMA, IdmaFunction, 'w) virt_world"

definition idma_translate :: "'w IdmaEnv \<Rightarrow> Addr \<Rightarrow> Addr \<Rightarrow> TranslationGen res" where
  "idma_translate env vaddr sz = (if \<not> fullSystem env then Inr (translateRange (ptable env) vaddr sz) else Inl Panic)"

definition idma_getAddrRanges :: "IDMA \<Rightarrow> AddrRange list" where
  "idma_getAddrRanges s = [RangeSize (regBase s) 0x1000]"

section \<open>Transfers\<close>

definition idmaTransfer :: "'w IdmaEnv \<Rightarrow> Tick \<Rightarrow> 'w idma_world \<Rightarrow> 'w idma_world res option" where
  "idmaTransfer env tick x =
     (case x of (s, cs, d, h, w) \<Rightarrow>
      let sz = sizeReg s; srcAddr = srcAddrReg s; command = commandReg s in
      if command AND 1 \<noteq> 0 then
        if dmaPending d then Some (Inr x)
        else (let s = s\<lparr>statusReg := IDMA_BUSY\<rparr> in
              case newDmaVirtCallback IdmaReadDone cs of (readCb, cs) \<Rightarrow>
                map_option (map_sum id (Pair s))
                  (dmaReadVirt (loopFuel env) (memMode env) (atomicPeer env) (backdoorPeer env) (timingAccepts env)
                     (idma_translate env) tick (ucast srcAddr) sz (Some readCb) (dmaBuffer s) 0 (cs, d, h, w)))
      else Some (Inr x))"

definition idmaReadDone :: "'w IdmaEnv \<Rightarrow> Tick \<Rightarrow> 'w idma_world \<Rightarrow> 'w idma_world res option" where
  "idmaReadDone env tick x =
     (case x of (s, cs, dw) \<Rightarrow>
      case newDmaVirtCallback IdmaWriteDone cs of (writeCb, cs) \<Rightarrow>
        map_option (map_sum id (Pair s))
          (dmaWriteVirt (loopFuel env) (memMode env) (atomicPeer env) (backdoorPeer env) (timingAccepts env)
             (idma_translate env) tick (ucast (dstAddrReg s)) (sizeReg s) (Some writeCb) (dmaBuffer s) 0 (cs, dw)))"

definition idmaWriteDone :: "'w idma_world \<Rightarrow> 'w idma_world res option" where
  "idmaWriteDone x = (case x of (s, cs, dw) \<Rightarrow> Some (Inr (s\<lparr>statusReg := IDMA_COMPLETE\<rparr>, cs, dw)))"

definition idma_process :: "'w IdmaEnv \<Rightarrow> Tick \<Rightarrow> IdmaFunction \<Rightarrow> 'w idma_world \<Rightarrow> 'w idma_world res option" where
  "idma_process env tick f = (case f of IdmaReadDone \<Rightarrow> idmaReadDone env tick | IdmaWriteDone \<Rightarrow> idmaWriteDone)"

section \<open>Registers\<close>

definition read_reg32 :: "mem \<Rightarrow> 32 word \<Rightarrow> nat \<Rightarrow> Packet \<Rightarrow> mem res" where
  "read_reg32 h v n pkt = (if n = 4 then setLE 4 h v pkt else Inl Panic)"

definition read_reg_addr :: "mem \<Rightarrow> 32 word \<Rightarrow> nat \<Rightarrow> Packet \<Rightarrow> mem res" where
  "read_reg_addr h v n pkt =
     (if n = 8 then setLE 8 h (ucast v :: 64 word) pkt else if n = 4 then setLE 4 h v pkt else Inl Panic)"

definition idma_read :: "mem \<Rightarrow> IDMA \<Rightarrow> Packet \<Rightarrow> (Tick \<times> mem \<times> Packet) res" where
  "idma_read h s pkt =
     rbind (getAddr pkt) (\<lambda>a.
     rbind (getSize pkt) (\<lambda>n.
     let offset = a - regBase s in
     rbind
       (if offset = REG_STATUS_OFFSET then read_reg32 h (statusReg s) n pkt
        else if offset = REG_SRC_ADDR_OFFSET then read_reg_addr h (srcAddrReg s) n pkt
        else if offset = REG_DST_ADDR_OFFSET then read_reg_addr h (dstAddrReg s) n pkt
        else if offset = REG_SIZE_OFFSET then read_reg32 h (sizeReg s) n pkt
        else if offset = REG_COMMAND_OFFSET then read_reg32 h (commandReg s) n pkt
        else if n = 4 then setLE 4 h (0 :: 32 word) pkt
        else if n = 8 then setLE 8 h (0 :: 64 word) pkt
        else Inr h) (\<lambda>h.
     rbind (makeResponse pkt) (\<lambda>pkt. Inr (10, h, pkt)))))"

text \<open>A new value for an address register: the code keeps the upper half of the register widened to 64 bits.\<close>

definition write_reg32 :: "mem \<Rightarrow> nat \<Rightarrow> Packet \<Rightarrow> 32 word res" where
  "write_reg32 h n pkt = (if n = 4 then getLE 4 h pkt else Inl Panic)"

definition write_reg_addr :: "mem \<Rightarrow> 32 word \<Rightarrow> nat \<Rightarrow> Packet \<Rightarrow> 32 word res" where
  "write_reg_addr h old n pkt =
     (if n = 8 then rbind (getLE 8 h pkt) (\<lambda>v :: 64 word. Inr (ucast v))
      else if n = 4 then rbind (getLE 4 h pkt) (\<lambda>v :: 32 word.
        Inr (ucast (((ucast old :: 64 word) AND 0xFFFFFFFF00000000) OR ucast v)))
      else Inl Panic)"

definition idma_write :: "'w IdmaEnv \<Rightarrow> Tick \<Rightarrow> Packet \<Rightarrow> 'w idma_world \<Rightarrow> (Tick \<times> Packet \<times> 'w idma_world) res option" where
  "idma_write env tick pkt x =
     (case x of (s, cs, d, h, w) \<Rightarrow>
      case rbind (getAddr pkt) (\<lambda>a. rbind (getSize pkt) (\<lambda>n. Inr (a - regBase s, n))) of
        Inl e \<Rightarrow> Some (Inl e)
      | Inr (offset, n) \<Rightarrow>
          let put = (\<lambda>r :: IDMA res. Some (rbind r (\<lambda>s. Inr (s, cs, d, h, w))));
              r = (if offset = REG_STATUS_OFFSET then put (rbind (write_reg32 h n pkt) (\<lambda>v. Inr (s\<lparr>statusReg := v\<rparr>)))
                   else if offset = REG_SRC_ADDR_OFFSET then put (rbind (write_reg_addr h (srcAddrReg s) n pkt) (\<lambda>v. Inr (s\<lparr>srcAddrReg := v\<rparr>)))
                   else if offset = REG_DST_ADDR_OFFSET then put (rbind (write_reg_addr h (dstAddrReg s) n pkt) (\<lambda>v. Inr (s\<lparr>dstAddrReg := v\<rparr>)))
                   else if offset = REG_SIZE_OFFSET then put (rbind (write_reg32 h n pkt) (\<lambda>v. Inr (s\<lparr>sizeReg := v\<rparr>)))
                   else if offset = REG_COMMAND_OFFSET then
                     (case write_reg32 h n pkt of
                        Inl e \<Rightarrow> Some (Inl e)
                      | Inr v \<Rightarrow>
                          let s = s\<lparr>commandReg := v\<rparr>
                          in if commandReg s AND 1 \<noteq> 0 then idmaTransfer env tick (s, cs, d, h, w) else Some (Inr (s, cs, d, h, w)))
                   else put (Inr s))
          in map_option (\<lambda>r. rbind r (\<lambda>x. rbind (makeResponse pkt) (\<lambda>pkt. Inr (10, pkt, x)))) r)"

definition pio_recvAtomic :: "'w IdmaEnv \<Rightarrow> Tick \<Rightarrow> Packet \<Rightarrow> 'w idma_world \<Rightarrow> (Tick \<times> Packet \<times> 'w idma_world) res option" where
  "pio_recvAtomic env tick pkt x =
     (let receive_delay = headerDelay pkt + payloadDelay pkt;
          pkt = pkt\<lparr>headerDelay := 0, payloadDelay := 0\<rparr>;
          r = (if isRead (cmd pkt)
               then (case x of (s, cs, d, h, w) \<Rightarrow> Some (rbind (idma_read h s pkt) (\<lambda>(t, h, pkt). Inr (t, pkt, (s, cs, d, h, w)))))
               else idma_write env tick pkt x)
      in map_option (\<lambda>r. rbind r (\<lambda>(delay, pkt, x).
           ensure (isResponse (cmd pkt) \<or> isError (cmd pkt)) AssertFail (Inr (delay + receive_delay, pkt, x)))) r)"

section \<open>Event steps\<close>

text \<open>The simulation runs a scheduled chunk event of the device, in any order; the time is the time of the event.\<close>

definition open_chunks :: "DmaPort \<Rightarrow> nat set" where
  "open_chunks d = {e. devEvents d e \<noteq> None}"

definition pending :: "'w idma_world \<Rightarrow> nat set" where
  "pending x = (case x of (s, cs, d, h, w) \<Rightarrow> open_chunks d)"

definition idma_event :: "'w IdmaEnv \<Rightarrow> nat \<Rightarrow> 'w idma_world \<Rightarrow> 'w idma_world res option" where
  "idma_event env e x =
     (case x of (s, cs, d, h, w) \<Rightarrow>
      case devEvents d e of
        None \<Rightarrow> Some (Inl AssertFail)
      | Some tick \<Rightarrow> chunk_event_process (idma_process env tick) e x)"

inductive idma_run :: "'w IdmaEnv \<Rightarrow> 'w idma_world \<Rightarrow> nat list \<Rightarrow> 'w idma_world \<Rightarrow> bool" for env where
  nil: "idma_run env x [] x"
| snoc: "idma_run env x es y \<Longrightarrow> e \<in> pending y \<Longrightarrow> idma_event env e y = Some (Inr z) \<Longrightarrow> idma_run env x (es @ [e]) z"

end
