(* ===== verification/Idma_Phases.thy ===== *)
theory Idma_Phases
  imports Idma
begin

text \<open>
  The phases of an IDMA transfer in atomic mode: how a callback counts down its chunk events, and how the
  engine passes from reading through writing to completion, proved once for every memory that meets the
  contract of \<^verbatim>\<open>Memory_Peer\<close>.
\<close>

section \<open>Waiting for the chunks of a callback\<close>

definition waiting :: "nat \<Rightarrow> 'f \<Rightarrow> 'f CallbackHeap \<Rightarrow> DmaPort \<Rightarrow> bool" where
  "waiting b f cs d \<longleftrightarrow> finite (open_chunks d) \<and> open_chunks d \<noteq> {} \<and> card (open_chunks d) < 2 ^ 31
     \<and> (\<forall>e\<in>open_chunks d. chunkEvents cs e = Some b)
     \<and> (\<exists>cb. callbacks cs b = Some cb \<and> cb_function cb = f \<and> cb_count cb = of_nat (card (open_chunks d)))
     \<and> b < nextCallback cs \<and> fresh_events cs d"

lemma new_waiting:
  assumes "open_chunks d = {}" and "newDmaVirtCallback f cs = (b, cs1)" and "issued t b m cs1 d cs' d'" and "0 < m" and "m < 2 ^ 31"
  shows "waiting b f cs' d'" and "card (open_chunks d') = m"
proof -
  have cs1: "b = nextCallback cs" "callbacks cs1 b = Some \<lparr>cb_count = 0, cb_function = f, cb_drainState = Running\<rparr>" "nextCallback cs1 = Suc b"
    using assms(2) by (auto simp: newDmaVirtCallback_def)
  have none: "devEvents d e = None" for e using assms(1) by (auto simp: open_chunks_def)
  have i: "callbacks cs' b = Some \<lparr>cb_count = of_nat m, cb_function = f, cb_drainState = Running\<rparr>"
    "nextEvent cs' = nextEvent cs1 + m" "nextCallback cs' = Suc b"
    "\<And>e. chunkEvents cs' e = (if nextEvent cs1 \<le> e \<and> e < nextEvent cs1 + m then Some b else chunkEvents cs1 e)"
    "\<And>e. if nextEvent cs1 \<le> e \<and> e < nextEvent cs1 + m then \<exists>w\<ge>t. devEvents d' e = Some w else devEvents d' e = devEvents d e"
    using assms(3) cs1 by (auto simp: issued_def)
  have P: "open_chunks d' = {nextEvent cs1..<nextEvent cs1 + m}"
  proof (rule set_eqI)
    fix e show "e \<in> open_chunks d' \<longleftrightarrow> e \<in> {nextEvent cs1..<nextEvent cs1 + m}"
      using i(5) [of e] none [of e] by (auto simp: open_chunks_def split: if_splits)
  qed
  then show c: "card (open_chunks d') = m" by simp
  have "fresh_events cs' d'" unfolding fresh_events_def i(2)
  proof (intro allI impI)
    fix e assume "nextEvent cs1 + m \<le> e"
    then have "e \<notin> open_chunks d'" unfolding P by auto
    then show "devEvents d' e = None" by (simp add: open_chunks_def)
  qed
  moreover have "\<forall>e\<in>open_chunks d'. chunkEvents cs' e = Some b" unfolding P using i(4) by auto
  moreover have "finite (open_chunks d')" "open_chunks d' \<noteq> {}" unfolding P using assms(4) by auto
  ultimately show "waiting b f cs' d'" unfolding waiting_def c using i(1,3) assms(5) by simp
qed

lemma open_chunks_remove: "open_chunks (d\<lparr>devEvents := (devEvents d)(e := None)\<rparr>) = open_chunks d - {e}"
  by (auto simp: open_chunks_def)

lemma fresh_events_remove: "fresh_events cs d \<Longrightarrow> nextEvent cs' = nextEvent cs \<Longrightarrow> fresh_events cs' (d\<lparr>devEvents := (devEvents d)(e := None)\<rparr>)"
  by (simp add: fresh_events_def)

text \<open>An event that is not the last one is only counted.\<close>

lemma waiting_step:
  assumes w: "waiting b f cs d" and e: "e \<in> open_chunks d" and more: "open_chunks d \<noteq> {e}"
  shows "\<exists>cs'. chunk_event_process proc e (s, cs, d, h, w) = Some (Inr (s, cs', d\<lparr>devEvents := (devEvents d)(e := None)\<rparr>, h, w))
    \<and> waiting b f cs' (d\<lparr>devEvents := (devEvents d)(e := None)\<rparr>) \<and> nextCallback cs' = nextCallback cs"
proof -
  let ?d = "d\<lparr>devEvents := (devEvents d)(e := None)\<rparr>"
  obtain cb where cb: "callbacks cs b = Some cb" "cb_function cb = f" "cb_count cb = of_nat (card (open_chunks d))" "chunkEvents cs e = Some b"
    "finite (open_chunks d)" "card (open_chunks d) < 2 ^ 31" "b < nextCallback cs" "fresh_events cs d" "\<forall>e\<in>open_chunks d. chunkEvents cs e = Some b"
    using w e by (auto simp: waiting_def)
  have c: "card (open_chunks ?d) = card (open_chunks d) - 1" "0 < card (open_chunks ?d)"
  proof -
    show "card (open_chunks ?d) = card (open_chunks d) - 1" unfolding open_chunks_remove using e cb(5) by simp
    have "open_chunks d - {e} \<noteq> {}" using e more by auto
    then show "0 < card (open_chunks ?d)" unfolding open_chunks_remove using cb(5) by (simp add: card_gt_0_iff)
  qed
  have "card (open_chunks d) = Suc (card (open_chunks ?d))" using c by simp
  then have n: "cb_count cb - 1 = of_nat (card (open_chunks ?d))" using cb(3) by simp
  have lt: "card (open_chunks ?d) < 2 ^ 31" using c(1) cb(6) by linarith
  then have "unat (of_nat (card (open_chunks ?d)) :: 32 word) = card (open_chunks ?d)" by (intro unat_of_nat_32) simp
  then have nz: "(of_nat (card (open_chunks ?d)) :: 32 word) \<noteq> 0" using c(2) by auto
  let ?cs = "cs\<lparr>chunkEvents := (chunkEvents cs)(e := None), callbacks := (callbacks cs)(b \<mapsto> cb\<lparr>cb_count := of_nat (card (open_chunks ?d))\<rparr>)\<rparr>"
  have "chunk_event_process proc e (s, cs, d, h, w) = Some (Inr (s, ?cs, ?d, h, w))"
    using cb(1,4) n nz by (simp add: chunk_event_process_def chunkComplete_def cb_deref_def Let_def)
  moreover have "waiting b f ?cs ?d"
  proof -
    have "finite (open_chunks ?d)" "open_chunks ?d \<noteq> {}" using cb(5) e more by (auto simp: open_chunks_remove)
    moreover have "\<forall>x\<in>open_chunks ?d. chunkEvents ?cs x = Some b" using cb(9) by (simp add: open_chunks_remove)
    ultimately show ?thesis unfolding waiting_def using cb(2,7) lt fresh_events_remove [OF cb(8), of ?cs e] by simp
  qed
  ultimately show ?thesis by auto
qed

text \<open>The last event runs the function of the callback, which is deleted after it.\<close>

lemma waiting_last:
  assumes w: "waiting b f cs d" and last: "open_chunks d = {e}"
  shows "\<exists>cs1. b < nextCallback cs1 \<and> fresh_events cs1 (d\<lparr>devEvents := (devEvents d)(e := None)\<rparr>)
    \<and> (\<forall>s' cs' dw. proc f (s, cs1, d\<lparr>devEvents := (devEvents d)(e := None)\<rparr>, h, w) = Some (Inr (s', cs', dw))
       \<longrightarrow> (\<exists>n. chunk_event_process proc e (s, cs, d, h, w) = Some (Inr (s', cs'\<lparr>drainSignals := n, callbacks := (callbacks cs')(b := None)\<rparr>, dw))))"
proof -
  obtain cb where cb: "callbacks cs b = Some cb" "cb_function cb = f" "cb_count cb = 1" "chunkEvents cs e = Some b"
    "b < nextCallback cs" "fresh_events cs d"
    using w last by (auto simp: waiting_def)
  let ?cs = "cs\<lparr>chunkEvents := (chunkEvents cs)(e := None), callbacks := (callbacks cs)(b \<mapsto> cb\<lparr>cb_count := 0\<rparr>)\<rparr>"
  show ?thesis
    by (rule exI [of _ ?cs]) (use cb in \<open>auto simp: chunk_event_process_def chunkComplete_def cb_deref_def Let_def intro!: fresh_events_remove\<close>)
qed

lemma waiting_delete:
  "waiting b f cs d \<Longrightarrow> b \<noteq> c \<Longrightarrow> waiting b f (cs\<lparr>drainSignals := n, callbacks := (callbacks cs)(c := None)\<rparr>) d"
  by (auto simp: waiting_def fresh_events_def)

section \<open>A whole transfer in atomic mode\<close>

definition copied :: "EmulationPageTable \<Rightarrow> Addr \<Rightarrow> Addr \<Rightarrow> nat \<Rightarrow> (Addr \<Rightarrow> byte) \<Rightarrow> (Addr \<Rightarrow> byte) \<Rightarrow> bool" where
  "copied t src dst n V V' \<longleftrightarrow> (\<forall>j<n. V' (phys t dst j) = V (phys t src j)) \<and> (\<forall>x. x \<notin> phys t dst ` {..<n} \<longrightarrow> V' x = V x)"

text \<open>The memory system is in atomic mode, both regions are mapped to memory, the target one without aliases,
  and the buffer is large enough.\<close>

definition transfer_ok :: "('w \<Rightarrow> Addr \<Rightarrow> nat \<Rightarrow> nat \<Rightarrow> bool) \<Rightarrow> nat \<Rightarrow> nat \<Rightarrow> 'w IdmaEnv \<Rightarrow> IDMA \<Rightarrow> 'w \<Rightarrow> bool" where
  "transfer_ok reach k c env s w \<longleftrightarrow>
     memMode env = mode_atomic \<and> \<not> fullSystem env \<and> pt_ok k (ptable env)
     \<and> unat (sizeReg s) \<le> 1024 * 1024 \<and> unat (sizeReg s) + 3 \<le> loopFuel env \<and> dmaBuffer s \<noteq> 0
     \<and> region_ok reach c (ptable env) w (ucast (srcAddrReg s)) (unat (sizeReg s)) (dmaBuffer s)
     \<and> region_ok reach c (ptable env) w (ucast (dstAddrReg s)) (unat (sizeReg s)) (dmaBuffer s)
     \<and> inj_on (phys (ptable env) (ucast (dstAddrReg s))) {..<unat (sizeReg s)}"

text \<open>The engine while it reads, while it writes, and when it is done; \<open>L\<close> bounds the events still to come.\<close>

definition reading :: "(mem \<Rightarrow> 'w \<Rightarrow> Addr \<Rightarrow> byte) \<Rightarrow> 'w IdmaEnv \<Rightarrow> (Addr \<Rightarrow> byte) \<Rightarrow> nat \<Rightarrow> 'w idma_world \<Rightarrow> bool" where
  "reading view env V L x \<longleftrightarrow> (case x of (s, cs, d, h, w) \<Rightarrow>
     (\<exists>b. waiting b IdmaReadDone cs d) \<and> statusReg s = IDMA_BUSY \<and> view h w = V \<and> L = card (open_chunks d) + max 1 (unat (sizeReg s))
     \<and> (\<forall>j<unat (sizeReg s). h (dmaBuffer s + j) = V (phys (ptable env) (ucast (srcAddrReg s)) j)))"

definition writing :: "(mem \<Rightarrow> 'w \<Rightarrow> Addr \<Rightarrow> byte) \<Rightarrow> 'w IdmaEnv \<Rightarrow> (Addr \<Rightarrow> byte) \<Rightarrow> nat \<Rightarrow> 'w idma_world \<Rightarrow> bool" where
  "writing view env V L x \<longleftrightarrow> (case x of (s, cs, d, h, w) \<Rightarrow>
     (if L = 0 then open_chunks d = {} \<and> statusReg s = IDMA_COMPLETE
      else (\<exists>b. waiting b IdmaWriteDone cs d) \<and> statusReg s = IDMA_BUSY \<and> L = card (open_chunks d))
     \<and> copied (ptable env) (ucast (srcAddrReg s)) (ucast (dstAddrReg s)) (unat (sizeReg s)) V (view h w))"

definition phase ::
  "(mem \<Rightarrow> 'w \<Rightarrow> Addr \<Rightarrow> byte) \<Rightarrow> ('w \<Rightarrow> Addr \<Rightarrow> nat \<Rightarrow> nat \<Rightarrow> bool) \<Rightarrow> nat \<Rightarrow> nat \<Rightarrow> 'w IdmaEnv \<Rightarrow> IDMA \<Rightarrow> (Addr \<Rightarrow> byte) \<Rightarrow> nat \<Rightarrow> 'w idma_world \<Rightarrow> bool" where
  "phase view reach k c env s0 V L x \<longleftrightarrow> (case x of (s, cs, d, h, w) \<Rightarrow>
     idle_port c d \<and> transfer_ok reach k c env s w \<and> s = s0\<lparr>statusReg := statusReg s\<rparr> \<and> (reading view env V L x \<or> writing view env V L x))"

lemma region_ok_cong: "reach w' = reach w \<Longrightarrow> region_ok reach c t w' v n D = region_ok reach c t w v n D"
  unfolding region_ok_def by (simp only:)

lemma transfer_ok_cong:
  assumes "reach w' = reach w"
  shows "transfer_ok reach k c env (s\<lparr>statusReg := v\<rparr>) w' = transfer_ok reach k c env s w"
  unfolding transfer_ok_def region_ok_cong [OF assms] by simp

lemma idle_port_events [simp]: "idle_port c (d\<lparr>devEvents := ev\<rparr>) = idle_port c d"
  by (simp add: idle_port_def)

lemma transfer_okD:
  assumes "transfer_ok reach k c env s w"
  shows "unat (ucast (srcAddrReg s) :: Addr) + unat (sizeReg s) + 2 ^ k < 2 ^ 64" "unat (ucast (dstAddrReg s) :: Addr) + unat (sizeReg s) + 2 ^ k < 2 ^ 64"
    "unat (sizeReg s) < 2 ^ 31" "idma_translate env = (\<lambda>a n. Inr (translateRange (ptable env) a n))" "max 1 (unat (sizeReg s)) < 2 ^ 31"
proof -
  have k: "k < 63" "unat (sizeReg s) \<le> 1024 * 1024" "\<not> fullSystem env" using assms by (auto simp: transfer_ok_def pt_ok_def)
  have "(2 :: nat) ^ k \<le> 2 ^ 62" using k(1) by (intro power_increasing) auto
  then have b: "unat (ucast r :: Addr) + unat (sizeReg s) + 2 ^ k < 2 ^ 64" for r :: "32 word"
    using unsigned_less [of r, where 'a = nat] k(2) by simp
  show "unat (ucast (srcAddrReg s) :: Addr) + unat (sizeReg s) + 2 ^ k < 2 ^ 64" "unat (ucast (dstAddrReg s) :: Addr) + unat (sizeReg s) + 2 ^ k < 2 ^ 64"
    by (rule b)+
  show "unat (sizeReg s) < 2 ^ 31" "max 1 (unat (sizeReg s)) < 2 ^ 31" using k(2) by simp_all
  show "idma_translate env = (\<lambda>a n. Inr (translateRange (ptable env) a n))" using k(3) by (simp add: idma_translate_def fun_eq_iff)
qed

context memory_peer
begin

lemma transfer_start:
  assumes ok: "transfer_ok reach k c env s w" and send: "atomicPeer env = send" and port: "idle_port c d" "fresh_events cs d" "open_chunks d = {}"
    and go: "commandReg s AND 1 \<noteq> 0"
  shows "\<exists>L x. idmaTransfer env t (s, cs, d, h, w) = Some (Inr x) \<and> phase view reach k c env s (view h w) L x \<and> L \<le> 2 * max 1 (unat (sizeReg s))
    \<and> reading view env (view h w) L x"
proof -
  let ?t = "ptable env" and ?n = "unat (sizeReg s)" and ?D = "dmaBuffer s" and ?src = "ucast (srcAddrReg s) :: Addr"
  note k = transfer_okD [OF ok]
  have m: "memMode env = mode_atomic" "pt_ok k ?t" "?n + 3 \<le> loopFuel env" "?D \<noteq> 0" "region_ok reach c ?t w ?src ?n ?D"
    using ok by (auto simp: transfer_ok_def)
  obtain b cs1 where b: "newDmaVirtCallback IdmaReadDone cs = (b, cs1)" by (cases "newDmaVirtCallback IdmaReadDone cs") auto
  then have cs1: "fresh_events cs1 d" "\<exists>cb. callbacks cs1 b = Some cb" using port(2) by (auto simp: newDmaVirtCallback_def fresh_events_def)
  then obtain cb where cb: "callbacks cs1 b = Some cb" by blast
  let ?h = "write_bytes h ?D (map (\<lambda>j. view h w (phys ?t ?src j)) [0..<?n])"
  obtain m' cs' d' w' where r: "dmaReadVirt (loopFuel env) mode_atomic send (backdoorPeer env) (timingAccepts env) (\<lambda>a n. Inr (translateRange ?t a n)) t ?src
      (sizeReg s) (Some b) ?D 0 (cs1, d, h, w) = Some (Inr (cs', d', ?h, w'))"
    "idle_port c d'" "issued t b m' cs1 d cs' d'" "0 < m'" "m' \<le> max 1 ?n" "reach w' = reach w" "view ?h w' = view h w"
    using dmaReadVirt_atomic [OF m(2) k(1) m(5) port(1) cs1(1) cb m(4) k(3) m(3), of "backdoorPeer env" "timingAccepts env" t 0 h] by blast
  have "m' < 2 ^ 31" using r(5) k(5) by linarith
  note w = new_waiting [OF port(3) b r(3,4) this]
  let ?s = "s\<lparr>statusReg := 1\<rparr>" and ?L = "m' + max 1 ?n"
  let ?x = "(?s, cs', d', ?h, w')"
  have np: "\<not> dmaPending d" using port(1) by (simp add: dmaPending_def idle_port_def)
  have "idmaTransfer env t (s, cs, d, h, w) = Some (Inr ?x)"
    using go np b r(1) by (simp add: idmaTransfer_def Let_def m(1) send k(4))
  moreover have rd: "reading view env (view h w) ?L ?x"
    unfolding reading_def using w r(7) by (auto simp: write_bytes_inside)
  moreover have "phase view reach k c env s (view h w) ?L ?x"
    unfolding phase_def using r(2) rd transfer_ok_cong [where reach = reach, OF r(6)] ok by simp
  ultimately show ?thesis using r(5) by (intro exI [of _ ?L] exI [of _ ?x]) simp
qed

lemma transfer_write:
  assumes ok: "transfer_ok reach k c env s w" and send: "atomicPeer env = send" and port: "idle_port c d" "fresh_events cs d" "open_chunks d = {}"
    and buf: "\<And>j. j < unat (sizeReg s) \<Longrightarrow> h (dmaBuffer s + j) = view h w (phys (ptable env) (ucast (srcAddrReg s)) j)"
  shows "\<exists>cs' d' h' w'. idmaReadDone env t (s, cs, d, h, w) = Some (Inr (s, cs', d', h', w')) \<and> waiting (nextCallback cs) IdmaWriteDone cs' d' \<and> idle_port c d'
    \<and> card (open_chunks d') \<le> max 1 (unat (sizeReg s)) \<and> reach w' = reach w
    \<and> copied (ptable env) (ucast (srcAddrReg s)) (ucast (dstAddrReg s)) (unat (sizeReg s)) (view h w) (view h' w')"
proof -
  let ?t = "ptable env" and ?n = "unat (sizeReg s)" and ?D = "dmaBuffer s" and ?dst = "ucast (dstAddrReg s) :: Addr"
  note k = transfer_okD [OF ok]
  have m: "memMode env = mode_atomic" "pt_ok k ?t" "?n + 3 \<le> loopFuel env" "?D \<noteq> 0" "region_ok reach c ?t w ?dst ?n ?D" "inj_on (phys ?t ?dst) {..<?n}"
    using ok by (auto simp: transfer_ok_def)
  obtain b cs1 where b: "newDmaVirtCallback IdmaWriteDone cs = (b, cs1)" "b = nextCallback cs" by (auto simp: newDmaVirtCallback_def)
  then have cs1: "fresh_events cs1 d" "\<exists>cb. callbacks cs1 b = Some cb" using port(2) by (auto simp: newDmaVirtCallback_def fresh_events_def)
  then obtain cb where cb: "callbacks cs1 b = Some cb" by blast
  obtain m' cs' d' h' w' where r: "dmaWriteVirt (loopFuel env) mode_atomic send (backdoorPeer env) (timingAccepts env) (\<lambda>a n. Inr (translateRange ?t a n)) t ?dst
      (sizeReg s) (Some b) ?D 0 (cs1, d, h, w) = Some (Inr (cs', d', h', w'))"
    "idle_port c d'" "issued t b m' cs1 d cs' d'" "0 < m'" "m' \<le> max 1 ?n" "reach w' = reach w"
    "\<forall>j<?n. view h' w' (phys ?t ?dst j) = h (?D + j)" "\<forall>x. x \<notin> phys ?t ?dst ` {..<?n} \<longrightarrow> view h' w' x = view h w x"
    using dmaWriteVirt_atomic [OF m(2) k(2) m(5,6) port(1) cs1(1) cb m(4) k(3) m(3), of "backdoorPeer env" "timingAccepts env" t 0 h] by blast
  have "m' < 2 ^ 31" using r(5) k(5) by linarith
  note w = new_waiting [OF port(3) b(1) r(3,4) this]
  have "idmaReadDone env t (s, cs, d, h, w) = Some (Inr (s, cs', d', h', w'))"
    using b r(1) by (simp add: idmaReadDone_def m(1) send k(4))
  then show ?thesis using w r(2,5-8) b(2) buf unfolding copied_def
    by (intro exI [of _ cs'] exI [of _ d'] exI [of _ h'] exI [of _ w']) simp
qed

lemma reading_event:
  assumes p: "phase view reach k c env s0 V L (s, cs, d, h, w)" and r: "reading view env V L (s, cs, d, h, w)" and send: "atomicPeer env = send"
    and e: "e \<in> open_chunks d"
  shows "\<exists>x L'. idma_event env e (s, cs, d, h, w) = Some (Inr x) \<and> phase view reach k c env s0 V L' x \<and> L' < L"
proof -
  let ?d = "d\<lparr>devEvents := (devEvents d)(e := None)\<rparr>"
  obtain t where t: "devEvents d e = Some t" using e by (auto simp: open_chunks_def)
  obtain b where b: "waiting b IdmaReadDone cs d" "statusReg s = 1" "view h w = V" "L = card (open_chunks d) + max 1 (unat (sizeReg s))"
    "\<And>j. j < unat (sizeReg s) \<Longrightarrow> h (dmaBuffer s + j) = V (phys (ptable env) (ucast (srcAddrReg s)) j)"
    using r by (auto simp: reading_def)
  have ph: "idle_port c ?d" "transfer_ok reach k c env s w" "s = s0\<lparr>statusReg := statusReg s\<rparr>" using p by (auto simp: phase_def)
  have ev: "idma_event env e (s, cs, d, h, w) = chunk_event_process (idma_process env t) e (s, cs, d, h, w)" by (simp add: idma_event_def t)
  have pos: "0 < card (open_chunks d)" "card (open_chunks ?d) = card (open_chunks d) - 1"
    using b(1) e by (auto simp: waiting_def card_gt_0_iff open_chunks_remove)
  show ?thesis
  proof (cases "open_chunks d = {e}")
    case False
    obtain cs' where cs': "chunk_event_process (idma_process env t) e (s, cs, d, h, w) = Some (Inr (s, cs', ?d, h, w))" "waiting b IdmaReadDone cs' ?d"
      using waiting_step [OF b(1) e False, of "idma_process env t" s h w] by blast
    have "reading view env V (L - 1) (s, cs', ?d, h, w)"
      unfolding reading_def using cs'(2) b pos by auto
    then have "phase view reach k c env s0 V (L - 1) (s, cs', ?d, h, w)" unfolding phase_def using ph by simp
    moreover have "L - 1 < L" using pos(1) b(4) by simp
    ultimately show ?thesis unfolding ev using cs'(1) by blast
  next
    case True
    obtain cs1 where cs1: "b < nextCallback cs1" "fresh_events cs1 ?d"
      "\<And>s' cs' dw. idma_process env t IdmaReadDone (s, cs1, ?d, h, w) = Some (Inr (s', cs', dw)) \<Longrightarrow>
        \<exists>n. chunk_event_process (idma_process env t) e (s, cs, d, h, w) = Some (Inr (s', cs'\<lparr>drainSignals := n, callbacks := (callbacks cs')(b := None)\<rparr>, dw))"
      using waiting_last [OF b(1) True, of "idma_process env t" s h w] by blast
    have none: "open_chunks ?d = {}" using True by (simp add: open_chunks_remove)
    obtain cs' d' h' w' where x: "idmaReadDone env t (s, cs1, ?d, h, w) = Some (Inr (s, cs', d', h', w'))" "waiting (nextCallback cs1) IdmaWriteDone cs' d'"
      "idle_port c d'" "card (open_chunks d') \<le> max 1 (unat (sizeReg s))" "reach w' = reach w"
      "copied (ptable env) (ucast (srcAddrReg s)) (ucast (dstAddrReg s)) (unat (sizeReg s)) V (view h' w')"
      using transfer_write [OF ph(2) send ph(1) cs1(2) none, of h t] b(3,5) by auto
    then obtain n where n: "chunk_event_process (idma_process env t) e (s, cs, d, h, w)
        = Some (Inr (s, cs'\<lparr>drainSignals := n, callbacks := (callbacks cs')(b := None)\<rparr>, d', h', w'))"
      using cs1(3) by (auto simp: idma_process_def)
    let ?cs = "cs'\<lparr>drainSignals := n, callbacks := (callbacks cs')(b := None)\<rparr>" and ?L = "card (open_chunks d')"
    have "waiting (nextCallback cs1) IdmaWriteDone ?cs d'" using waiting_delete [OF x(2), of b n] cs1(1) by simp
    moreover have "0 < ?L" using x(2) by (auto simp: waiting_def card_gt_0_iff)
    ultimately have "writing view env V ?L (s, ?cs, d', h', w')" unfolding writing_def using x(6) b(2) by auto
    moreover have "transfer_ok reach k c env s w'" using transfer_ok_cong [where reach = reach and s = s and v = "statusReg s", OF x(5)] ph(2) by simp
    ultimately have "phase view reach k c env s0 V ?L (s, ?cs, d', h', w')" unfolding phase_def using ph(3) x(3) by simp
    moreover have "?L < L" using x(4) b(4) pos(1) by linarith
    ultimately show ?thesis unfolding ev using n by blast
  qed
qed

lemma writing_event:
  assumes p: "phase view reach k c env s0 V L (s, cs, d, h, w)" and r: "writing view env V L (s, cs, d, h, w)" and e: "e \<in> open_chunks d"
  shows "\<exists>x L'. idma_event env e (s, cs, d, h, w) = Some (Inr x) \<and> phase view reach k c env s0 V L' x \<and> L' < L"
proof -
  let ?d = "d\<lparr>devEvents := (devEvents d)(e := None)\<rparr>"
  obtain t where t: "devEvents d e = Some t" using e by (auto simp: open_chunks_def)
  have "L \<noteq> 0" using r e by (auto simp: writing_def split: if_splits)
  then obtain b where b: "waiting b IdmaWriteDone cs d" "statusReg s = 1" "L = card (open_chunks d)" "0 < L"
    "copied (ptable env) (ucast (srcAddrReg s)) (ucast (dstAddrReg s)) (unat (sizeReg s)) V (view h w)"
    using r by (auto simp: writing_def)
  have ph: "idle_port c ?d" "transfer_ok reach k c env s w" "s = s0\<lparr>statusReg := statusReg s\<rparr>" using p by (auto simp: phase_def)
  have ev: "idma_event env e (s, cs, d, h, w) = chunk_event_process (idma_process env t) e (s, cs, d, h, w)" by (simp add: idma_event_def t)
  show ?thesis
  proof (cases "open_chunks d = {e}")
    case False
    obtain cs' where cs': "chunk_event_process (idma_process env t) e (s, cs, d, h, w) = Some (Inr (s, cs', ?d, h, w))" "waiting b IdmaWriteDone cs' ?d"
      using waiting_step [OF b(1) e False, of "idma_process env t" s h w] by blast
    have "card (open_chunks ?d) = L - 1" using b(1,3) e by (auto simp: waiting_def open_chunks_remove)
    moreover have "0 < card (open_chunks ?d)" using cs'(2) by (auto simp: waiting_def card_gt_0_iff)
    ultimately have "writing view env V (L - 1) (s, cs', ?d, h, w)" unfolding writing_def using cs'(2) b(2,5) by auto
    then have "phase view reach k c env s0 V (L - 1) (s, cs', ?d, h, w)" unfolding phase_def using ph by simp
    then show ?thesis unfolding ev using cs'(1) b(4) by (intro exI [of _ "(s, cs', ?d, h, w)"] exI [of _ "L - 1"]) simp
  next
    case True
    obtain cs1 where cs1: "\<And>s' cs' dw. idma_process env t IdmaWriteDone (s, cs1, ?d, h, w) = Some (Inr (s', cs', dw)) \<Longrightarrow>
        \<exists>n. chunk_event_process (idma_process env t) e (s, cs, d, h, w) = Some (Inr (s', cs'\<lparr>drainSignals := n, callbacks := (callbacks cs')(b := None)\<rparr>, dw))"
      using waiting_last [OF b(1) True, of "idma_process env t" s h w] by blast
    let ?s = "s\<lparr>statusReg := 2\<rparr>"
    have "idma_process env t IdmaWriteDone (s, cs1, ?d, h, w) = Some (Inr (?s, cs1, ?d, h, w))" by (simp add: idma_process_def idmaWriteDone_def)
    then obtain cs' where n: "chunk_event_process (idma_process env t) e (s, cs, d, h, w) = Some (Inr (?s, cs', ?d, h, w))" using cs1 by blast
    have "writing view env V 0 (?s, cs', ?d, h, w)" unfolding writing_def using True b(5) by (simp add: open_chunks_remove)
    moreover have "transfer_ok reach k c env ?s w" using transfer_ok_cong [where reach = reach, OF refl] ph(2) by simp
    moreover have "?s = s0\<lparr>statusReg := statusReg ?s\<rparr>" by (subst ph(3)) simp
    ultimately have "phase view reach k c env s0 V 0 (?s, cs', ?d, h, w)" unfolding phase_def using ph(1) by simp
    then show ?thesis unfolding ev using n b(4) by blast
  qed
qed

lemma phase_event:
  assumes "phase view reach k c env s0 V L x" and "atomicPeer env = send" and "e \<in> pending x"
  shows "\<exists>y L'. idma_event env e x = Some (Inr y) \<and> phase view reach k c env s0 V L' y \<and> L' < L"
proof -
  obtain s cs d h w where x: "x = (s, cs, d, h, w)" by (cases x) auto
  then have e: "reading view env V L (s, cs, d, h, w) \<or> writing view env V L (s, cs, d, h, w)" "e \<in> open_chunks d"
    using assms by (auto simp: phase_def pending_def)
  note p = assms(1) [unfolded x]
  show ?thesis unfolding x using e(1)
  proof
    assume "reading view env V L (s, cs, d, h, w)"
    then show "\<exists>y L'. idma_event env e (s, cs, d, h, w) = Some (Inr y) \<and> phase view reach k c env s0 V L' y \<and> L' < L" by (rule reading_event [OF p _ assms(2) e(2)])
  next
    assume "writing view env V L (s, cs, d, h, w)"
    then show "\<exists>y L'. idma_event env e (s, cs, d, h, w) = Some (Inr y) \<and> phase view reach k c env s0 V L' y \<and> L' < L" by (rule writing_event [OF p _ e(2)])
  qed
qed

lemma phase_run:
  assumes "idma_run env x es y" and "phase view reach k c env s0 V L x" and "atomicPeer env = send"
  shows "\<exists>L'. phase view reach k c env s0 V L' y \<and> length es + L' \<le> L"
  using assms
proof (induction rule: idma_run.induct)
  case (snoc x es y e z)
  then obtain L' where "phase view reach k c env s0 V L' y" "length es + L' \<le> L" by blast
  moreover from this(1) obtain z' L'' where "idma_event env e y = Some (Inr z')" "phase view reach k c env s0 V L'' z'" "L'' < L'"
    using phase_event snoc.hyps(2) snoc.prems(2) by blast
  ultimately show ?case using snoc.hyps(3) by (intro exI [of _ L'']) simp
qed auto

end

end
