(* ===== verification/Idma_Transfer.thy ===== *)
theory Idma_Transfer
  imports Idma_Phases
begin

text \<open>
  What programs see of the IDMA engine: the copy made by a transfer, the registers, and their errors.
\<close>

section \<open>The copy\<close>

context memory_peer
begin

text \<open>A region inside one page of memory.\<close>

lemma region_in_page:
  assumes "pt_ok k t" and "n \<le> page_rest k v" and "pt_translate t v = Some p" and "reach w p n D" and "unat p + n + 2 ^ c < 2 ^ 64"
  shows "region_ok reach c t w v n D" and "inj_on (phys t v) {..<n}"
proof -
  have tr: "pt_translate t (v + of_nat j) = Some (p + of_nat j)" if "j < n" for j
    using translate_in_page [OF assms(1), of j v] that assms(2,3) by simp
  have u: "unat (p + of_nat j) = unat p + j" if "j \<le> n" for j using unat_offset [of p n j] that assms(5) by simp
  have "reach w q m (D + i) \<and> unat q + 2 ^ c < 2 ^ 64"
    if q: "0 < m" "i + m \<le> n" "\<forall>j<m. pt_translate t (v + of_nat (i + j)) = Some (q + of_nat j)" for i m q
  proof -
    have "pt_translate t (v + of_nat i) = Some q" using q(3) [THEN spec, of 0] q(1) by simp
    then have "q = p + of_nat i" using tr [of i] q(1,2) by simp
    then show ?thesis using reach_part [OF assms(4) q(2)] u [of i] q(2) assms(5) by simp
  qed
  then show "region_ok reach c t w v n D" unfolding region_ok_def using tr by auto
  show "inj_on (phys t v) {..<n}"
  proof (rule inj_onI)
    fix x y assume "x \<in> {..<n}" "y \<in> {..<n}" "phys t v x = phys t v y"
    then have "unat (p + of_nat x) = unat (p + of_nat y)" "x \<le> n" "y \<le> n" using tr by (simp_all add: phys_def)
    then show "x = y" using u by simp
  qed
qed

end

lemma transfer_ok_command: "transfer_ok reach k c env (s\<lparr>commandReg := v\<rparr>) w = transfer_ok reach k c env s w"
  by (simp add: transfer_ok_def)

lemma makeResponse_write: "cmd p = WriteReq \<Longrightarrow> \<exists>q. makeResponse p = Inr q"
proof -
  assume "cmd p = WriteReq"
  moreover have "needsResponse WriteReq" "isRequest WriteReq" by code_simp+
  ultimately show ?thesis by (simp add: makeResponse_ok)
qed

text \<open>A write to the command register starts a transfer.\<close>

lemma idma_write_command:
  assumes "pkt_ok p" and "cmd p = WriteReq" and "psize p = 4" and "addr p = regBase s + REG_COMMAND_OFFSET" and "getLE 4 h p = Inr v" and "v AND 1 \<noteq> 0"
    and "idmaTransfer env t (s\<lparr>commandReg := v\<rparr>, cs, d, h, w) = Some (Inr x)"
  shows "\<exists>q. idma_write env t p (s, cs, d, h, w) = Some (Inr (10, q, x))"
proof -
  obtain q where q: "makeResponse p = Inr q" using makeResponse_write [OF assms(2)] by blast
  have "rbind (getAddr p) (\<lambda>a. rbind (getSize p) (\<lambda>n. Inr (a - regBase s, n))) = Inr (REG_COMMAND_OFFSET, 4)"
    using pkt_okD(1,2) [OF assms(1)] assms(3,4) by simp
  then show ?thesis using q assms(5-7) by (simp add: idma_write_def write_reg32_def Let_def)
qed

text \<open>
  C1: an IDMA transfer on a scratchpad in atomic mode copies memory. Writing an odd value to the command
  register starts it and sets the status to busy. Whatever the order in which the completion events of the
  chunks run, they run without an error, there is a bound on their number, the status stays busy while some are
  outstanding, and when none is left the status is complete, the bytes of the source region are at the
  target region in virtual memory, and nothing else in the memory has changed.
\<close>

theorem idma_transfer_copies:
  fixes env :: "ScratchpadMemory IdmaEnv"
  assumes "transfer_ok (\<lambda>w. am_reach (base (spm w))) k c env s w" and "atomicPeer env = dma_recvAtomic rnd"
    and "idle_port c d" "fresh_events cs d" "open_chunks d = {}"
    and "pkt_ok p" "cmd p = WriteReq" "psize p = 4" "addr p = regBase s + 0xC" "getLE 4 h p = Inr (v :: 32 word)" "v AND 1 \<noteq> 0"
  shows "\<exists>q x. idma_write env t p (s, cs, d, h, w) = Some (Inr (10, q, x)) \<and> statusReg (fst x) = 1
    \<and> (\<forall>es y. idma_run env x es y \<longrightarrow> length es \<le> 2 * max 1 (unat (sizeReg s))
        \<and> (\<forall>e\<in>pending y. \<exists>z. idma_event env e y = Some (Inr z))
        \<and> (case y of (s', cs', d', h', w') \<Rightarrow>
             if pending y \<noteq> {} then statusReg s' = 1
             else statusReg s' = 2 \<and> copied (ptable env) (ucast (srcAddrReg s)) (ucast (dstAddrReg s)) (unat (sizeReg s))
                    (am_view h (base (spm w))) (am_view h' (base (spm w')))))"
proof -
  let ?view = "\<lambda>h w. am_view h (base (spm w))" and ?reach = "\<lambda>w. am_reach (base (spm w))" and ?s = "s\<lparr>commandReg := v\<rparr>"
  let ?V = "?view h w"
  have "transfer_ok ?reach k c env ?s w" using assms(1) by (simp add: transfer_ok_command)
  moreover have "commandReg ?s AND 1 \<noteq> 0" using assms(11) by simp
  ultimately obtain L x where x: "idmaTransfer env t (?s, cs, d, h, w) = Some (Inr x)"
    "phase ?view ?reach k c env ?s ?V L x" "L \<le> 2 * max 1 (unat (sizeReg ?s))" "reading ?view env ?V L x"
    using spm_peer.transfer_start [OF _ assms(2-5)] by blast
  obtain q where q: "idma_write env t p (s, cs, d, h, w) = Some (Inr (10, q, x))" using idma_write_command [OF assms(6-11) x(1)] by blast
  have busy: "statusReg (fst x) = 1" using x(4) by (auto simp: reading_def split: prod.splits)
  have "length es \<le> 2 * max 1 (unat (sizeReg s)) \<and> (\<forall>e\<in>pending y. \<exists>z. idma_event env e y = Some (Inr z))
        \<and> (case y of (s', cs', d', h', w') \<Rightarrow>
             if pending y \<noteq> {} then statusReg s' = 1
             else statusReg s' = 2 \<and> copied (ptable env) (ucast (srcAddrReg s)) (ucast (dstAddrReg s)) (unat (sizeReg s)) ?V (?view h' w'))"
    if run: "idma_run env x es y" for es y
  proof -
    obtain s' cs' d' h' w' where y: "y = (s', cs', d', h', w')" by (cases y) auto
    obtain L' where L': "phase ?view ?reach k c env ?s ?V L' y" "length es + L' \<le> L" using spm_peer.phase_run [OF run x(2) assms(2)] by blast
    have regs: "srcAddrReg s' = srcAddrReg s" "dstAddrReg s' = dstAddrReg s" "sizeReg s' = sizeReg s"
    proof -
      have s': "s' = ?s\<lparr>statusReg := statusReg s'\<rparr>" using L'(1) by (simp add: phase_def y)
      show "srcAddrReg s' = srcAddrReg s" "dstAddrReg s' = dstAddrReg s" "sizeReg s' = sizeReg s" by (subst s', simp)+
    qed
    have ne: "pending y \<noteq> {}" if "waiting b f cs' d'" for b f using that by (simp add: waiting_def pending_def y)
    have "reading ?view env ?V L' y \<or> writing ?view env ?V L' y" using L'(1) by (simp add: phase_def y)
    then have "if pending y \<noteq> {} then statusReg s' = 1
        else statusReg s' = 2 \<and> copied (ptable env) (ucast (srcAddrReg s)) (ucast (dstAddrReg s)) (unat (sizeReg s)) ?V (?view h' w')"
      using ne unfolding reading_def writing_def y pending_def by (auto simp: regs split: if_splits)
    moreover have "\<forall>e\<in>pending y. \<exists>z. idma_event env e y = Some (Inr z)" using spm_peer.phase_event [OF L'(1) assms(2)] by blast
    ultimately show ?thesis using L'(2) x(3) y by simp
  qed
  then show ?thesis using q busy by blast
qed

text \<open>When runs are bounded and never stuck, some run reaches a state without pending events.\<close>

lemma idma_run_finishes:
  assumes "\<And>es y. idma_run env x es y \<Longrightarrow> length es \<le> N \<and> (\<forall>e\<in>pending y. \<exists>z. idma_event env e y = Some (Inr z))"
  shows "\<exists>es y. idma_run env x es y \<and> pending y = {}"
proof (rule ccontr)
  assume no: "\<not> ?thesis"
  have "\<exists>es y. idma_run env x es y \<and> length es = n" for n
  proof (induction n)
    case 0
    then show ?case using idma_run.nil by blast
  next
    case (Suc n)
    then obtain es y where r: "idma_run env x es y" "length es = n" by blast
    then obtain e where e: "e \<in> pending y" using no by blast
    then obtain z where "idma_event env e y = Some (Inr z)" using assms r(1) by blast
    then show ?case using idma_run.snoc [OF r(1) e] r(2) by fastforce
  qed
  then obtain es y where "idma_run env x es y" "length es = Suc N" by blast
  then show False using assms by fastforce
qed

definition sample_env :: "ScratchpadMemory IdmaEnv" where
  "sample_env = \<lparr>fullSystem = False,
     ptable = \<lparr>pTable = [0x1000 \<mapsto> \<lparr>e_paddr = 0x80000000, e_flags = 0\<rparr>], pageSize = 0x1000, offsetMask = 0xFFF, pt_pid = 1\<rparr>,
     memMode = mode_atomic, atomicPeer = dma_recvAtomic 0, backdoorPeer = (\<lambda>h w p. Inl Panic), timingAccepts = (\<lambda>_. True), loopFuel = 20\<rparr>"

definition sample_idma :: IDMA where
  "sample_idma = (newIDMA 16)\<lparr>srcAddrReg := 0x1010, dstAddrReg := 0x1100, sizeReg := 8\<rparr>"

definition sample_callbacks :: "IdmaFunction CallbackHeap" where
  "sample_callbacks = \<lparr>callbacks = Map.empty, nextCallback = 0, chunkEvents = Map.empty, nextEvent = 0, drainSignals = 0\<rparr>"

definition sample_scratchpad :: ScratchpadMemory where
  "sample_scratchpad = newScratchpadMemory (newSimpleMemory sample_memory 1000 0 (\<lambda>n. 4 * n))"

definition sample_host :: mem where
  "sample_host i = (if i = 64 then 1 else if 65 \<le> i \<and> i < 68 then 0 else of_nat i)"

lemma sample_base: "base (spm sample_scratchpad) = sample_memory"
  by (simp add: sample_scratchpad_def newScratchpadMemory_def newSimpleMemory_def)

lemma sample_pt: "pt_ok 12 (ptable sample_env)" "ptable sample_env = \<lparr>pTable = [0x1000 \<mapsto> \<lparr>e_paddr = 0x80000000, e_flags = 0\<rparr>], pageSize = 0x1000, offsetMask = 0xFFF, pt_pid = 1\<rparr>"
  by (simp_all add: sample_env_def pt_ok_def mask_eq_exp_minus_1)

lemma sample_translate: "pt_translate (ptable sample_env) 0x1010 = Some 0x80000010" "pt_translate (ptable sample_env) 0x1100 = Some 0x80000100"
  by (simp_all add: sample_pt(2) pt_translate_def pt_lookup_def pageAlign_def pageOffset_def)

lemma sample_reach: "0x80000000 \<le> a \<Longrightarrow> unat a + 8 \<le> 0x80001000 \<Longrightarrow> am_reach (base (spm sample_scratchpad)) a 8 16"
  by (simp add: sample_base am_reach_def sample_memory_def plain_def valid_def locks_ok_def)

lemma sample_transfer_ok: "transfer_ok (\<lambda>w. am_reach (base (spm w))) 12 6 sample_env sample_idma sample_scratchpad"
proof -
  have s: "sizeReg sample_idma = 8" "srcAddrReg sample_idma = 0x1010" "dstAddrReg sample_idma = 0x1100" "dmaBuffer sample_idma = 16"
    by (simp_all add: sample_idma_def newIDMA_def)
  have r: "8 \<le> page_rest 12 0x1010" "8 \<le> page_rest 12 0x1100" by (simp_all add: page_rest_def)
  have a: "am_reach (base (spm sample_scratchpad)) 0x80000010 8 16" "am_reach (base (spm sample_scratchpad)) 0x80000100 8 16"
    by (rule sample_reach; simp)+
  have "region_ok (\<lambda>w. am_reach (base (spm w))) 6 (ptable sample_env) sample_scratchpad 0x1010 8 16"
    using spm_peer.region_in_page(1) [OF sample_pt(1) r(1) sample_translate(1) a(1), of 6] by simp
  moreover have "region_ok (\<lambda>w. am_reach (base (spm w))) 6 (ptable sample_env) sample_scratchpad 0x1100 8 16"
    "inj_on (phys (ptable sample_env) 0x1100) {..<8}"
    using spm_peer.region_in_page [OF sample_pt(1) r(2) sample_translate(2) a(2), of 6] by simp_all
  ultimately show ?thesis using sample_pt(1) by (simp add: transfer_ok_def s) (simp add: sample_env_def)
qed

theorem idma_transfer_copies_witness:
  "\<exists>q x es y. idma_write sample_env 0 (sample_packet WriteReq 0x8006000C 4 64)
      (sample_idma, sample_callbacks, newDmaPort 0 64 1000 None None, sample_host, sample_scratchpad) = Some (Inr (10, q, x))
    \<and> idma_run sample_env x es y \<and> pending y = {} \<and> statusReg (fst y) = 2
    \<and> (case y of (s', cs', d', h', w') \<Rightarrow> am_view h' (base (spm w')) 0x80000103 = 0x13)"
proof -
  let ?p = "sample_packet WriteReq 0x8006000C 4 64" and ?d = "newDmaPort 0 64 1000 None None"
  have s: "sizeReg sample_idma = 8" "srcAddrReg sample_idma = 0x1010" "dstAddrReg sample_idma = 0x1100" "regBase sample_idma = 0x80060000"
    by (simp_all add: sample_idma_def newIDMA_def)
  have d: "idle_port 6 ?d" "fresh_events sample_callbacks ?d" "open_chunks ?d = {}"
    by (simp_all add: idle_port_def newDmaPort_def fresh_events_def open_chunks_def)
  have a: "addr ?p = regBase sample_idma + 0xC" by (simp add: s)
  have v: "getLE 4 sample_host ?p = Inr (1 :: 32 word)"
    by (simp add: getLE_def getRaw_def letoh_def isSet_def sample_host_def read_bytes_def upt_rec)
  have c: "pkt_ok ?p" "cmd ?p = WriteReq" "psize ?p = 4" by (simp_all add: sample_packet_ok)
  have n: "(1 :: 32 word) AND 1 \<noteq> 0" "ucast (0x1010 :: 32 word) = (0x1010 :: Addr)" "ucast (0x1100 :: 32 word) = (0x1100 :: Addr)"
    "unat (8 :: 32 word) = 8" "2 * max 1 (8 :: nat) = 16" by simp_all
  have env: "atomicPeer sample_env = dma_recvAtomic 0" by (simp add: sample_env_def)
  obtain q x where x: "idma_write sample_env 0 ?p (sample_idma, sample_callbacks, ?d, sample_host, sample_scratchpad) = Some (Inr (10, q, x))"
    and run: "\<And>es y. idma_run sample_env x es y \<Longrightarrow> length es \<le> 16 \<and> (\<forall>e\<in>pending y. \<exists>z. idma_event sample_env e y = Some (Inr z))
        \<and> (case y of (s', cs', d', h', w') \<Rightarrow>
             if pending y \<noteq> {} then statusReg s' = 1
             else statusReg s' = 2 \<and> copied (ptable sample_env) 0x1010 0x1100 8 (am_view sample_host (base (spm sample_scratchpad))) (am_view h' (base (spm w'))))"
    using idma_transfer_copies [OF sample_transfer_ok env d c a v n(1), of 0, unfolded s n(2-)] by blast
  obtain es y where y: "idma_run sample_env x es y" "pending y = {}" using idma_run_finishes [of sample_env x 16] run by blast
  obtain s' cs' d' h' w' where e: "y = (s', cs', d', h', w')" by (cases y) auto
  have st: "statusReg s' = 2" "copied (ptable sample_env) 0x1010 0x1100 8 (am_view sample_host (base (spm sample_scratchpad))) (am_view h' (base (spm w')))"
    using run [OF y(1)] y(2) unfolding e by simp_all
  have "phys (ptable sample_env) 0x1100 3 = 0x80000103" "phys (ptable sample_env) 0x1010 3 = 0x80000013"
    by (simp_all add: phys_def sample_pt(2) pt_translate_def pt_lookup_def pageAlign_def pageOffset_def)
  then have "am_view h' (base (spm w')) 0x80000103 = am_view sample_host sample_memory 0x80000013"
    using st(2) [unfolded copied_def, THEN conjunct1, rule_format, of 3] by (simp add: sample_base)
  also have "\<dots> = 0x13"
    by (simp add: am_view_def sample_memory_def mem_at_def toHostAddr_def plain_contains plain_def valid_def sample_host_def)
  finally show ?thesis using x y e st(1) by (intro exI [of _ q] exI [of _ x] exI [of _ es] exI [of _ y]) simp
qed

section \<open>Registers\<close>

text \<open>The sizes of accesses that a register refuses; unknown offsets accept any size.\<close>

definition refused :: "Addr \<Rightarrow> nat \<Rightarrow> bool" where
  "refused offset n \<longleftrightarrow> offset \<in> {0x00, 0x04} \<and> n \<notin> {4, 8} \<or> offset \<in> {0x08, 0x0C, 0x10} \<and> n \<noteq> 4"

lemma setLE_ok: "pkt_ok p \<Longrightarrow> n \<le> psize p \<Longrightarrow> setLE n h v p = Inr (write_bytes h (data p) (to_le n v))"
  by (simp add: setLE_def setRaw_def htole_def pkt_ok_def)

lemma getLE_ok: "pkt_ok p \<Longrightarrow> n \<le> psize p \<Longrightarrow> getLE n h p = Inr (from_le (read_bytes h (data p) n))"
  by (simp add: getLE_def getRaw_def letoh_def pkt_ok_def)

lemma makeResponse_read: "cmd p = ReadReq \<Longrightarrow> \<exists>q. makeResponse p = Inr q"
proof -
  assume "cmd p = ReadReq"
  moreover have "needsResponse ReadReq" "isRequest ReadReq" by code_simp+
  ultimately show ?thesis by (simp add: makeResponse_ok)
qed


lemma keep_upper_half: "ucast (((ucast (old :: 32 word) :: 64 word) AND 0xFFFFFFFF00000000) OR ucast v) = (v :: 32 word)"
proof -
  have m: "(0xFFFFFFFF00000000 :: 64 word) = NOT (mask 32)" by (simp add: mask_eq_exp_minus_1)
  show ?thesis unfolding m by (rule bit_word_eqI) (auto simp: bit_simps)
qed




end
