(* ===== verification/Spec2Isabelle.thy ===== *)
theory Spec2Isabelle
  imports Dma_Timing Idma_Transfer
begin

text \<open>
  \<^bold>\<open>The memory system of the Zircon many-core simulator\<close>

  The repository is a fork of the gem5 simulator, to which it adds a scratchpad memory with a port for DMA and
  an engine that copies memory through it (\<^verbatim>\<open>src/gem5_sim/src/mem/spm\<close>). This development models the path of a
  transfer from the registers of the engine down to the bytes of the store, and every part of the
  simulator on that path: bit helpers and address ranges, requests and packets, the event queue, the clocks, the
  memory controllers, the DMA port, address translation, and the engine. File names below are relative to
  \<^verbatim>\<open>src/gem5_sim/src\<close>.

  \<^bold>\<open>Conventions.\<close> Addresses and registers are words of their C++ width, so that wrap-around is the code's; ticks
  are natural numbers. The memory of the host is a function \<open>mem\<close> from host addresses to bytes, so buffers and
  backing stores may alias and the theorems say when they must not. Objects that the code reaches through
  pointers are cells of a heap with a counter for fresh names. A \<^verbatim>\<open>panic\<close>, a \<^verbatim>\<open>fatal\<close> and a failed \<^verbatim>\<open>assert\<close> are
  the values \<open>Panic\<close>, \<open>Fatal\<close> and \<open>AssertFail\<close> on the left of the result type \<open>'a res\<close>. Handlers take the current tick,
  and the answers of the other side of a port to the requests they send, as arguments. Events of a device are
  fields that hold the tick they are scheduled for; \<^verbatim>\<open>Sim_Object\<close> proves that scheduling such a field is what the event
  queue does to the event.

  \<^bold>\<open>The parts and their theories.\<close>

  \<^item> \<^verbatim>\<open>Sim_Prelude\<close>: results, bytes in host memory, little-endian words, and the shared simplification rules.
  \<^item> \<^verbatim>\<open>Bit_Utils\<close>: \<^verbatim>\<open>base/bitfield.hh\<close> and \<^verbatim>\<open>base/intmath.hh\<close>. The logarithms bracket their argument, and the portable
    64-bit multiplication is exact.
  \<^item> \<^verbatim>\<open>Addr_Range\<close>, \<^verbatim>\<open>Addr_Range_Map\<close>: \<^verbatim>\<open>base/addr_range.hh\<close>, \<^verbatim>\<open>base/addr_range_map.hh\<close>. Interleaved ranges and their address
    compression, exclusion and merging as set operations, and the map with its cache, which decodes addresses as
    a plain search would (locale \<open>addr_decoder\<close>, interpreted by the map).
  \<^item> \<^verbatim>\<open>Mem_Request\<close>, \<^verbatim>\<open>Mem_Command\<close>, \<^verbatim>\<open>Byte_Order\<close>, \<^verbatim>\<open>Mem_Packet\<close>: \<^verbatim>\<open>mem/request.hh\<close>, \<^verbatim>\<open>mem/packet.hh\<close>, \<^verbatim>\<open>mem/packet.cc\<close>,
    \<^verbatim>\<open>mem/packet_access.hh\<close>, \<^verbatim>\<open>sim/byteswap.hh\<close>, \<^verbatim>\<open>sim/bufval.cc\<close>. The command table is consistent, splitting requests
    loses no byte, typed accesses read back, functional reads take exactly the bytes two packets share.
  \<^item> \<^verbatim>\<open>Chunk_Gen\<close>: \<^verbatim>\<open>base/chunk_generator.hh\<close>. The chunks tile the region and respect the chunk boundaries.
  \<^item> \<^verbatim>\<open>Event_Queue\<close>, \<^verbatim>\<open>Event_Schedule\<close>, \<^verbatim>\<open>Sim_Object\<close>: \<^verbatim>\<open>sim/eventq.hh\<close>, \<^verbatim>\<open>sim/eventq.cc\<close>, \<^verbatim>\<open>sim/clocked_object.hh\<close>, \<^verbatim>\<open>sim/drain.hh\<close>. The
    linked bins implement a map from events to times (locale \<open>event_manager\<close>, interpreted by the queue), the service
    loop runs events in time order and ends at its horizon, and the clock cache agrees with the arithmetic.
  \<^item> \<^verbatim>\<open>Memory_Peer\<close>: the contract of an atomic memory access, as the locale \<open>memory_peer\<close>. The DMA port and the engine
    are verified against it; the two controllers interpret it.
  \<^item> \<^verbatim>\<open>Abstract_Memory\<close>, \<^verbatim>\<open>Simple_Memory\<close>: \<^verbatim>\<open>mem/abstract_mem.cc\<close>, \<^verbatim>\<open>mem/simple_mem.cc\<close>. Reads return what was written,
    load-locked and store-conditional are atomic under interleaving, responses keep their order, nothing
    gets stuck, and the bandwidth limit holds.
  \<^item> \<^verbatim>\<open>Scratchpad\<close>: \<^verbatim>\<open>mem/spm/spm.cc\<close>. Cores and DMA see the same store, and neither port gets stuck.
  \<^item> \<^verbatim>\<open>Dma_Port\<close>, \<^verbatim>\<open>Dma_Timing\<close>: \<^verbatim>\<open>dev/dma_device.cc\<close>. Transfers in atomic mode move exactly the requested bytes; in timing
    mode, as a step relation with the peer and the event queue as adversaries, bytes are conserved, responses never
    fail an assertion, and a transfer always has a next step.
  \<^item> \<^verbatim>\<open>Page_Table\<close>: \<^verbatim>\<open>mem/page_table.cc\<close>, \<^verbatim>\<open>mem/translation_gen.hh\<close>. Mapping and unmapping as changes of the translation, their
    errors, and the walk over a region.
  \<^item> \<^verbatim>\<open>Dma_Virt\<close>: \<^verbatim>\<open>dev/dma_virt_device.cc\<close> and the callbacks of \<^verbatim>\<open>dev/dma_device.hh\<close>.
  \<^item> \<^verbatim>\<open>Idma\<close>, \<^verbatim>\<open>Idma_Phases\<close>, \<^verbatim>\<open>Idma_Transfer\<close>: \<^verbatim>\<open>mem/spm/idma.cc\<close> with the port of \<^verbatim>\<open>dev/io_device.hh\<close>. A transfer started by the
    command register copies the source region to the target region of virtual memory, whatever the order of
    its completion events; registers read back; accesses of wrong sizes panic.

  \<^bold>\<open>Fuel and bounds.\<close> Loops over lists and pages are total functions. The two loops of an atomic DMA, the loop over
  the ranges of a virtual transfer and the walk of a translation generator take fuel, with \<open>None\<close> for
  running out of it; the theorems ask for as much fuel as the region has bytes (and three steps more), which is
  enough because every round handles at least one byte, and conclude that a result is returned. The searches of
  the event queue are partial functions in the option monad, proved to return. Hypotheses that bound a region keep it
  a page or a line away from the end of the 64-bit address space, where the code's round-up wraps. The copy theorem
  needs a size of at most the engine's buffer, 1 MiB, which the code does not check.

  \<^bold>\<open>Not modelled.\<close> The cores and instruction sets (\<^verbatim>\<open>arch\<close>, \<^verbatim>\<open>cpu\<close>), caches and coherence (\<^verbatim>\<open>mem/cache\<close>, \<^verbatim>\<open>mem/ruby\<close>, snoop
  filters, crossbars, bridges), DRAM and other memory technologies, other devices, GPUs, system calls and processes,
  the Python configuration, statistics, checkpoints, debug output and the build: none is on the path of a
  transfer between the engine and a memory it is connected to, and some (ruby protocols, instruction decoders)
  are generated when the simulator is built. Parallel event queues and asynchronous
  insertion need a model of threads. In modelled files, what is left out is listed with the component in the
  manifest: mostly serialisation, statistics, and the buffered FIFO on top of the DMA port.
  The sample programs of \<^verbatim>\<open>gem5_SE_multithread\<close> are clients of the simulator.
\<close>

end
